(* ===== verification/Xk_Prelude.thy ===== *)
theory Xk_Prelude
  imports Main "HOL-Library.Word" "HOL-Library.Monad_Syntax"
begin

text \<open>
  Shared vocabulary of the xk development: machine integer types, the C conversions that wrap, the
  reading of \<open>option\<close> as "the call returns" (\<open>None\<close> is a call that never comes back to its caller:
  \<open>panic\<close>, a failed \<open>assert\<close>, a null dereference or a wait that nothing can end), and the generic
  lemmas on lists, options and words that the component theories use.
\<close>

unbundle bit_operations_syntax

section \<open>Machine integers\<close>

type_synonym u8 = "8 word"
type_synonym u16 = "16 word"
type_synonym u32 = "32 word"
type_synonym u64 = "64 word"

text \<open>
  A C \<open>short\<close> and a C \<open>int\<close> are kept as mathematical integers; a store into such an object goes through
  \<open>c_short\<close> or \<open>c_int\<close>, the two's complement value of the low 16 or 32 bits.
\<close>

definition c_short :: "int \<Rightarrow> int" where
  "c_short x = signed_take_bit 15 x"

definition c_int :: "int \<Rightarrow> int" where
  "c_int x = signed_take_bit 31 x"

named_theorems bind_simps \<open>equations that take a returning call apart\<close>

named_theorems inv_simps \<open>field equations of the operations, for invariant proofs\<close>

declare Option.bind_eq_Some_conv [bind_simps]

lemma c_short_id [simp]: "- (2 ^ 15) \<le> x \<Longrightarrow> x < 2 ^ 15 \<Longrightarrow> c_short x = x"
  by (simp add: c_short_def signed_take_bit_int_eq_self)

lemma c_int_id [simp]: "- (2 ^ 31) \<le> x \<Longrightarrow> x < 2 ^ 31 \<Longrightarrow> c_int x = x"
  by (simp add: c_int_def signed_take_bit_int_eq_self)

lemma c_int_range: "- (2 ^ 31) \<le> c_int x \<and> c_int x < 2 ^ 31"
  unfolding c_int_def
  using signed_take_bit_int_greater_eq_minus_exp [of 31 x] signed_take_bit_int_less_exp [of 31 x]
  by simp

lemma unat_u64_less: "unat (x :: u64) < 2 ^ 64" and unat_u32_less: "unat (y :: u32) < 2 ^ 32"
  using unsigned_less [of x] unsigned_less [of y] by simp_all

section \<open>Table scans\<close>

text \<open>
  \<open>for (i = lo; i < n; i++) if (P(i)) break;\<close>: the index at which the scan stops, \<open>None\<close> when it runs off
  the end. The kernel searches all its fixed tables this way.
\<close>

function for_first :: "(nat \<Rightarrow> bool) \<Rightarrow> nat \<Rightarrow> nat \<Rightarrow> nat option" where
  "for_first P i n = (if i < n then (if P i then Some i else for_first P (Suc i) n) else None)"
  by pat_completeness auto
termination
  by (relation "measure (\<lambda>(P, i, n). n - i)") auto

declare for_first.simps [simp del]

lemma for_first_None: "for_first P i n = None \<longleftrightarrow> (\<forall>j. i \<le> j \<and> j < n \<longrightarrow> \<not> P j)"
proof (induction P i n rule: for_first.induct)
  case (1 P i n)
  show ?case
  proof (cases "i < n \<and> \<not> P i")
    case True
    then have "for_first P i n = for_first P (Suc i) n" by (simp add: for_first.simps [of P i])
    with True 1 show ?thesis by (auto simp: Suc_le_eq) (metis le_neq_implies_less)
  next
    case False
    then show ?thesis by (auto simp: for_first.simps [of P i])
  qed
qed

lemma for_first_Some:
  "for_first P i n = Some k \<longleftrightarrow> i \<le> k \<and> k < n \<and> P k \<and> (\<forall>j. i \<le> j \<and> j < k \<longrightarrow> \<not> P j)"
proof (induction P i n rule: for_first.induct)
  case (1 P i n)
  show ?case
  proof (cases "i < n \<and> \<not> P i")
    case True
    then have "for_first P i n = for_first P (Suc i) n" by (simp add: for_first.simps [of P i])
    with True 1 show ?thesis
      by (auto simp: Suc_le_eq) (metis le_neq_implies_less)+
  next
    case False
    then show ?thesis
      by (auto simp: for_first.simps [of P i])
  qed
qed

lemma for_first_cong:
  "(\<And>j. i \<le> j \<Longrightarrow> j < n \<Longrightarrow> P j = Q j) \<Longrightarrow> for_first P i n = for_first Q i n"
proof (induction P i n rule: for_first.induct)
  case (1 P i n)
  then show ?case by (auto simp: for_first.simps [of P i] for_first.simps [of Q i])
qed

section \<open>Updated lists\<close>

lemma nth_upd: "xs[i := x] ! j = (if i = j \<and> j < length xs then x else xs ! j)"
  by (cases "i < length xs") (auto simp: nth_list_update list_update_beyond)

definition count_if :: "('a \<Rightarrow> bool) \<Rightarrow> 'a list \<Rightarrow> int" where
  "count_if P xs = int (length (filter P xs))"

lemma count_if_simps [simp]:
  "count_if P [] = 0"
  "count_if P (x # xs) = (if P x then 1 else 0) + count_if P xs"
  by (simp_all add: count_if_def)

lemma count_if_append [simp]: "count_if P (xs @ ys) = count_if P xs + count_if P ys"
  by (simp add: count_if_def)

lemma count_if_replicate [simp]: "count_if P (replicate n x) = (if P x then int n else 0)"
  by (induction n) auto

lemma count_if_update:
  "i < length xs \<Longrightarrow>
   count_if P (xs[i := y]) = count_if P xs - (if P (xs ! i) then 1 else 0) + (if P y then 1 else 0)"
  by (induction xs arbitrary: i) (auto split: nat.split simp: less_Suc_eq_0_disj)

lemma count_if_nonneg [simp]: "0 \<le> count_if P xs"
  by (simp add: count_if_def)

lemma count_if_le: "count_if P xs \<le> int (length xs)"
  by (simp add: count_if_def)

lemma count_if_pos: "i < length xs \<Longrightarrow> P (xs ! i) \<Longrightarrow> 0 < count_if P xs"
  by (auto simp: count_if_def filter_empty_conv)

section \<open>Flags of open (inc/fcntl.h)\<close>

text \<open>Shared by the kernel and the user programs.\<close>

definition O_RDONLY :: int where "O_RDONLY = 0"
definition O_WRONLY :: int where "O_WRONLY = 1"
definition O_RDWR :: int where "O_RDWR = 2"
definition O_CREATE :: int where "O_CREATE = 0x200"

end
