(* ===== verification/Xk_Locks.thy ===== *)
theory Xk_Locks
  imports Xk_Prelude
begin

text \<open>
  Interrupt nesting and mutual exclusion: \<open>kernel/spinlock.c\<close> (\<open>pushcli\<close>, \<open>popcli\<close>, \<open>acquire\<close>,
  \<open>release\<close>, \<open>holding\<close>) and the data of \<open>kernel/sleeplock.c\<close>. xk runs on one CPU
  (\<open>mycpu()\<close> is \<open>&cpus[0]\<close>), so a spin on a lock that somebody else left held never ends.
  \<open>acquire_lk\<close> and \<open>release_lk\<close> are what the two calls do to the lock object itself; the components
  that own a lock use them, and \<open>acquire\<close>/\<open>release\<close> add the effect on the CPU. The call stack recorded
  in \<open>lk->pcs\<close> is debugging output and is not kept.
\<close>

section \<open>Spin locks (kernel/spinlock.c)\<close>

record cpu =
  ncli :: int
  intena :: bool
  eflags_IF :: bool

record spinlock =
  locked :: u32
  lkname :: string
  lkcpu :: "nat option"

definition initlock :: "string \<Rightarrow> spinlock" where
  "initlock nm = \<lparr>locked = 0, lkname = nm, lkcpu = None\<rparr>"

text \<open>\<open>mycpu()\<close> is the address of \<open>cpus[0]\<close>; a \<open>struct cpu *\<close> is an index into \<open>cpus\<close>, null is \<open>None\<close>.\<close>

definition mycpu :: "nat option" where "mycpu = Some 0"

definition holding :: "spinlock \<Rightarrow> bool" where
  "holding lk \<longleftrightarrow> locked lk \<noteq> 0 \<and> lkcpu lk = mycpu"

definition pushcli :: "cpu \<Rightarrow> cpu" where
  "pushcli c =
     (let eflags = eflags_IF c;
          c = c\<lparr>eflags_IF := False\<rparr>;
          c = (if ncli c = 0 then c\<lparr>intena := eflags\<rparr> else c)
      in c\<lparr>ncli := ncli c + 1\<rparr>)"

definition popcli :: "cpu \<Rightarrow> cpu option" where
  "popcli c =
     (if eflags_IF c then None
      else let c = c\<lparr>ncli := ncli c - 1\<rparr>
           in if ncli c < 0 then None
              else if ncli c = 0 \<and> intena c then Some (c\<lparr>eflags_IF := True\<rparr>)
              else Some c)"

text \<open>
  \<open>xchg\<close> returns the old value of \<open>locked\<close>: the loop ends at once when it was 0 and, with interrupts off on
  the only CPU, never when it was not.
\<close>

definition acquire_lk :: "spinlock \<Rightarrow> spinlock option" where
  "acquire_lk lk =
     (if holding lk then None
      else if locked lk \<noteq> 0 then None
      else Some (lk\<lparr>locked := 1, lkcpu := mycpu\<rparr>))"

definition release_lk :: "spinlock \<Rightarrow> spinlock option" where
  "release_lk lk = (if \<not> holding lk then None else Some (lk\<lparr>lkcpu := None, locked := 0\<rparr>))"

definition acquire :: "cpu \<Rightarrow> spinlock \<Rightarrow> (cpu \<times> spinlock) option" where
  "acquire c lk =
     (let c = pushcli c in do { lk \<leftarrow> acquire_lk lk; Some (c, lk) })"

definition release :: "cpu \<Rightarrow> spinlock \<Rightarrow> (cpu \<times> spinlock) option" where
  "release c lk = do { lk \<leftarrow> release_lk lk; c \<leftarrow> popcli c; Some (c, lk) }"

definition lk_free :: "spinlock \<Rightarrow> bool" where
  "lk_free lk \<longleftrightarrow> locked lk = 0 \<and> lkcpu lk = None"

definition lk_held :: "spinlock \<Rightarrow> bool" where
  "lk_held lk \<longleftrightarrow> locked lk = 1 \<and> lkcpu lk = mycpu"

lemmas lock_defs = holding_def acquire_lk_def release_lk_def lk_free_def lk_held_def

lemma initlock_free: "lk_free (initlock nm)"
  by (simp add: lk_free_def initlock_def)

lemma acquire_lk_free [simp]:
  "lk_free lk \<Longrightarrow> acquire_lk lk = Some (lk\<lparr>locked := 1, lkcpu := mycpu\<rparr>)"
  by (simp add: lock_defs)

lemma acquire_lk_held [simp]: "lk_held lk \<Longrightarrow> acquire_lk lk = None"
  by (simp add: lock_defs)

lemma lk_held_acquired [simp]: "lk_held (lk\<lparr>locked := 1, lkcpu := mycpu\<rparr>)"
  by (simp add: lock_defs)

lemma release_lk_held [simp]: "lk_held lk \<Longrightarrow> release_lk lk = Some (lk\<lparr>lkcpu := None, locked := 0\<rparr>)"
  by (simp add: lock_defs)

lemma lk_free_released [simp]: "lk_free (lk\<lparr>lkcpu := None, locked := 0\<rparr>)"
  by (simp add: lock_defs)

lemma lk_free_restore [simp]: "lk_free lk \<Longrightarrow> lk\<lparr>lkcpu := None, locked := 0\<rparr> = lk"
  by (cases lk) (simp add: lock_defs)

text \<open>A critical section entered on a free lock gives the lock object back unchanged.\<close>

lemma lock_bracket: "lk_free lk \<Longrightarrow> do { l \<leftarrow> acquire_lk lk; release_lk l } = Some lk"
  by (cases lk) (simp add: lock_defs)

section \<open>Nested interrupt disabling\<close>

definition cpu_ok :: "cpu \<Rightarrow> bool" where
  "cpu_ok c \<longleftrightarrow> 0 \<le> ncli c \<and> (0 < ncli c \<longrightarrow> \<not> eflags_IF c)"

datatype cli_op = Push | Pop

fun run_cli :: "cli_op list \<Rightarrow> cpu \<Rightarrow> cpu option" where
  "run_cli [] c = Some c"
| "run_cli (Push # ops) c = run_cli ops (pushcli c)"
| "run_cli (Pop # ops) c = do { c \<leftarrow> popcli c; run_cli ops c }"

text \<open>\<open>nested d ops\<close>: \<open>ops\<close> closes \<open>d\<close> open brackets, its own brackets being matched.\<close>

fun nested :: "nat \<Rightarrow> cli_op list \<Rightarrow> bool" where
  "nested d [] \<longleftrightarrow> d = 0"
| "nested d (Push # ops) \<longleftrightarrow> nested (Suc d) ops"
| "nested d (Pop # ops) \<longleftrightarrow> 0 < d \<and> nested (d - 1) ops"

lemma pushcli_fields [simp]:
  "ncli (pushcli c) = ncli c + 1"
  "eflags_IF (pushcli c) = False"
  "intena (pushcli c) = (if ncli c = 0 then eflags_IF c else intena c)"
  by (simp_all add: pushcli_def Let_def)

lemma pushcli_ok: "cpu_ok c \<Longrightarrow> cpu_ok (pushcli c)"
  by (simp add: cpu_ok_def)

lemma popcli_returns:
  assumes "cpu_ok c" and "0 < ncli c"
  shows "\<exists>c'. popcli c = Some c' \<and> cpu_ok c' \<and> ncli c' = ncli c - 1 \<and> intena c' = intena c \<and>
     eflags_IF c' = (ncli c = 1 \<and> intena c)"
  using assms by (auto simp: popcli_def cpu_ok_def Let_def)

lemma run_cli_nested:
  assumes "nested d ops" and "cpu_ok c" and "ncli c = int d"
    and "i = (if d = 0 then eflags_IF c else intena c)"
  shows "\<exists>c'. run_cli ops c = Some c' \<and> ncli c' = 0 \<and> eflags_IF c' = i"
  using assms
proof (induction d ops arbitrary: c rule: nested.induct)
  case (1 d)
  then show ?case by simp
next
  case (2 d ops)
  have "\<exists>c'. run_cli ops (pushcli c) = Some c' \<and> ncli c' = 0 \<and> eflags_IF c' = i"
    by (rule "2.IH") (use "2.prems" in \<open>auto simp: pushcli_ok\<close>)
  then show ?case by simp
next
  case (3 d ops)
  then have "0 < ncli c" by simp
  with popcli_returns [OF "3.prems"(2)] obtain c1 where c1: "popcli c = Some c1" "cpu_ok c1"
    "ncli c1 = ncli c - 1" "intena c1 = intena c" "eflags_IF c1 = (ncli c = 1 \<and> intena c)"
    by blast
  have "\<exists>c'. run_cli ops c1 = Some c' \<and> ncli c' = 0 \<and> eflags_IF c' = i"
    by (rule "3.IH") (use "3.prems" c1 in \<open>auto\<close>)
  with c1 show ?case by simp
qed

section \<open>Sleep locks (kernel/sleeplock.c), one process at a time\<close>

text \<open>
  The data of a sleep lock and the effect of its operations on it when one process runs: \<open>acquiresleep\<close> on
  a lock that is held would sleep, and nobody is there to wake the process up. The protocol with
  several processes is not part of this view.
\<close>

record sleeplock =
  slocked :: u32
  slk :: spinlock
  slname :: string
  slpid :: int

definition initsleeplock :: "string \<Rightarrow> sleeplock" where
  "initsleeplock nm = \<lparr>slocked = 0, slk = initlock ''sleep lock'', slname = nm, slpid = 0\<rparr>"

definition acquiresleep :: "int \<Rightarrow> sleeplock \<Rightarrow> sleeplock option" where
  "acquiresleep mypid lk = do {
     l \<leftarrow> acquire_lk (slk lk);
     (if slocked lk \<noteq> 0 then None else do {
       l \<leftarrow> release_lk l;
       Some (lk\<lparr>slocked := 1, slpid := mypid, slk := l\<rparr>) }) }"

definition releasesleep :: "sleeplock \<Rightarrow> sleeplock option" where
  "releasesleep lk = do {
     l \<leftarrow> acquire_lk (slk lk);
     l \<leftarrow> release_lk l;
     Some (lk\<lparr>slocked := 0, slpid := 0, slk := l\<rparr>) }"

definition holdingsleep :: "int \<Rightarrow> sleeplock \<Rightarrow> (bool \<times> sleeplock) option" where
  "holdingsleep mypid lk = do {
     l \<leftarrow> acquire_lk (slk lk);
     let r = (slocked lk \<noteq> 0 \<and> slpid lk = mypid);
     l \<leftarrow> release_lk l;
     Some (r, lk\<lparr>slk := l\<rparr>) }"

definition sl_free :: "sleeplock \<Rightarrow> bool" where
  "sl_free lk \<longleftrightarrow> slocked lk = 0 \<and> slpid lk = 0 \<and> lk_free (slk lk)"

definition sl_held :: "int \<Rightarrow> sleeplock \<Rightarrow> bool" where
  "sl_held p lk \<longleftrightarrow> slocked lk = 1 \<and> slpid lk = p \<and> lk_free (slk lk)"

lemma acquiresleep_free: "sl_free lk \<Longrightarrow> \<exists>lk'. acquiresleep p lk = Some lk' \<and> sl_held p lk' \<and> releasesleep lk' = Some lk"
  by (cases lk) (auto simp: acquiresleep_def releasesleep_def sl_free_def sl_held_def)

lemma acquiresleep_eq [simp]: "sl_free lk \<Longrightarrow> acquiresleep p lk = Some (lk\<lparr>slocked := 1, slpid := p\<rparr>)"
  by (cases lk) (simp add: acquiresleep_def sl_free_def)

lemma sl_held_acquired [simp]: "sl_free lk \<Longrightarrow> sl_held p (lk\<lparr>slocked := 1, slpid := p\<rparr>)"
  by (simp add: sl_free_def sl_held_def)

lemma acquiresleep_held: "sl_held p lk \<Longrightarrow> acquiresleep q lk = None"
  by (simp add: acquiresleep_def sl_held_def)

lemma releasesleep_eq [simp]: "sl_held p lk \<Longrightarrow> releasesleep lk = Some (lk\<lparr>slocked := 0, slpid := 0\<rparr>)"
  by (cases lk) (simp add: releasesleep_def sl_held_def)

lemma sl_free_released [simp]: "sl_held p lk \<Longrightarrow> sl_free (lk\<lparr>slocked := 0, slpid := 0\<rparr>)"
  by (simp add: sl_free_def sl_held_def)

lemma holdingsleep_eq [simp]:
  "sl_held p lk \<Longrightarrow> holdingsleep p lk = Some (True, lk)"
  "sl_free lk \<Longrightarrow> holdingsleep p lk = Some (False, lk)"
  by (cases lk; simp add: holdingsleep_def sl_held_def sl_free_def)+

lemma sl_held_not_free: "sl_held p lk \<Longrightarrow> \<not> sl_free lk"
  by (simp add: sl_held_def sl_free_def)

lemma sl_free_roundtrip [simp]:
  "sl_free lk \<Longrightarrow> lk\<lparr>slocked := 0, slpid := 0\<rparr> = lk"
  by (cases lk) (simp add: sl_free_def)

lemma initsleeplock_free [simp]: "sl_free (initsleeplock nm)"
  by (simp add: sl_free_def initsleeplock_def initlock_free)

end
