(* ===== verification/Xk_Layout.thy ===== *)
theory Xk_Layout
  imports Xk_Prelude
begin

text \<open>
  The on-disk format of \<open>inc/fs.h\<close> and \<open>inc/extent.h\<close>: superblock, disk inode, directory entry and commit
  block, with the byte layout the C compiler gives them (little endian, no padding between the members).
  The kernel reads and writes them by \<open>memmove\<close> between a buffer and the struct, which is
  \<open>dec_\<close> and \<open>enc_\<close> here; each pair is inverse. A buffer is a list of \<open>BSIZE\<close> bytes.
\<close>

section \<open>Integers in little endian order\<close>

definition le16 :: "u16 \<Rightarrow> u8 list" where
  "le16 w = [ucast w, ucast (drop_bit 8 w)]"

definition le32 :: "u32 \<Rightarrow> u8 list" where
  "le32 w = [ucast w, ucast (drop_bit 8 w), ucast (drop_bit 16 w), ucast (drop_bit 24 w)]"

definition get16 :: "u8 list \<Rightarrow> nat \<Rightarrow> u16" where
  "get16 bs i = ucast (bs ! i) OR push_bit 8 (ucast (bs ! (i + 1)))"

definition get32 :: "u8 list \<Rightarrow> nat \<Rightarrow> u32" where
  "get32 bs i = ucast (bs ! i) OR push_bit 8 (ucast (bs ! (i + 1))) OR
     push_bit 16 (ucast (bs ! (i + 2))) OR push_bit 24 (ucast (bs ! (i + 3)))"

text \<open>\<open>memmove(p + off, bs, length bs)\<close> and \<open>memmove(dst, p + off, n)\<close> on a buffer \<open>p\<close>.\<close>

definition put_at :: "'a list \<Rightarrow> nat \<Rightarrow> 'a list \<Rightarrow> 'a list" where
  "put_at xs off ys = take off xs @ ys @ drop (off + length ys) xs"

definition get_at :: "'a list \<Rightarrow> nat \<Rightarrow> nat \<Rightarrow> 'a list" where
  "get_at xs off n = take n (drop off xs)"

section \<open>The structs\<close>

definition BSIZE :: nat where "BSIZE = 512"
definition MAXEXTENT :: nat where "MAXEXTENT = 30"
definition LOGSIZE :: nat where "LOGSIZE = 30"
definition DIRSIZ :: nat where "DIRSIZ = 14"
definition BPB :: nat where "BPB = BSIZE * 8"
definition ROOTDEV :: u32 where "ROOTDEV = 1"
definition INODEFILEINO :: u32 where "INODEFILEINO = 0"
definition ROOTINO :: u32 where "ROOTINO = 1"

record superblock =
  sb_size :: u32
  sb_nblocks :: u32
  sb_logstart :: u32
  sb_bmapstart :: u32
  sb_inodestart :: u32

record extent =
  startblkno :: u32
  nblocks :: u32

record dinode =
  d_type :: int
  d_devid :: int
  d_size :: u32
  d_data :: "extent list"
  d_pad :: "u8 list"

record dirent =
  de_inum :: u16
  de_name :: "u8 list"

record commit_block =
  cb_size :: u32
  cb_flag :: u32
  cb_target :: "u32 list"
  cb_padding :: "u8 list"

definition sizeof_dinode :: nat where "sizeof_dinode = 256"
definition sizeof_dirent :: nat where "sizeof_dirent = 16"

definition INODEOFF :: "u32 \<Rightarrow> u32" where "INODEOFF inum = inum * 256"

definition dec_superblock :: "u8 list \<Rightarrow> superblock" where
  "dec_superblock bs = \<lparr>sb_size = get32 bs 0, sb_nblocks = get32 bs 4, sb_logstart = get32 bs 8,
     sb_bmapstart = get32 bs 12, sb_inodestart = get32 bs 16\<rparr>"

definition enc_superblock :: "superblock \<Rightarrow> u8 list" where
  "enc_superblock sb = le32 (sb_size sb) @ le32 (sb_nblocks sb) @ le32 (sb_logstart sb) @
     le32 (sb_bmapstart sb) @ le32 (sb_inodestart sb)"

definition enc_extent :: "extent \<Rightarrow> u8 list" where
  "enc_extent e = le32 (startblkno e) @ le32 (nblocks e)"

definition dec_extent :: "u8 list \<Rightarrow> nat \<Rightarrow> extent" where
  "dec_extent bs i = \<lparr>startblkno = get32 bs i, nblocks = get32 bs (i + 4)\<rparr>"

definition enc_dinode :: "dinode \<Rightarrow> u8 list" where
  "enc_dinode d = le16 (word_of_int (d_type d)) @ le16 (word_of_int (d_devid d)) @ le32 (d_size d) @
     concat (map enc_extent (d_data d)) @ d_pad d"

definition dec_dinode :: "u8 list \<Rightarrow> dinode" where
  "dec_dinode bs = \<lparr>d_type = sint (get16 bs 0), d_devid = sint (get16 bs 2), d_size = get32 bs 4,
     d_data = map (\<lambda>i. dec_extent bs (8 + 8 * i)) [0..<MAXEXTENT], d_pad = get_at bs 248 8\<rparr>"

definition enc_dirent :: "dirent \<Rightarrow> u8 list" where
  "enc_dirent d = le16 (de_inum d) @ de_name d"

definition dec_dirent :: "u8 list \<Rightarrow> dirent" where
  "dec_dirent bs = \<lparr>de_inum = get16 bs 0, de_name = get_at bs 2 DIRSIZ\<rparr>"

definition enc_commit :: "commit_block \<Rightarrow> u8 list" where
  "enc_commit c = le32 (cb_size c) @ le32 (cb_flag c) @ concat (map le32 (cb_target c)) @ cb_padding c"

definition dec_commit :: "u8 list \<Rightarrow> commit_block" where
  "dec_commit bs = \<lparr>cb_size = get32 bs 0, cb_flag = get32 bs 4,
     cb_target = map (\<lambda>i. get32 bs (8 + 4 * i)) [0..<LOGSIZE],
     cb_padding = get_at bs (8 + 4 * LOGSIZE) (BSIZE - 4 * (LOGSIZE + 2))\<rparr>"

lemmas layout_consts = BSIZE_def MAXEXTENT_def LOGSIZE_def DIRSIZ_def sizeof_dinode_def sizeof_dirent_def

section \<open>Decoding is the inverse of encoding\<close>

lemma length_le [simp]: "length (le16 h) = 2" "length (le32 w) = 4"
  by (simp_all add: le16_def le32_def)

lemma get16_le16: "get16 (le16 w @ xs) 0 = w"
  unfolding get16_def le16_def by (rule bit_word_eqI) (auto simp: bit_simps)

lemma get32_le32: "get32 (le32 w @ xs) 0 = w"
proof (rule bit_word_eqI)
  fix n assume n: "n < LENGTH(32)"
  then consider "n < 8" | "8 \<le> n \<and> n < 16" | "16 \<le> n \<and> n < 24" | "24 \<le> n \<and> n < 32" by force
  then show "bit (get32 (le32 w @ xs) 0) n = bit w n"
    by cases (auto simp: bit_simps get32_def le32_def)
qed

lemma get16_shift: "length ys \<le> i \<Longrightarrow> get16 (ys @ xs) i = get16 xs (i - length ys)"
  and get32_shift: "length ys \<le> i \<Longrightarrow> get32 (ys @ xs) i = get32 xs (i - length ys)"
  by (simp_all add: get16_def get32_def nth_append Suc_diff_le)

lemmas get_le = get16_le16 get32_le32 get16_le16 [of _ "[]", simplified] get32_le32 [of _ "[]", simplified]
  get16_shift get32_shift

lemma length_enc_extent [simp]: "length (enc_extent e) = 8"
  by (simp add: enc_extent_def)

lemma dec_extent_enc: "dec_extent (enc_extent e @ xs) 0 = e"
  by (simp add: dec_extent_def enc_extent_def get_le)

lemma dec_extent_shift: "length ys \<le> i \<Longrightarrow> dec_extent (ys @ xs) i = dec_extent xs (i - length ys)"
  by (simp add: dec_extent_def get32_shift)

lemma length_concat_const: "(\<And>x. x \<in> set xs \<Longrightarrow> length (f x) = k) \<Longrightarrow> length (concat (map f xs)) = k * length xs"
  by (induction xs) auto

text \<open>An array of elements of \<open>k\<close> bytes each, decoded element by element.\<close>

lemma array_roundtrip:
  assumes len: "\<And>x. length (f x) = k" and dec: "\<And>x ys. g (f x @ ys) 0 = x"
    and shift: "\<And>ys zs i. length ys \<le> i \<Longrightarrow> g (ys @ zs) i = g zs (i - length ys)"
  shows "map (\<lambda>i. g (concat (map f xs) @ zs) (k * i)) [0..<length xs] = xs"
proof (induction xs)
  case (Cons x xs)
  have "map (\<lambda>i. g (f x @ concat (map f xs) @ zs) (k * i)) [0..<Suc (length xs)] =
      g (f x @ concat (map f xs) @ zs) 0 # map (\<lambda>i. g (f x @ concat (map f xs) @ zs) (k * Suc i)) [0..<length xs]"
    by (simp add: upt_conv_Cons map_Suc_upt [symmetric] del: upt_Suc)
  also have "\<dots> = x # xs" by (simp add: dec shift len Cons)
  finally show ?case by simp
qed simp

definition dinode_ok :: "dinode \<Rightarrow> bool" where
  "dinode_ok d \<longleftrightarrow> d_type d \<in> {-(2^15)..<2^15} \<and> d_devid d \<in> {-(2^15)..<2^15} \<and>
     length (d_data d) = MAXEXTENT \<and> length (d_pad d) = 8"

lemma length_enc_dinode: "dinode_ok d \<Longrightarrow> length (enc_dinode d) = sizeof_dinode"
  by (simp add: enc_dinode_def dinode_ok_def length_concat_const [of _ _ 8] layout_consts)

lemma sint_word_of_int16: "x \<in> {-(2^15)..<2^15} \<Longrightarrow> sint (word_of_int x :: u16) = x"
  by (simp add: sint_sbintrunc' signed_take_bit_int_eq_self)

text \<open>
  What a kernel writes with \<open>write_dinode\<close> (a disk inode with 30 extents) it reads back unchanged with
  \<open>read_dinode\<close>, whatever follows it in the block.
\<close>

lemma dinode_rt:
  assumes "dinode_ok d"
  shows "dec_dinode (enc_dinode d @ rest) = d"
proof -
  have "length (concat (map enc_extent (d_data d))) = 240"
    using assms by (simp add: dinode_ok_def length_concat_const [of _ _ 8] layout_consts)
  moreover have "map (\<lambda>i. dec_extent (concat (map enc_extent (d_data d)) @ d_pad d @ rest) (8 * i))
      [0..<MAXEXTENT] = d_data d"
    using array_roundtrip [of enc_extent 8 dec_extent "d_data d" "d_pad d @ rest",
      OF length_enc_extent dec_extent_enc dec_extent_shift] assms by (simp add: dinode_ok_def)
  ultimately show ?thesis
    using assms by (simp add: dec_dinode_def enc_dinode_def get_le dec_extent_shift get_at_def
      dinode_ok_def sint_word_of_int16)
qed

definition commit_ok :: "commit_block \<Rightarrow> bool" where
  "commit_ok c \<longleftrightarrow> length (cb_target c) = LOGSIZE \<and> length (cb_padding c) = BSIZE - 4 * (LOGSIZE + 2)"

text \<open>The commit block read back from the log header is the one written there.\<close>

lemma commit_rt:
  assumes "commit_ok c"
  shows "dec_commit (enc_commit c) = c \<and> length (enc_commit c) = BSIZE"
proof -
  have l: "length (concat (map le32 (cb_target c))) = 120"
    using assms by (simp add: commit_ok_def length_concat_const [of _ _ 4] layout_consts)
  moreover have "map (\<lambda>i. get32 (concat (map le32 (cb_target c)) @ cb_padding c) (4 * i)) [0..<LOGSIZE] = cb_target c"
    using array_roundtrip [of le32 4 get32 "cb_target c" "cb_padding c", OF length_le(2) get32_le32 get32_shift]
      assms by (simp add: commit_ok_def)
  ultimately show ?thesis
    using assms by (simp add: dec_commit_def enc_commit_def get_le get_at_def commit_ok_def) (simp add: layout_consts)
qed

lemma dirent_rt: "length (de_name d) = DIRSIZ \<Longrightarrow> dec_dirent (enc_dirent d) = d"
  by (simp add: dec_dirent_def enc_dirent_def get_le get_at_def)

lemma superblock_rt: "dec_superblock (enc_superblock sb @ rest) = sb"
  by (simp add: dec_superblock_def enc_superblock_def get_le)

section \<open>Reading and writing inside a buffer\<close>

lemma length_put_at [simp]: "off + length ys \<le> length xs \<Longrightarrow> length (put_at xs off ys) = length xs"
  by (simp add: put_at_def)

lemma length_get_at [simp]: "off + n \<le> length xs \<Longrightarrow> length (get_at xs off n) = n"
  by (simp add: get_at_def)

lemma get_put_at [simp]: "off + length ys \<le> length xs \<Longrightarrow> get_at (put_at xs off ys) off (length ys) = ys"
  by (simp add: get_at_def put_at_def)

lemma nth_put_at:
  "off + length ys \<le> length xs \<Longrightarrow> i < length xs \<Longrightarrow>
   put_at xs off ys ! i = (if off \<le> i \<and> i < off + length ys then ys ! (i - off) else xs ! i)"
  by (auto simp: put_at_def nth_append min_def)

lemma nth_get_at: "i < n \<Longrightarrow> off + n \<le> length xs \<Longrightarrow> get_at xs off n ! i = xs ! (off + i)"
  by (simp add: get_at_def)

end
