(* ===== verification/Xk_Bio.thy ===== *)
theory Xk_Bio
  imports Xk_Locks Xk_Layout
begin

text \<open>
  The buffer cache, \<open>kernel/bio.c\<close>, over the memory disk of \<open>kernel/memide.c\<close> (the disk of the
  kernel \<open>xk_memfs\<close>; the kernel \<open>xk\<close> has the driver of \<open>kernel/ide.c\<close> in its place). The cache is the C one: \<open>NBUF\<close> buffers and the list head, chained through \<open>prev\<close> and \<open>next\<close>.
  A \<open>struct buf *\<close> is an index, the list head \<open>bcache.head\<close> is index \<open>NBUF\<close>. The operations
  that take a process argument need it for the sleep lock of the buffer. \<open>reboot()\<close> (the crash the
  test harness injects through \<open>crashn\<close>) does not return.

  Shown: the pointer ring is a list in order of last use and every operation keeps it so; \<open>bread\<close> returns
  the current contents of the block, recycling the least recently released clean buffer; \<open>bwrite\<close> puts the buffer on disk.
\<close>

section \<open>State\<close>

record buf =
  b_flags :: u32
  b_dev :: u32
  b_blockno :: u32
  b_lock :: sleeplock
  b_refcnt :: u32
  b_prev :: nat
  b_next :: nat
  b_data :: "u8 list"

definition B_VALID :: u32 where "B_VALID = 2"
definition B_DIRTY :: u32 where "B_DIRTY = 4"

definition NBUF :: nat where "NBUF = 30"

abbreviation HEAD :: nat where "HEAD \<equiv> NBUF"

record bcache =
  bc_lock :: spinlock
  bufs :: "buf list"
  disk :: "u8 list list"
  crashn_enable :: int
  crashn :: int
  num_disk_reads :: int

definition upd_buf :: "nat \<Rightarrow> (buf \<Rightarrow> buf) \<Rightarrow> bcache \<Rightarrow> bcache" where
  "upd_buf i f s = s\<lparr>bufs := (bufs s)[i := f (bufs s ! i)]\<rparr>"

abbreviation bufp :: "bcache \<Rightarrow> nat \<Rightarrow> buf" where "bufp s i \<equiv> bufs s ! i"

definition valid :: "buf \<Rightarrow> bool" where "valid b \<longleftrightarrow> b_flags b AND B_VALID \<noteq> 0"
definition dirty :: "buf \<Rightarrow> bool" where "dirty b \<longleftrightarrow> b_flags b AND B_DIRTY \<noteq> 0"

section \<open>The memory disk (kernel/memide.c)\<close>

definition ideinit :: "u8 list \<Rightarrow> bcache \<Rightarrow> bcache" where
  "ideinit img s = s\<lparr>disk := map (\<lambda>i. get_at img (i * BSIZE) BSIZE) [0..<length img div BSIZE]\<rparr>"

definition iderw :: "int \<Rightarrow> nat \<Rightarrow> bcache \<Rightarrow> bcache option" where
  "iderw mypid b s = do {
     (h, lk) \<leftarrow> holdingsleep mypid (b_lock (bufp s b));
     let s = upd_buf b (b_lock_update (\<lambda>_. lk)) s;
     (if \<not> h then None
      else if valid (bufp s b) \<and> \<not> dirty (bufp s b) then None
      else if b_dev (bufp s b) \<noteq> 1 then None
      else if unat (b_blockno (bufp s b)) \<ge> length (disk s) then None
      else
        let p = unat (b_blockno (bufp s b));
            s = (if dirty (bufp s b)
                 then (upd_buf b (b_flags_update (\<lambda>f. f AND NOT B_DIRTY)) s)\<lparr>disk := (disk s)[p := b_data (bufp s b)]\<rparr>
                 else upd_buf b (b_data_update (\<lambda>_. disk s ! p)) s)
        in Some (upd_buf b (b_flags_update (\<lambda>f. f OR B_VALID)) s)) }"

section \<open>The cache (kernel/bio.c)\<close>

definition binit_step :: "nat \<Rightarrow> bcache \<Rightarrow> bcache" where
  "binit_step b s =
     (let s = upd_buf b (b_next_update (\<lambda>_. b_next (bufp s HEAD))) s;
          s = upd_buf b (b_prev_update (\<lambda>_. HEAD)) s;
          s = upd_buf b (b_lock_update (\<lambda>_. initsleeplock ''buffer'')) s;
          s = upd_buf (b_next (bufp s HEAD)) (b_prev_update (\<lambda>_. b)) s
      in upd_buf HEAD (b_next_update (\<lambda>_. b)) s)"

definition binit :: "bcache \<Rightarrow> bcache" where
  "binit s =
     (let s = s\<lparr>bc_lock := initlock ''bcache''\<rparr>;
          s = upd_buf HEAD (b_prev_update (\<lambda>_. HEAD)) s;
          s = upd_buf HEAD (b_next_update (\<lambda>_. HEAD)) s
      in fold binit_step [0..<NBUF] s)"

text \<open>The two loops of \<open>bget\<close>: along \<open>next\<close> and along \<open>prev\<close> until the head comes back.\<close>

partial_function (option) scan_next :: "(buf \<Rightarrow> bool) \<Rightarrow> buf list \<Rightarrow> nat \<Rightarrow> nat option option" where
  "scan_next P bs b =
     (if b = HEAD then Some None
      else if P (bs ! b) then Some (Some b)
      else scan_next P bs (b_next (bs ! b)))"

partial_function (option) scan_prev :: "(buf \<Rightarrow> bool) \<Rightarrow> buf list \<Rightarrow> nat \<Rightarrow> nat option option" where
  "scan_prev P bs b =
     (if b = HEAD then Some None
      else if P (bs ! b) then Some (Some b)
      else scan_prev P bs (b_prev (bs ! b)))"

definition acquire_bc :: "bcache \<Rightarrow> bcache option" where
  "acquire_bc s = do { l \<leftarrow> acquire_lk (bc_lock s); Some (s\<lparr>bc_lock := l\<rparr>) }"

definition release_bc :: "bcache \<Rightarrow> bcache option" where
  "release_bc s = do { l \<leftarrow> release_lk (bc_lock s); Some (s\<lparr>bc_lock := l\<rparr>) }"

definition lock_buf :: "int \<Rightarrow> nat \<Rightarrow> bcache \<Rightarrow> bcache option" where
  "lock_buf mypid b s = do {
     lk \<leftarrow> acquiresleep mypid (b_lock (bufp s b));
     Some (upd_buf b (b_lock_update (\<lambda>_. lk)) s) }"

definition same_block :: "u32 \<Rightarrow> u32 \<Rightarrow> buf \<Rightarrow> bool" where
  "same_block dev blockno b \<longleftrightarrow> b_dev b = dev \<and> b_blockno b = blockno"

definition recyclable :: "buf \<Rightarrow> bool" where
  "recyclable b \<longleftrightarrow> b_refcnt b = 0 \<and> b_flags b AND B_DIRTY = 0"

definition recycle :: "u32 \<Rightarrow> u32 \<Rightarrow> buf \<Rightarrow> buf" where
  "recycle dev blockno b = b\<lparr>b_dev := dev, b_blockno := blockno, b_flags := 0, b_refcnt := 1\<rparr>"

definition bget :: "int \<Rightarrow> u32 \<Rightarrow> u32 \<Rightarrow> bcache \<Rightarrow> (nat \<times> bcache) option" where
  "bget mypid dev blockno s = do {
     s \<leftarrow> acquire_bc s;
     hit \<leftarrow> scan_next (same_block dev blockno) (bufs s) (b_next (bufp s HEAD));
     case hit of
       Some b \<Rightarrow> do {
         let s = upd_buf b (b_refcnt_update (\<lambda>r. r + 1)) s;
         s \<leftarrow> release_bc s;
         s \<leftarrow> lock_buf mypid b s;
         Some (b, s) }
     | None \<Rightarrow> do {
         victim \<leftarrow> scan_prev recyclable (bufs s) (b_prev (bufp s HEAD));
         case victim of
           Some b \<Rightarrow> do {
             let s = upd_buf b (recycle dev blockno) s;
             s \<leftarrow> release_bc s;
             s \<leftarrow> lock_buf mypid b s;
             Some (b, s) }
         | None \<Rightarrow> None } }"

definition bread :: "int \<Rightarrow> u32 \<Rightarrow> u32 \<Rightarrow> bcache \<Rightarrow> (nat \<times> bcache) option" where
  "bread mypid dev blockno s = do {
     let s = s\<lparr>num_disk_reads := c_int (num_disk_reads s + 1)\<rparr>;
     (b, s) \<leftarrow> bget mypid dev blockno s;
     s \<leftarrow> (if \<not> valid (bufp s b) then iderw mypid b s else Some s);
     Some (b, s) }"

definition bwrite :: "int \<Rightarrow> nat \<Rightarrow> bcache \<Rightarrow> bcache option" where
  "bwrite mypid b s = do {
     s \<leftarrow> (if crashn_enable s \<noteq> 0
           then let s = s\<lparr>crashn := c_int (crashn s - 1)\<rparr> in if crashn s < 0 then None else Some s
           else Some s);
     (h, lk) \<leftarrow> holdingsleep mypid (b_lock (bufp s b));
     let s = upd_buf b (b_lock_update (\<lambda>_. lk)) s;
     (if \<not> h then None
      else iderw mypid b (upd_buf b (b_flags_update (\<lambda>f. f OR B_DIRTY)) s)) }"

definition to_front :: "nat \<Rightarrow> bcache \<Rightarrow> bcache" where
  "to_front b s =
     (let s = upd_buf (b_next (bufp s b)) (b_prev_update (\<lambda>_. b_prev (bufp s b))) s;
          s = upd_buf (b_prev (bufp s b)) (b_next_update (\<lambda>_. b_next (bufp s b))) s;
          s = upd_buf b (b_next_update (\<lambda>_. b_next (bufp s HEAD))) s;
          s = upd_buf b (b_prev_update (\<lambda>_. HEAD)) s;
          s = upd_buf (b_next (bufp s HEAD)) (b_prev_update (\<lambda>_. b)) s
      in upd_buf HEAD (b_next_update (\<lambda>_. b)) s)"

definition brelse :: "int \<Rightarrow> nat \<Rightarrow> bcache \<Rightarrow> bcache option" where
  "brelse mypid b s = do {
     (h, lk) \<leftarrow> holdingsleep mypid (b_lock (bufp s b));
     let s = upd_buf b (b_lock_update (\<lambda>_. lk)) s;
     (if \<not> h then None else do {
       lk \<leftarrow> releasesleep (b_lock (bufp s b));
       let s = upd_buf b (b_lock_update (\<lambda>_. lk)) s;
       s \<leftarrow> acquire_bc s;
       let s = upd_buf b (b_refcnt_update (\<lambda>r. r - 1)) s;
       let s = (if b_refcnt (bufp s b) = 0 then to_front b s else s);
       release_bc s }) }"

section \<open>The pointer ring\<close>

text \<open>\<open>links nx pv c\<close>: the nodes of \<open>c\<close> follow one another through \<open>next\<close> and, backwards, through \<open>prev\<close>.\<close>

fun links :: "(nat \<Rightarrow> nat) \<Rightarrow> (nat \<Rightarrow> nat) \<Rightarrow> nat list \<Rightarrow> bool" where
  "links nx pv (a # b # r) \<longleftrightarrow> nx a = b \<and> pv b = a \<and> links nx pv (b # r)"
| "links nx pv _ \<longleftrightarrow> True"

abbreviation nexts :: "buf list \<Rightarrow> nat \<Rightarrow> nat" where "nexts bs \<equiv> \<lambda>x. b_next (bs ! x)"
abbreviation prevs :: "buf list \<Rightarrow> nat \<Rightarrow> nat" where "prevs bs \<equiv> \<lambda>x. b_prev (bs ! x)"

text \<open>The ring of a cache in its abstract form: the buffers from the most to the least recently released.\<close>

definition ring :: "buf list \<Rightarrow> nat list \<Rightarrow> bool" where
  "ring bs xs \<longleftrightarrow> distinct xs \<and> set xs = {..<NBUF} \<and> length bs = Suc NBUF \<and>
     links (nexts bs) (prevs bs) (HEAD # xs @ [HEAD])"

lemma links_append: "links nx pv (us @ p # ws) \<longleftrightarrow> links nx pv (us @ [p]) \<and> links nx pv (p # ws)"
  by (induction us rule: induct_list012) (cases ws, auto)

lemma links_cong:
  "(\<And>a. a \<in> set (butlast c) \<Longrightarrow> nx' a = nx a) \<Longrightarrow> (\<And>a. a \<in> set (tl c) \<Longrightarrow> pv' a = pv a) \<Longrightarrow>
   links nx' pv' c = links nx pv c"
  by (induction nx pv c rule: links.induct) auto

lemma links_unlink:
  assumes "links nx pv (us @ p # b # q # ws)" "p \<notin> set (butlast (q # ws))" "q \<notin> set (tl (us @ [p]))"
    "p \<notin> set us" "q \<notin> set ws"
  shows "links (nx(p := q)) (pv(q := p)) (us @ p # q # ws)"
proof -
  have a: "links nx pv (us @ [p])" "links nx pv (q # ws)"
    using assms(1) links_append [of nx pv us p "b # q # ws"] by auto
  have "links (nx(p := q)) (pv(q := p)) (us @ [p]) = links nx pv (us @ [p])"
    by (rule links_cong) (use assms in \<open>auto split: if_splits\<close>)
  moreover have "links (nx(p := q)) (pv(q := p)) (q # ws) = links nx pv (q # ws)"
    by (rule links_cong) (use assms in \<open>auto split: if_splits\<close>)
  ultimately show ?thesis
    using a links_append [of "nx(p := q)" "pv(q := p)" us p "q # ws"] by simp
qed

lemma links_insert:
  assumes "links nx pv (h # f # r)" "b \<notin> set (f # r)" "b \<noteq> h" "h \<notin> set (butlast (f # r))" "f \<notin> set r"
  shows "links (nx(b := f, h := b)) (pv(b := h, f := b)) (h # b # f # r)"
proof -
  have "links (nx(b := f, h := b)) (pv(b := h, f := b)) (f # r) = links nx pv (f # r)"
    by (rule links_cong) (use assms in \<open>auto dest: in_set_butlastD split: if_splits\<close>)
  with assms show ?thesis by auto
qed

text \<open>Taking \<open>b\<close> out of the ring \<open>h # ys @ b # zs @ [h]\<close> and putting it back behind \<open>h\<close>.\<close>

lemma chain_parts:
  assumes "us @ [p] = h # ys" "q # ws = zs @ [h]" "distinct (h # ys @ zs)"
  shows "p \<notin> set (butlast (q # ws))" "q \<notin> set (tl (us @ [p]))" "p \<notin> set us" "q \<notin> set ws"
    "us @ p # q # ws = h # ys @ zs @ [h]"
proof -
  have p: "p = h \<or> p \<in> set ys" using arg_cong [OF assms(1), of "\<lambda>l. p \<in> set l"] by simp
  have q: "q = h \<or> q \<in> set zs" using arg_cong [OF assms(2), of "\<lambda>l. q \<in> set l"] by simp
  show "p \<notin> set (butlast (q # ws))" unfolding assms(2) using p assms(3) by auto
  show "q \<notin> set (tl (us @ [p]))" unfolding assms(1) using q assms(3) by auto
  have "distinct (us @ [p])" unfolding assms(1) using assms(3) by simp
  then show "p \<notin> set us" by simp
  have "distinct (q # ws)" unfolding assms(2) using assms(3) by simp
  then show "q \<notin> set ws" by simp
  have "us @ p # q # ws = (us @ [p]) @ (q # ws)" by simp
  then show "us @ p # q # ws = h # ys @ zs @ [h]" unfolding assms(1,2) by simp
qed

lemma links_to_front:
  assumes "links nx pv (h # ys @ b # zs @ [h])" "distinct (h # ys @ b # zs)"
  defines "p \<equiv> pv b" and "q \<equiv> nx b"
  defines "nx1 \<equiv> nx(p := q)" and "pv1 \<equiv> pv(q := p)"
  shows "links (nx1(b := nx1 h, h := b)) (pv1(b := h, nx1 h := b)) (h # b # ys @ zs @ [h])"
proof -
  obtain us p' where us: "us @ [p'] = h # ys" by (metis list.distinct(1) rev_exhaust)
  obtain q' ws where ws: "q' # ws = zs @ [h]" by (cases "zs @ [h]") auto
  have "links nx pv ((us @ [p']) @ b # (q' # ws))" unfolding us ws using assms(1) by simp
  then have chain: "links nx pv (us @ p' # b # q' # ws)" by simp
  then have pq: "p' = p" "q' = q"
    using links_append [of nx pv us p' "b # q' # ws"] by (simp_all add: p_def q_def)
  have d: "distinct (h # ys @ zs)" using assms(2) by auto
  note parts = chain_parts [OF us ws d, unfolded pq]
  have one: "links nx1 pv1 (h # ys @ zs @ [h])"
    using links_unlink [OF chain [unfolded pq] parts(1-4)] unfolding nx1_def pv1_def parts(5) .
  obtain f r where fr: "f # r = ys @ zs @ [h]" by (cases "ys @ zs @ [h]") auto
  have d2: "distinct (f # r)" "h \<notin> set (butlast (f # r))" "b \<notin> set (f # r)"
    unfolding fr using assms(2) by (auto simp: butlast_append)
  have two: "links nx1 pv1 (h # f # r)" unfolding fr using one .
  then have f: "nx1 h = f" by simp
  have "b \<noteq> h" "f \<notin> set r" using assms(2) d2 by auto
  from links_insert [OF two d2(3) this(1) d2(2) this(2)] show ?thesis unfolding f fr .
qed

text \<open>The links of a chain that only other nodes' updates touch, read through the buffer array.\<close>

definition core :: "buf \<Rightarrow> buf" where "core b = b\<lparr>b_prev := 0, b_next := 0\<rparr>"

lemma core_fields:
  assumes "core b = core c"
  shows "b_flags b = b_flags c" "b_dev b = b_dev c" "b_blockno b = b_blockno c" "b_lock b = b_lock c"
    "b_refcnt b = b_refcnt c" "b_data b = b_data c" "valid b = valid c" "dirty b = dirty c"
  using assms by (cases b; cases c; simp add: core_def valid_def dirty_def)+

lemma upd_buf_simps [simp]:
  "bc_lock (upd_buf i f s) = bc_lock s" "disk (upd_buf i f s) = disk s"
  "crashn_enable (upd_buf i f s) = crashn_enable s" "crashn (upd_buf i f s) = crashn s"
  "num_disk_reads (upd_buf i f s) = num_disk_reads s"
  "length (bufs (upd_buf i f s)) = length (bufs s)"
  by (simp_all add: upd_buf_def)

lemma bufp_upd: "bufp (upd_buf i f s) x = (if i = x \<and> x < length (bufs s) then f (bufp s x) else bufp s x)"
  by (simp add: upd_buf_def nth_upd)

lemma to_front_frame [simp]:
  "bc_lock (to_front i s) = bc_lock s" "disk (to_front i s) = disk s"
  "crashn_enable (to_front i s) = crashn_enable s" "crashn (to_front i s) = crashn s"
  "num_disk_reads (to_front i s) = num_disk_reads s" "length (bufs (to_front i s)) = length (bufs s)"
  by (simp_all add: to_front_def Let_def)

lemma core_update [simp]: "core (b_prev_update f b) = core b" "core (b_next_update f b) = core b"
  by (simp_all add: core_def)

lemma core_upd: "(\<And>b. core (f b) = core b) \<Longrightarrow> core (bufp (upd_buf i f s) x) = core (bufp s x)"
  by (simp add: bufp_upd)

lemma to_front_core [simp]: "core (bufp (to_front i s) x) = core (bufp s x)"
  by (simp add: to_front_def Let_def core_upd)

lemma links_upd:
  "nexts (bufs (upd_buf i (b_prev_update g) s)) = nexts (bufs s)"
  "prevs (bufs (upd_buf i (b_next_update g) s)) = prevs (bufs s)"
  "i < length (bufs s) \<Longrightarrow> prevs (bufs (upd_buf i (b_prev_update (\<lambda>_. v)) s)) = (prevs (bufs s))(i := v)"
  "i < length (bufs s) \<Longrightarrow> nexts (bufs (upd_buf i (b_next_update (\<lambda>_. v)) s)) = (nexts (bufs s))(i := v)"
  by (auto simp: fun_eq_iff bufp_upd)

lemma to_front_links:
  fixes s b
  defines "p \<equiv> b_prev (bufp s b)" and "q \<equiv> b_next (bufp s b)"
  defines "nx1 \<equiv> (nexts (bufs s))(p := q)" and "pv1 \<equiv> (prevs (bufs s))(q := p)"
  assumes l: "p < length (bufs s)" "q < length (bufs s)" "b < length (bufs s)" "HEAD < length (bufs s)"
    "nx1 HEAD < length (bufs s)" and d: "p \<noteq> b" "q \<noteq> b" "b \<noteq> HEAD"
  shows "nexts (bufs (to_front b s)) = nx1(b := nx1 HEAD, HEAD := b)"
    and "prevs (bufs (to_front b s)) = pv1(b := HEAD, nx1 HEAD := b)"
proof -
  define s1 where "s1 = upd_buf q (b_prev_update (\<lambda>_. p)) s"
  have s1: "nexts (bufs s1) = nexts (bufs s)" "prevs (bufs s1) = pv1" "length (bufs s1) = length (bufs s)"
    using l by (simp_all add: s1_def pv1_def links_upd)
  have pq: "b_prev (bufp s1 b) = p" "b_next (bufp s1 b) = q"
    using fun_cong [OF s1(1), of b] fun_cong [OF s1(2), of b] d by (simp_all add: p_def q_def pv1_def)
  define s2 where "s2 = upd_buf p (b_next_update (\<lambda>_. q)) s1"
  have s2: "nexts (bufs s2) = nx1" "prevs (bufs s2) = pv1" "length (bufs s2) = length (bufs s)"
    unfolding s2_def using l by (simp_all only: s1 links_upd upd_buf_simps) (simp add: nx1_def)
  have f: "b_next (bufp s2 HEAD) = nx1 HEAD" using fun_cong [OF s2(1), of HEAD] .
  define s4 where "s4 = upd_buf b (b_prev_update (\<lambda>_. HEAD)) (upd_buf b (b_next_update (\<lambda>_. nx1 HEAD)) s2)"
  have s4: "nexts (bufs s4) = nx1(b := nx1 HEAD)" "prevs (bufs s4) = pv1(b := HEAD)" "length (bufs s4) = length (bufs s)"
    unfolding s4_def using l by (simp_all only: s2 links_upd upd_buf_simps)
  have f4: "b_next (bufp s4 HEAD) = nx1 HEAD" using fun_cong [OF s4(1), of HEAD] d by simp
  have eq: "to_front b s = upd_buf HEAD (b_next_update (\<lambda>_. b)) (upd_buf (nx1 HEAD) (b_prev_update (\<lambda>_. b)) s4)"
    unfolding to_front_def Let_def p_def [symmetric] q_def [symmetric] s1_def [symmetric] pq
      s2_def [symmetric] f s4_def [symmetric] f4 ..
  show "nexts (bufs (to_front b s)) = nx1(b := nx1 HEAD, HEAD := b)"
    "prevs (bufs (to_front b s)) = pv1(b := HEAD, nx1 HEAD := b)"
    unfolding eq using l by (simp_all only: s4 links_upd upd_buf_simps)
qed

lemma ring_less: "ring bs xs \<Longrightarrow> x \<in> set xs \<Longrightarrow> x < NBUF"
  by (auto simp: ring_def)

lemma ring_HEAD [simp]: "ring bs xs \<Longrightarrow> HEAD \<notin> set xs"
  by (auto simp: ring_def)

text \<open>\<open>brelse\<close> moves the buffer to the front of the order of use.\<close>

lemma links_neighbours:
  "links nx pv (us @ a # b # c # ws) \<Longrightarrow> nx b = c \<and> pv b = a"
  by (subst (asm) links_append) simp

lemma to_front_ring:
  assumes r: "ring (bufs s) xs" and b: "b < NBUF"
  shows "ring (bufs (to_front b s)) (b # remove1 b xs)"
proof -
  from r b have "b \<in> set xs" by (simp add: ring_def)
  then obtain ys zs where xs: "xs = ys @ b # zs" by (meson split_list)
  have d: "distinct (HEAD # ys @ b # zs)" and set_xs: "set (ys @ b # zs) = {..<NBUF}"
    and len: "length (bufs s) = Suc NBUF"
    using r ring_HEAD [OF r] by (auto simp: ring_def xs)
  have l: "links (nexts (bufs s)) (prevs (bufs s)) (HEAD # ys @ b # zs @ [HEAD])"
    using r by (simp add: ring_def xs)
  obtain us p where us: "us @ [p] = HEAD # ys" by (metis list.distinct(1) rev_exhaust)
  obtain q ws where ws: "q # ws = zs @ [HEAD]" by (cases "zs @ [HEAD]") auto
  have "links (nexts (bufs s)) (prevs (bufs s)) ((us @ [p]) @ b # (q # ws))"
    unfolding us ws using l by simp
  then have pq: "b_prev (bufp s b) = p" "b_next (bufp s b) = q"
    using links_neighbours [of "nexts (bufs s)" "prevs (bufs s)" us p b q ws] by simp_all
  have p: "p = HEAD \<or> p \<in> set ys" using arg_cong [OF us, of "\<lambda>l. p \<in> set l"] by simp
  have q: "q = HEAD \<or> q \<in> set zs" using arg_cong [OF ws, of "\<lambda>l. q \<in> set l"] by simp
  have lt: "\<forall>x \<in> set (ys @ b # zs). x < NBUF" using set_xs by blast
  let ?nx1 = "(nexts (bufs s))(p := q)"
  have f: "b_next (bufp s HEAD) \<in> set (ys @ [b])"
    using l by (cases ys) auto
  have "p \<le> NBUF" "q \<le> NBUF" "b_next (bufp s HEAD) < NBUF" "p \<noteq> b" "q \<noteq> b"
    using p q lt f d b by (auto intro: less_imp_le)
  then have c: "p < length (bufs s)" "q < length (bufs s)" "b < length (bufs s)" "HEAD < length (bufs s)"
    "?nx1 HEAD < length (bufs s)" "p \<noteq> b" "q \<noteq> b" "b \<noteq> HEAD"
    using b by (simp_all add: len)
  show ?thesis
    unfolding ring_def
    using links_to_front [OF l d] to_front_links [of s b, unfolded pq, OF c] d set_xs len
    by (auto simp: xs pq remove1_append)
qed

lemma binit_step_frame [simp]: "length (bufs (binit_step b s)) = length (bufs s)"
  "bc_lock (binit_step b s) = bc_lock s" "disk (binit_step b s) = disk s"
  by (simp_all add: binit_step_def Let_def)

lemma links_upd_lock [simp]:
  "nexts (bufs (upd_buf i (b_lock_update g) s)) = nexts (bufs s)"
  "prevs (bufs (upd_buf i (b_lock_update g) s)) = prevs (bufs s)"
  by (simp_all add: fun_eq_iff bufp_upd)

lemma binit_step_links:
  assumes "b < NBUF" "length (bufs s) = Suc NBUF" "b_next (bufp s HEAD) \<le> NBUF"
  shows "nexts (bufs (binit_step b s)) = (nexts (bufs s))(b := b_next (bufp s HEAD), HEAD := b)"
    "prevs (bufs (binit_step b s)) = (prevs (bufs s))(b := HEAD, b_next (bufp s HEAD) := b)"
proof -
  define f where "f = b_next (bufp s HEAD)"
  define s3 where "s3 = upd_buf b (b_lock_update (\<lambda>_. initsleeplock ''buffer''))
    (upd_buf b (b_prev_update (\<lambda>_. HEAD)) (upd_buf b (b_next_update (\<lambda>_. f)) s))"
  have s3: "nexts (bufs s3) = (nexts (bufs s))(b := f)" "prevs (bufs s3) = (prevs (bufs s))(b := HEAD)"
    "length (bufs s3) = Suc NBUF"
    unfolding s3_def using assms by (simp_all only: links_upd_lock links_upd upd_buf_simps less_Suc_eq simp_thms)
  have f3: "b_next (bufp s3 HEAD) = f" using fun_cong [OF s3(1), of HEAD] assms(1) by (simp add: f_def)
  have eq: "binit_step b s = upd_buf HEAD (b_next_update (\<lambda>_. b)) (upd_buf f (b_prev_update (\<lambda>_. b)) s3)"
    unfolding binit_step_def Let_def f_def [symmetric] s3_def [symmetric] f3 ..
  show "nexts (bufs (binit_step b s)) = (nexts (bufs s))(b := b_next (bufp s HEAD), HEAD := b)"
    "prevs (bufs (binit_step b s)) = (prevs (bufs s))(b := HEAD, b_next (bufp s HEAD) := b)"
    unfolding eq f_def [symmetric] using assms(3) [folded f_def]
    by (simp_all only: s3 links_upd upd_buf_simps less_Suc_eq_le order_refl)
qed

text \<open>\<open>scan_next\<close> and \<open>scan_prev\<close> return on a well-formed ring, with the first match in list order.\<close>

lemma scan_next_links:
  "links (nexts bs) (prevs bs) (a # xs @ [HEAD]) \<Longrightarrow> HEAD \<notin> set xs \<Longrightarrow>
   scan_next P bs (b_next (bs ! a)) = Some (find (\<lambda>i. P (bs ! i)) xs)"
proof (induction xs arbitrary: a)
  case (Cons x xs)
  then show ?case by (subst scan_next.simps) auto
qed (simp add: scan_next.simps)

lemma scan_prev_links:
  "links (nexts bs) (prevs bs) (HEAD # xs @ [a]) \<Longrightarrow> HEAD \<notin> set xs \<Longrightarrow>
   scan_prev P bs (b_prev (bs ! a)) = Some (find (\<lambda>i. P (bs ! i)) (rev xs))"
proof (induction xs arbitrary: a rule: rev_induct)
  case (snoc x xs)
  have "links (nexts bs) (prevs bs) ((HEAD # xs) @ x # [a])" using snoc.prems(1) by simp
  then have "links (nexts bs) (prevs bs) (HEAD # xs @ [x])" "b_prev (bs ! a) = x"
    by (subst (asm) links_append; simp)+
  with snoc show ?case by (subst scan_prev.simps) auto
qed (simp add: scan_prev.simps)

lemma scan_ring:
  assumes "ring bs xs"
  shows "scan_next P bs (b_next (bs ! HEAD)) = Some (find (\<lambda>i. P (bs ! i)) xs)"
    "scan_prev P bs (b_prev (bs ! HEAD)) = Some (find (\<lambda>i. P (bs ! i)) (rev xs))"
  using scan_next_links [of bs HEAD xs P] scan_prev_links [of bs xs HEAD P] assms ring_HEAD [OF assms]
  by (simp_all add: ring_def)

text \<open>After \<open>binit\<close> the ring holds every buffer, the last one initialised in front.\<close>

lemma binit_fold:
  assumes "k \<le> NBUF" "length (bufs s) = Suc NBUF" "nexts (bufs s) HEAD = HEAD" "prevs (bufs s) HEAD = HEAD"
  shows "links (nexts (bufs (fold binit_step [0..<k] s))) (prevs (bufs (fold binit_step [0..<k] s)))
      (HEAD # rev [0..<k] @ [HEAD]) \<and> length (bufs (fold binit_step [0..<k] s)) = Suc NBUF"
  using assms(1)
proof (induction k)
  case (Suc k)
  let ?s = "fold binit_step [0..<k] s"
  have IH: "links (nexts (bufs ?s)) (prevs (bufs ?s)) (HEAD # rev [0..<k] @ [HEAD])" "length (bufs ?s) = Suc NBUF"
    using Suc by auto
  obtain f r where fr: "f # r = rev [0..<k] @ [HEAD]" by (cases "rev [0..<k] @ [HEAD]") auto
  have l: "links (nexts (bufs ?s)) (prevs (bufs ?s)) (HEAD # f # r)" unfolding fr using IH(1) .
  then have f: "b_next (bufp ?s HEAD) = f" by simp
  have mem: "x < k \<or> x = HEAD" if "x \<in> set (f # r)" for x using that unfolding fr by auto
  have side: "k \<notin> set (f # r)" "k \<noteq> HEAD" "f \<le> NBUF" using Suc.prems mem [of k] mem [of f, OF list.set_intros(1)] by linarith+
  have d: "distinct (f # r)" "HEAD \<notin> set (butlast (f # r))" unfolding fr using Suc.prems by auto
  have "k < NBUF" "b_next (bufp ?s HEAD) \<le> NBUF" using Suc.prems side(3) f by simp_all
  note eqs = binit_step_links [OF this(1) IH(2) this(2)]
  have "links (nexts (bufs (binit_step k ?s))) (prevs (bufs (binit_step k ?s))) (HEAD # k # f # r)"
    using links_insert [OF l side(1,2) d(2)] d(1) unfolding eqs f by simp
  then show ?case using IH(2) by (simp add: fr)
qed (use assms in simp)

lemma binit_ring:
  assumes "length (bufs s) = Suc NBUF"
  shows "ring (bufs (binit s)) (rev [0..<NBUF])"
proof -
  let ?s = "upd_buf HEAD (b_next_update (\<lambda>_. HEAD)) (upd_buf HEAD (b_prev_update (\<lambda>_. HEAD))
    (s\<lparr>bc_lock := initlock ''bcache''\<rparr>))"
  have "nexts (bufs ?s) HEAD = HEAD" "prevs (bufs ?s) HEAD = HEAD" "length (bufs ?s) = Suc NBUF"
    using assms by (simp_all add: bufp_upd)
  from binit_fold [OF order_refl this(3) this(1,2)] show ?thesis
    by (auto simp: ring_def binit_def Let_def)
qed

section \<open>Invariant and the contents of a block\<close>

definition held :: "int \<Rightarrow> buf \<Rightarrow> bool" where
  "held p b \<longleftrightarrow> b_refcnt b = 1 \<and> sl_held p (b_lock b)"

definition idle :: "buf \<Rightarrow> bool" where
  "idle b \<longleftrightarrow> b_refcnt b = 0 \<and> sl_free (b_lock b)"

definition buf_ok :: "int \<Rightarrow> nat \<Rightarrow> buf \<Rightarrow> bool" where
  "buf_ok p n b \<longleftrightarrow> (idle b \<or> held p b) \<and> length (b_data b) = BSIZE \<and>
     (b_dev b = 0 \<or> b_dev b = ROOTDEV \<and> valid b \<and> unat (b_blockno b) < n)"

text \<open>
  The state of the cache as process \<open>p\<close> sees it when nobody else holds a buffer: a well-formed ring, every buffer idle
  or held by \<open>p\<close>, every used buffer valid, and no block cached twice.
\<close>

definition bio_wf :: "int \<Rightarrow> bcache \<Rightarrow> bool" where
  "bio_wf p s \<longleftrightarrow> lk_free (bc_lock s) \<and> (\<exists>xs. ring (bufs s) xs) \<and>
     (\<forall>i < NBUF. buf_ok p (length (disk s)) (bufp s i)) \<and>
     (\<forall>i < NBUF. \<forall>j < NBUF. \<forall>blk. same_block ROOTDEV blk (bufp s i) \<longrightarrow> same_block ROOTDEV blk (bufp s j) \<longrightarrow> i = j) \<and>
     (\<forall>d \<in> set (disk s). length d = BSIZE)"

text \<open>A clean idle buffer holds what is on disk.\<close>

definition coherent :: "bcache \<Rightarrow> bool" where
  "coherent s \<longleftrightarrow> (\<forall>i < NBUF. b_dev (bufp s i) = ROOTDEV \<and> recyclable (bufp s i) \<longrightarrow>
     b_data (bufp s i) = disk s ! unat (b_blockno (bufp s i)))"

definition cached :: "bcache \<Rightarrow> u32 \<Rightarrow> nat option" where
  "cached s blk = for_first (\<lambda>i. same_block ROOTDEV blk (bufp s i)) 0 NBUF"

text \<open>What reading block \<open>blk\<close> gives: the cached copy when there is one, else the disk.\<close>

definition view :: "bcache \<Rightarrow> u32 \<Rightarrow> u8 list" where
  "view s blk = (case cached s blk of Some i \<Rightarrow> b_data (bufp s i) | None \<Rightarrow> disk s ! unat blk)"

lemma bio_wfD:
  assumes "bio_wf p s"
  shows "lk_free (bc_lock s)" "\<exists>xs. ring (bufs s) xs" "length (bufs s) = Suc NBUF"
    "i < NBUF \<Longrightarrow> buf_ok p (length (disk s)) (bufp s i)"
    "\<lbrakk>i < NBUF; j < NBUF; same_block ROOTDEV blk (bufp s i); same_block ROOTDEV blk (bufp s j)\<rbrakk> \<Longrightarrow> i = j"
    "n < length (disk s) \<Longrightarrow> length (disk s ! n) = BSIZE"
  using assms by (auto simp: bio_wf_def ring_def)

lemma cached_Some: "\<lbrakk>bio_wf p s; i < NBUF; same_block ROOTDEV blk (bufp s i)\<rbrakk> \<Longrightarrow> cached s blk = Some i"
  unfolding cached_def for_first_Some
proof (intro conjI allI impI notI)
  fix j assume "bio_wf p s" "i < NBUF" "same_block ROOTDEV blk (bufp s i)" "0 \<le> j \<and> j < i"
    "same_block ROOTDEV blk (bufp s j)"
  with bio_wfD(5) [of p s j i blk] show False by simp
qed simp_all

lemma cached_None: "(\<And>i. i < NBUF \<Longrightarrow> \<not> same_block ROOTDEV blk (bufp s i)) \<Longrightarrow> cached s blk = None"
  unfolding cached_def for_first_None by auto

lemma cachedD: "cached s blk = Some i \<Longrightarrow> i < NBUF \<and> same_block ROOTDEV blk (bufp s i)"
  and cachedN: "cached s blk = None \<Longrightarrow> j < NBUF \<Longrightarrow> \<not> same_block ROOTDEV blk (bufp s j)"
  unfolding cached_def for_first_Some for_first_None by auto

lemma view_cached: "\<lbrakk>bio_wf p s; i < NBUF; same_block ROOTDEV blk (bufp s i)\<rbrakk> \<Longrightarrow> view s blk = b_data (bufp s i)"
  by (simp add: view_def cached_Some)

text \<open>A change of one buffer that keeps its links.\<close>

lemma ring_upd:
  assumes "ring (bufs s) xs" "\<And>b. b_next (f b) = b_next b" "\<And>b. b_prev (f b) = b_prev b"
  shows "ring (bufs (upd_buf i f s)) xs"
proof -
  have "nexts (bufs (upd_buf i f s)) = nexts (bufs s)" "prevs (bufs (upd_buf i f s)) = prevs (bufs s)"
    using assms by (auto simp: fun_eq_iff bufp_upd)
  with assms(1) show ?thesis by (simp add: ring_def)
qed

lemma bio_wf_upd:
  assumes wf: "bio_wf p s" and i: "i < NBUF" and f: "\<And>b. b_next (f b) = b_next b" "\<And>b. b_prev (f b) = b_prev b"
    and ok: "buf_ok p (length (disk s)) (f (bufp s i))"
    and uniq: "\<And>j blk. \<lbrakk>j < NBUF; same_block ROOTDEV blk (f (bufp s i)); same_block ROOTDEV blk (bufp s j)\<rbrakk> \<Longrightarrow> j = i"
  shows "bio_wf p (upd_buf i f s)"
proof -
  have len: "i < length (bufs s)" using i bio_wfD(3) [OF wf] by simp
  have uniq': "j = k" if "j < NBUF" "k < NBUF" "same_block ROOTDEV blk (bufp (upd_buf i f s) j)"
      "same_block ROOTDEV blk (bufp (upd_buf i f s) k)" for j k blk
    using that uniq [of j blk] uniq [of k blk] bio_wfD(5) [OF wf, of j k blk] len by (simp add: bufp_upd split: if_splits)
  have "\<exists>xs. ring (bufs (upd_buf i f s)) xs" using bio_wfD(2) [OF wf] ring_upd [OF _ f] by blast
  with wf ok uniq' show ?thesis
    by (auto simp: bio_wf_def bufp_upd)
qed

lemma bio_wf_reads [simp]: "bio_wf p (s\<lparr>num_disk_reads := n\<rparr>) = bio_wf p s"
  and coherent_reads [simp]: "coherent (s\<lparr>num_disk_reads := n\<rparr>) = coherent s"
  and view_reads [simp]: "view (s\<lparr>num_disk_reads := n\<rparr>) = view s"
  by (auto simp: bio_wf_def coherent_def view_def cached_def fun_eq_iff split: option.splits)

section \<open>The operations on a well-formed cache\<close>

abbreviation by_pid :: "int \<Rightarrow> sleeplock \<Rightarrow> sleeplock" where
  "by_pid p lk \<equiv> lk\<lparr>slocked := 1, slpid := p\<rparr>"

definition grab :: "int \<Rightarrow> buf \<Rightarrow> buf" where
  "grab p b = b\<lparr>b_refcnt := 1, b_lock := by_pid p (b_lock b)\<rparr>"

definition fetch :: "int \<Rightarrow> u32 \<Rightarrow> u8 list \<Rightarrow> buf \<Rightarrow> buf" where
  "fetch p blk d b = b\<lparr>b_dev := ROOTDEV, b_blockno := blk, b_flags := B_VALID, b_refcnt := 1,
     b_lock := by_pid p (b_lock b), b_data := d\<rparr>"

definition drop_buf :: "buf \<Rightarrow> buf" where
  "drop_buf b = b\<lparr>b_refcnt := 0, b_lock := (b_lock b)\<lparr>slocked := 0, slpid := 0\<rparr>\<rparr>"

lemma grab_fields [simp]:
  "b_next (grab p b) = b_next b" "b_prev (grab p b) = b_prev b" "b_data (grab p b) = b_data b"
  "b_dev (grab p b) = b_dev b" "b_blockno (grab p b) = b_blockno b" "b_flags (grab p b) = b_flags b"
  "b_refcnt (grab p b) = 1" "b_lock (grab p b) = by_pid p (b_lock b)"
  by (simp_all add: grab_def)

lemma fetch_fields [simp]:
  "b_next (fetch p blk d b) = b_next b" "b_prev (fetch p blk d b) = b_prev b" "b_data (fetch p blk d b) = d"
  "b_dev (fetch p blk d b) = ROOTDEV" "b_blockno (fetch p blk d b) = blk" "b_flags (fetch p blk d b) = B_VALID"
  "b_refcnt (fetch p blk d b) = 1" "b_lock (fetch p blk d b) = by_pid p (b_lock b)"
  by (simp_all add: fetch_def)

lemma drop_buf_fields [simp]:
  "b_next (drop_buf b) = b_next b" "b_prev (drop_buf b) = b_prev b" "b_data (drop_buf b) = b_data b"
  "b_dev (drop_buf b) = b_dev b" "b_blockno (drop_buf b) = b_blockno b" "b_flags (drop_buf b) = b_flags b"
  "b_refcnt (drop_buf b) = 0" "b_lock (drop_buf b) = (b_lock b)\<lparr>slocked := 0, slpid := 0\<rparr>"
  by (simp_all add: drop_buf_def)

lemma upd_buf_compose: "upd_buf i f (upd_buf i g s) = upd_buf i (\<lambda>b. f (g b)) s"
  by (cases "i < length (bufs s)") (simp_all add: upd_buf_def list_update_beyond)

lemma upd_buf_cong: "f (bufp s i) = g (bufp s i) \<Longrightarrow> upd_buf i f s = upd_buf i g s"
  by (simp add: upd_buf_def)

lemma upd_buf_same: "f (bufp s i) = bufp s i \<Longrightarrow> upd_buf i f s = s"
  by (simp add: upd_buf_def)

lemma upd_buf_bc_lock: "upd_buf i f (s\<lparr>bc_lock := l\<rparr>) = (upd_buf i f s)\<lparr>bc_lock := l\<rparr>"
  by (simp add: upd_buf_def)

definition bc_locked :: "bcache \<Rightarrow> bcache" where
  "bc_locked s = s\<lparr>bc_lock := (bc_lock s)\<lparr>locked := 1, lkcpu := mycpu\<rparr>\<rparr>"

lemma bc_locked_simps:
  "lk_free (bc_lock s) \<Longrightarrow> acquire_bc s = Some (bc_locked s)"
  "lk_free (bc_lock s) \<Longrightarrow> release_bc (bc_locked s) = Some s"
  "upd_buf i f (bc_locked s) = bc_locked (upd_buf i f s)"
  "bufs (bc_locked s) = bufs s"
  by (simp_all add: acquire_bc_def release_bc_def bc_locked_def upd_buf_bc_lock)

lemma find_SomeD: "find P xs = Some i \<Longrightarrow> i \<in> set xs \<and> P i"
  by (induction xs) (auto split: if_splits)

lemma find_unique: "\<lbrakk>i \<in> set xs; P i; \<And>j. j \<in> set xs \<Longrightarrow> P j \<Longrightarrow> j = i\<rbrakk> \<Longrightarrow> find P xs = Some i"
proof (induction xs)
  case (Cons a xs)
  show ?case
  proof (cases "P a")
    case True
    with Cons.prems(3) [of a] show ?thesis by simp
  next
    case False
    then have "i \<in> set xs" using Cons.prems(1,2) by auto
    moreover have "j = i" if "j \<in> set xs" "P j" for j
      by (rule Cons.prems(3)) (use that in simp_all)
    ultimately show ?thesis using Cons.IH [OF _ Cons.prems(2)] False by simp
  qed
qed simp

text \<open>A hit: the one buffer that caches the block gets a reference and is locked.\<close>

lemma bget_hit:
  assumes wf: "bio_wf p s" and i: "i < NBUF" "same_block ROOTDEV blk (bufp s i)" "idle (bufp s i)"
  shows "bget p ROOTDEV blk s = Some (i, upd_buf i (grab p) s)"
proof -
  obtain xs where xs: "ring (bufs s) xs" using bio_wfD(2) [OF wf] ..
  have len: "i < length (bufs s)" using i bio_wfD(3) [OF wf] by simp
  have "find (\<lambda>j. same_block ROOTDEV blk (bufp s j)) xs = Some i"
    using i bio_wfD(5) [OF wf] xs by (intro find_unique) (auto simp: ring_def)
  then have "scan_next (same_block ROOTDEV blk) (bufs s) (b_next (bufp s HEAD)) = Some (Some i)"
    using scan_ring(1) [OF xs] by simp
  moreover have "lk_free (bc_lock s)" using bio_wfD(1) [OF wf] .
  ultimately show ?thesis
    using i(3) len
    by (simp add: bget_def bc_locked_simps lock_buf_def bufp_upd idle_def
        upd_buf_compose)
      (rule upd_buf_cong, simp add: grab_def)
qed

text \<open>A miss: the recyclable buffer nearest to the end of the ring is taken over.\<close>

lemma bget_miss:
  assumes wf: "bio_wf p s" and miss: "\<And>i. i < NBUF \<Longrightarrow> \<not> same_block ROOTDEV blk (bufp s i)"
    and xs: "ring (bufs s) xs" and v: "find (\<lambda>j. recyclable (bufp s j)) (rev xs) = Some i"
  shows "bget p ROOTDEV blk s = Some (i, upd_buf i (\<lambda>b. (recycle ROOTDEV blk b)\<lparr>b_lock := by_pid p (b_lock b)\<rparr>) s)"
proof -
  have i: "i < NBUF" "recyclable (bufp s i)" using find_SomeD [OF v] xs by (auto simp: ring_def)
  have free: "sl_free (b_lock (bufp s i))"
    using bio_wfD(4) [OF wf i(1)] i(2) by (auto simp: buf_ok_def idle_def held_def recyclable_def)
  have len: "i < length (bufs s)" using i bio_wfD(3) [OF wf] by simp
  have "find (\<lambda>j. same_block ROOTDEV blk (bufp s j)) xs = None"
    using miss xs by (auto simp: find_None_iff ring_def)
  then have "scan_next (same_block ROOTDEV blk) (bufs s) (b_next (bufp s HEAD)) = Some None"
    "scan_prev recyclable (bufs s) (b_prev (bufp s HEAD)) = Some (Some i)"
    using scan_ring [OF xs] v by simp_all
  moreover have "lk_free (bc_lock s)" using bio_wfD(1) [OF wf] .
  ultimately show ?thesis
    using free len
    by (simp add: bget_def bc_locked_simps lock_buf_def bufp_upd
        upd_buf_compose recycle_def)
      (rule upd_buf_cong, simp)
qed

lemma bit_B_DIRTY [simp]: "bit B_DIRTY n \<longleftrightarrow> n = 2" and bit_B_VALID [simp]: "bit B_VALID n \<longleftrightarrow> n = 1"
proof -
  have e: "B_DIRTY = push_bit 2 1" "B_VALID = push_bit 1 1" by (simp_all add: B_DIRTY_def B_VALID_def)
  show "bit B_DIRTY n \<longleftrightarrow> n = 2" "bit B_VALID n \<longleftrightarrow> n = 1"
    unfolding e bit_push_bit_iff by (auto simp: bit_1_iff)
qed

lemma flag_bits:
  fixes x :: u32
  shows "x AND B_DIRTY = 0 \<longleftrightarrow> \<not> bit x 2" "x AND B_VALID = 0 \<longleftrightarrow> \<not> bit x 1"
  unfolding bit_eq_iff [of "x AND B_DIRTY" 0] bit_eq_iff [of "x AND B_VALID" 0]
  by (auto simp: bit_and_iff dest: spec [of _ 1] spec [of _ 2])

lemma valid_bit: "valid b \<longleftrightarrow> bit (b_flags b) 1" and dirty_bit: "dirty b \<longleftrightarrow> bit (b_flags b) 2"
  and recyclable_dirty: "recyclable b \<longleftrightarrow> b_refcnt b = 0 \<and> \<not> dirty b"
  by (simp_all add: valid_def dirty_def recyclable_def flag_bits)

lemmas flag_simps = valid_bit dirty_bit bit_or_iff bit_and_iff bit_not_iff

definition count_read :: "bcache \<Rightarrow> bcache" where
  "count_read s = s\<lparr>num_disk_reads := c_int (num_disk_reads s + 1)\<rparr>"

lemma count_read_simps [simp]:
  "bufs (count_read s) = bufs s" "disk (count_read s) = disk s" "bc_lock (count_read s) = bc_lock s"
  "crashn_enable (count_read s) = crashn_enable s" "crashn (count_read s) = crashn s"
  "bio_wf p (count_read s) = bio_wf p s" "coherent (count_read s) = coherent s" "view (count_read s) = view s"
  by (simp_all add: count_read_def)

text \<open>\<open>bread\<close> on a hit and on a miss.\<close>

lemma bread_hit:
  assumes "bio_wf p s" "i < NBUF" "same_block ROOTDEV blk (bufp s i)" "idle (bufp s i)"
  shows "bread p ROOTDEV blk s = Some (i, upd_buf i (grab p) (count_read s))"
proof -
  have "valid (bufp s i)" "i < length (bufs s)"
    using bio_wfD(3) [OF assms(1)] bio_wfD(4) [OF assms(1,2)] assms(2,3)
    by (simp_all add: buf_ok_def same_block_def ROOTDEV_def)
  with bget_hit [of p "count_read s" i blk] assms show ?thesis
    by (simp add: bread_def count_read_def [symmetric] bufp_upd valid_bit)
qed

lemma bread_miss:
  assumes wf: "bio_wf p s" and miss: "\<And>i. i < NBUF \<Longrightarrow> \<not> same_block ROOTDEV blk (bufp s i)"
    and xs: "ring (bufs s) xs" and v: "find (\<lambda>j. recyclable (bufp s j)) (rev xs) = Some i"
    and blk: "unat blk < length (disk s)"
  shows "bread p ROOTDEV blk s = Some (i, upd_buf i (fetch p blk (disk s ! unat blk)) (count_read s))"
proof -
  let ?s = "upd_buf i (\<lambda>b. (recycle ROOTDEV blk b)\<lparr>b_lock := by_pid p (b_lock b)\<rparr>) (count_read s)"
  have i: "i < NBUF" "recyclable (bufp s i)" using find_SomeD [OF v] xs by (auto simp: ring_def)
  have free: "sl_free (b_lock (bufp s i))"
    using bio_wfD(4) [OF wf i(1)] i(2) by (auto simp: buf_ok_def idle_def held_def recyclable_def)
  have len: "i < length (bufs s)" using i bio_wfD(3) [OF wf] by simp
  have b: "bufp ?s i = (recycle ROOTDEV blk (bufp s i))\<lparr>b_lock := by_pid p (b_lock (bufp s i))\<rparr>"
    using len by (simp add: bufp_upd)
  have "iderw p i ?s = Some (upd_buf i (fetch p blk (disk s ! unat blk)) (count_read s))"
    using free len blk
    by (simp add: iderw_def b recycle_def flag_simps upd_buf_compose ROOTDEV_def bufp_upd)
      (rule upd_buf_cong, simp add: fetch_def ROOTDEV_def)
  moreover have nv: "\<not> valid (bufp ?s i)" unfolding b by (simp add: recycle_def valid_bit)
  moreover have "bget p ROOTDEV blk (count_read s) = Some (i, ?s)"
    by (rule bget_miss) (use assms in simp_all)
  ultimately show ?thesis
    using nv by (simp add: bread_def count_read_def [symmetric])
qed

text \<open>\<open>bwrite\<close> by the holder stores the buffer on disk and leaves it valid and clean.\<close>

definition cleaned :: "buf \<Rightarrow> buf" where
  "cleaned b = b\<lparr>b_flags := (((b_flags b) OR B_DIRTY) AND NOT B_DIRTY) OR B_VALID\<rparr>"

definition no_crash :: "bcache \<Rightarrow> bool" where
  "no_crash s \<longleftrightarrow> crashn_enable s = 0 \<or> 0 < crashn s \<and> crashn s < 2 ^ 31"

definition count_write :: "bcache \<Rightarrow> bcache" where
  "count_write s = (if crashn_enable s \<noteq> 0 then s\<lparr>crashn := crashn s - 1\<rparr> else s)"

lemma count_write_simps [simp]:
  "bufs (count_write s) = bufs s" "disk (count_write s) = disk s" "bc_lock (count_write s) = bc_lock s"
  "bio_wf p (count_write s) = bio_wf p s" "coherent (count_write s) = coherent s" "view (count_write s) = view s"
  by (auto simp: count_write_def bio_wf_def coherent_def view_def cached_def fun_eq_iff split: option.splits)

lemma bwrite_eq:
  assumes "no_crash s" "i < length (bufs s)" "sl_held p (b_lock (bufp s i))" "b_dev (bufp s i) = ROOTDEV"
    "unat (b_blockno (bufp s i)) < length (disk s)"
  shows "bwrite p i s = Some (upd_buf i cleaned (count_write s)
     \<lparr>disk := (disk s)[unat (b_blockno (bufp s i)) := b_data (bufp s i)]\<rparr>)"
proof -
  have "(if crashn_enable s \<noteq> 0
           then let s = s\<lparr>crashn := c_int (crashn s - 1)\<rparr> in if crashn s < 0 then None else Some s
           else Some s) = Some (count_write s)"
    using assms(1) by (auto simp: no_crash_def count_write_def)
  then show ?thesis
    using assms
    by (simp add: bwrite_def iderw_def upd_buf_compose bufp_upd flag_simps ROOTDEV_def)
      (rule bcache.equality; cases "bufp s i"; simp add: upd_buf_def cleaned_def)
qed

text \<open>\<open>brelse\<close> by the holder.\<close>

lemma brelse_eq:
  assumes wf: "bio_wf p s" and i: "i < NBUF" "held p (bufp s i)"
  shows "brelse p i s = Some (to_front i (upd_buf i drop_buf s))"
proof -
  have len: "i < length (bufs s)" using i bio_wfD(3) [OF wf] by simp
  have l: "lk_free (bc_lock s)" using bio_wfD(1) [OF wf] .
  have tf: "to_front b (bc_locked s') = bc_locked (to_front b s')" for b s'
    by (simp add: to_front_def Let_def bc_locked_simps)
  show ?thesis
    using i len l
    by (simp add: brelse_def held_def releasesleep_eq [of p] upd_buf_compose bufp_upd bc_locked_simps tf)
      (rule arg_cong [where f = "to_front i"], rule upd_buf_cong, simp add: drop_buf_def)
qed

section \<open>Correctness of the cache\<close>

definition bio_ok :: "int \<Rightarrow> bcache \<Rightarrow> bool" where
  "bio_ok p s \<longleftrightarrow> bio_wf p s \<and> coherent s"

lemma view_uncached: "(\<And>i. i < NBUF \<Longrightarrow> \<not> same_block ROOTDEV blk (bufp s i)) \<Longrightarrow> view s blk = disk s ! unat blk"
  by (simp add: view_def cached_None)

lemma view_same:
  assumes "disk s' = disk s"
    and "\<And>i. i < NBUF \<Longrightarrow> b_dev (bufp s' i) = b_dev (bufp s i) \<and> b_blockno (bufp s' i) = b_blockno (bufp s i) \<and>
       b_data (bufp s' i) = b_data (bufp s i)"
  shows "view s' = view s"
proof
  fix blk
  have "cached s' blk = cached s blk"
    unfolding cached_def by (rule for_first_cong) (simp add: assms(2) same_block_def)
  then show "view s' blk = view s blk"
    by (auto simp: view_def assms(1) split: option.split dest: cachedD intro: assms(2) [THEN conjunct2, THEN conjunct2])
qed

lemma coherent_upd:
  assumes "coherent s" "\<not> recyclable (f (bufp s i)) \<or> b_dev (f (bufp s i)) \<noteq> ROOTDEV \<or>
    b_data (f (bufp s i)) = disk s ! unat (b_blockno (f (bufp s i)))"
  shows "coherent (upd_buf i f s)"
  using assms by (auto simp: coherent_def bufp_upd)

text \<open>The buffer a \<open>bread\<close> hands out, and the rest of the cache after it.\<close>

definition got :: "int \<Rightarrow> bcache \<Rightarrow> u32 \<Rightarrow> nat \<Rightarrow> bcache \<Rightarrow> bool" where
  "got p s blk b s' \<longleftrightarrow> b < NBUF \<and> bio_wf p s' \<and> held p (bufp s' b) \<and> same_block ROOTDEV blk (bufp s' b) \<and>
     b_data (bufp s' b) = view s blk \<and> disk s' = disk s \<and> (\<forall>j < NBUF. j \<noteq> b \<longrightarrow> bufp s' j = bufp s j) \<and>
     (dirty (bufp s' b) \<longrightarrow> dirty (bufp s b)) \<and>
     (coherent s \<longrightarrow> coherent s' \<and> view s' = view s \<and>
        (\<not> dirty (bufp s' b) \<longrightarrow> b_data (bufp s' b) = disk s ! unat blk))"

lemma bread_hit_ok:
  assumes wf: "bio_wf p s" and "i < NBUF" "same_block ROOTDEV blk (bufp s i)" "b_refcnt (bufp s i) = 0"
  shows "\<exists>s'. bread p ROOTDEV blk s = Some (i, s') \<and> got p s blk i s'"
proof -
  have len: "i < length (bufs s)" using bio_wfD(3) [OF wf] assms(2) by simp
  have bok: "buf_ok p (length (disk s)) (bufp s i)" by (rule bio_wfD(4) [OF wf assms(2)])
  then have idle: "idle (bufp s i)" using assms(4) by (auto simp: buf_ok_def held_def)
  let ?s = "upd_buf i (grab p) (count_read s)"
  have "held p (grab p (bufp s i))" using idle by (simp add: held_def idle_def)
  moreover have "bio_wf p ?s"
  proof (rule bio_wf_upd)
    show "buf_ok p (length (disk (count_read s))) (grab p (bufp (count_read s) i))"
      using bok calculation by (auto simp: buf_ok_def valid_bit)
    show "j = i" if "j < NBUF" "same_block ROOTDEV blk' (grab p (bufp (count_read s) i))"
      "same_block ROOTDEV blk' (bufp (count_read s) j)" for j blk'
      using bio_wfD(5) [OF wf that(1) assms(2)] that(2,3) by (simp add: same_block_def)
  qed (use wf assms(2) in simp_all)
  moreover have "coherent ?s" if "coherent s" by (rule coherent_upd) (use that in \<open>simp_all add: recyclable_def\<close>)
  moreover have "view ?s = view s" by (rule view_same) (simp_all add: bufp_upd)
  moreover have "view s blk = b_data (bufp s i)" using view_cached [OF wf assms(2,3)] .
  ultimately show ?thesis
    using bread_hit [OF wf assms(2,3) idle] assms(2,3,4) len
    by (simp add: got_def bufp_upd same_block_def dirty_bit coherent_def recyclable_dirty)
qed

lemma bread_miss_ok:
  assumes wf: "bio_wf p s" and miss: "\<And>i. i < NBUF \<Longrightarrow> \<not> same_block ROOTDEV blk (bufp s i)"
    and xs: "ring (bufs s) xs" and v: "find (\<lambda>j. recyclable (bufp s j)) (rev xs) = Some i"
    and blk: "unat blk < length (disk s)"
  shows "\<exists>s'. bread p ROOTDEV blk s = Some (i, s') \<and> got p s blk i s'"
proof -
  have i: "i < NBUF" "recyclable (bufp s i)" using find_SomeD [OF v] xs by (auto simp: ring_def)
  have len: "i < length (bufs s)" using bio_wfD(3) [OF wf] i by simp
  have free: "sl_free (b_lock (bufp s i))"
    using bio_wfD(4) [OF wf i(1)] i(2) by (auto simp: buf_ok_def idle_def held_def recyclable_def)
  define d where "d = disk s ! unat blk"
  let ?s = "upd_buf i (fetch p blk d) (count_read s)"
  have held: "held p (fetch p blk d (bufp s i))" using free by (simp add: held_def)
  have wf': "bio_wf p ?s"
  proof (rule bio_wf_upd)
    show "buf_ok p (length (disk (count_read s))) (fetch p blk d (bufp (count_read s) i))"
      using held blk bio_wfD(6) [OF wf blk] by (simp add: buf_ok_def valid_bit d_def)
    show "j = i" if "j < NBUF" "same_block ROOTDEV blk' (fetch p blk d (bufp (count_read s) i))"
      "same_block ROOTDEV blk' (bufp (count_read s) j)" for j blk'
      using miss [OF that(1)] that(2,3) by (simp add: same_block_def)
  qed (use wf i(1) in simp_all)
  have "coherent ?s" if "coherent s" by (rule coherent_upd) (use that in \<open>simp_all add: recyclable_def\<close>)
  moreover have "view ?s = view s" if co: "coherent s"
  proof
    fix b
    have nb: "bufp ?s j = (if j = i then fetch p blk d (bufp s i) else bufp s j)" for j
      using len by (simp add: bufp_upd)
    consider "b = blk" | j where "b \<noteq> blk" "j < NBUF" "j \<noteq> i" "same_block ROOTDEV b (bufp s j)"
      | "b \<noteq> blk" "same_block ROOTDEV b (bufp s i)"
      | "b \<noteq> blk" "\<And>j. j < NBUF \<Longrightarrow> \<not> same_block ROOTDEV b (bufp s j)" by blast
    then show "view ?s b = view s b"
    proof cases
      case 1
      have "same_block ROOTDEV blk (bufp ?s i)" "b_data (bufp ?s i) = d" using nb [of i] by (simp_all add: same_block_def)
      then have "view ?s blk = d" using view_cached [OF wf' i(1), of blk] by simp
      then show ?thesis using view_uncached [of blk s, OF miss] 1 by (simp add: d_def)
    next
      case 2
      with view_cached [OF wf' 2(2), of b] view_cached [OF wf 2(2), of b] show ?thesis by (simp add: nb)
    next
      case 3
      have "\<not> same_block ROOTDEV b (bufp ?s j)" if "j < NBUF" for j
      proof (cases "j = i")
        case False
        then show ?thesis using bio_wfD(5) [OF wf that i(1) _ 3(2)] unfolding nb by auto
      qed (use 3 in \<open>simp add: nb same_block_def\<close>)
      from view_uncached [of b ?s, OF this] view_cached [OF wf i(1) 3(2)] co 3(2) i
      show ?thesis by (simp add: coherent_def same_block_def)
    next
      case 4
      have "\<not> same_block ROOTDEV b (bufp ?s j)" if "j < NBUF" for j
        using 4 that by (auto simp: nb same_block_def)
      from view_uncached [of b ?s, OF this] view_uncached [of b s, OF 4(2)] show ?thesis by simp
    qed
  qed
  moreover have "view s blk = d" using view_uncached [of blk s, OF miss] by (simp add: d_def)
  ultimately show ?thesis
    using bread_miss [OF wf miss xs v blk] held wf' len i(1)
    by (simp add: got_def bufp_upd same_block_def d_def dirty_bit)
qed

lemma find_append: "find P (xs @ ys) = (case find P xs of None \<Rightarrow> find P ys | Some x \<Rightarrow> Some x)"
  by (induction xs) auto

text \<open>
  With no buffer for the block held by the caller and a recyclable buffer in the cache, \<open>bread\<close>
  returns a buffer locked by the caller that holds the current contents of the block. No block's
  contents change, and nothing is written.
\<close>

lemma bread_wf:
  assumes "bio_wf p s" and "unat blk < length (disk s)"
    and "\<forall>i < NBUF. same_block ROOTDEV blk (bufp s i) \<longrightarrow> b_refcnt (bufp s i) = 0"
    and "\<exists>i < NBUF. recyclable (bufp s i)"
  shows "\<exists>b s'. bread p ROOTDEV blk s = Some (b, s') \<and> got p s blk b s'"
proof (cases "\<exists>i < NBUF. same_block ROOTDEV blk (bufp s i)")
  case True
  then obtain i where "i < NBUF" "same_block ROOTDEV blk (bufp s i)" by blast
  with bread_hit_ok [OF assms(1) this] assms(3) show ?thesis by blast
next
  case False
  obtain xs where xs: "ring (bufs s) xs" using bio_wfD(2) [OF assms(1)] by blast
  have "\<exists>i. find (\<lambda>j. recyclable (bufp s j)) (rev xs) = Some i"
    using assms(4) xs by (auto simp: ring_def find_None_iff simp flip: not_None_eq)
  then obtain i where v: "find (\<lambda>j. recyclable (bufp s j)) (rev xs) = Some i" ..
  with bread_miss_ok [OF assms(1) _ xs v assms(2)] False show ?thesis by blast
qed

lemma bread_ok:
  assumes "bio_ok p s" and "unat blk < length (disk s)"
    and "\<forall>i < NBUF. same_block ROOTDEV blk (bufp s i) \<longrightarrow> b_refcnt (bufp s i) = 0"
    and "\<exists>i < NBUF. recyclable (bufp s i)"
  shows "\<exists>b s'. bread p ROOTDEV blk s = Some (b, s') \<and> b < NBUF \<and> bio_ok p s' \<and> held p (bufp s' b) \<and>
     same_block ROOTDEV blk (bufp s' b) \<and> b_data (bufp s' b) = view s blk \<and> view s' = view s \<and> disk s' = disk s \<and>
     (\<forall>j < NBUF. j \<noteq> b \<longrightarrow> bufp s' j = bufp s j) \<and>
     (if dirty (bufp s' b) then dirty (bufp s b) else b_data (bufp s' b) = disk s ! unat blk)"
proof -
  have "bio_wf p s" "coherent s" using assms(1) by (simp_all add: bio_ok_def)
  with bread_wf [OF this(1) assms(2-4)] show ?thesis by (auto simp: got_def bio_ok_def)
qed

text \<open>
  C18. On a miss \<open>bget\<close> recycles, of the buffers that are clean and unreferenced, the one
  nearest to the end of the ring, that is the least recently released one.
\<close>

theorem bget_lru:
  assumes "bio_wf p s" "\<forall>i < NBUF. \<not> same_block ROOTDEV blk (bufp s i)"
    and "ring (bufs s) (xs @ v # ys)" "recyclable (bufp s v)" "\<forall>y \<in> set ys. \<not> recyclable (bufp s y)"
  shows "\<exists>s'. bget p ROOTDEV blk s = Some (v, s') \<and> ring (bufs s') (xs @ v # ys) \<and>
     b_dev (bufp s' v) = ROOTDEV \<and> b_blockno (bufp s' v) = blk \<and> b_flags (bufp s' v) = 0 \<and> held p (bufp s' v)"
proof -
  have "find (\<lambda>j. recyclable (bufp s j)) (rev ys) = None" using assms(5) by (simp add: find_None_iff)
  then have v: "find (\<lambda>j. recyclable (bufp s j)) (rev (xs @ v # ys)) = Some v"
    using assms(4) by (simp add: find_append)
  have vn: "v < NBUF" using assms(3) ring_less by fastforce
  then have "v < length (bufs s)" "sl_free (b_lock (bufp s v))"
    using bio_wfD(3) [OF assms(1)] bio_wfD(4) [OF assms(1) vn] assms(4)
    by (auto simp: buf_ok_def idle_def held_def recyclable_def)
  with bget_miss [OF assms(1) _ assms(3) v, of blk] assms(2)
    ring_upd [OF assms(3), of "\<lambda>b. (recycle ROOTDEV blk b)\<lparr>b_lock := by_pid p (b_lock b)\<rparr>" v]
  show ?thesis by (simp add: bufp_upd recycle_def held_def)
qed

lemma bio_wf_core:
  assumes "bio_wf p s" "\<And>x. core (bufp s' x) = core (bufp s x)" "bc_lock s' = bc_lock s" "disk s' = disk s"
    and "ring (bufs s') xs"
  shows "bio_wf p s'"
proof -
  have "buf_ok p n (bufp s' x) = buf_ok p n (bufp s x)" "same_block d k (bufp s' x) = same_block d k (bufp s x)" for x n d k
    using core_fields [OF assms(2), of x] by (simp_all add: buf_ok_def idle_def held_def same_block_def)
  with assms show ?thesis unfolding bio_wf_def by auto
qed

lemma coherent_core:
  assumes "\<And>x. core (bufp s' x) = core (bufp s x)" "disk s' = disk s"
  shows "coherent s' = coherent s"
  using core_fields [OF assms(1)] assms(2) by (simp add: coherent_def recyclable_def)

text \<open>
  \<open>brelse\<close> by the holder returns: the buffer is idle and first in the order of use, the block
  contents stay. The cache is coherent again if the buffer is dirty or equal to its disk block.
\<close>

lemma brelse_ok:
  assumes "bio_wf p s" "i < NBUF" "held p (bufp s i)" "ring (bufs s) xs"
  shows "\<exists>s'. brelse p i s = Some s' \<and> bio_wf p s' \<and> idle (bufp s' i) \<and> ring (bufs s') (i # remove1 i xs) \<and>
     view s' = view s \<and> disk s' = disk s \<and> (\<forall>j. j \<noteq> i \<longrightarrow> core (bufp s' j) = core (bufp s j)) \<and>
     core (bufp s' i) = core (drop_buf (bufp s i)) \<and>
     (coherent s \<and> (dirty (bufp s i) \<or> b_data (bufp s i) = disk s ! unat (b_blockno (bufp s i))) \<longrightarrow> coherent s')"
proof -
  let ?t = "upd_buf i drop_buf s" and ?s = "to_front i (upd_buf i drop_buf s)"
  have len: "i < length (bufs s)" using bio_wfD(3) [OF assms(1)] assms(2) by simp
  have c: "core (bufp ?s x) = core (bufp ?t x)" for x by simp
  have idle: "idle (drop_buf (bufp s i))" using assms(3) by (simp add: idle_def held_def sl_free_released [of p])
  have wf: "bio_wf p ?t"
  proof (rule bio_wf_upd)
    show "buf_ok p (length (disk s)) (drop_buf (bufp s i))"
      using bio_wfD(4) [OF assms(1,2)] idle by (auto simp: buf_ok_def valid_bit)
    show "j = i" if "j < NBUF" "same_block ROOTDEV b (drop_buf (bufp s i))" "same_block ROOTDEV b (bufp s j)" for j b
      using bio_wfD(5) [OF assms(1) that(1) assms(2) that(3)] that(2) by (simp add: same_block_def)
  qed (use assms in simp_all)
  have ring: "ring (bufs ?s) (i # remove1 i xs)"
    by (rule to_front_ring [OF ring_upd [OF assms(4)] assms(2)]) simp_all
  have "bio_wf p ?s" by (rule bio_wf_core [OF wf c _ _ ring]) simp_all
  moreover have "view ?s = view s"
    by (rule view_same) (use core_fields [OF c] in \<open>simp_all add: bufp_upd\<close>)
  moreover have "coherent ?s = coherent ?t" by (rule coherent_core) simp_all
  moreover have "coherent s \<and> (dirty (bufp s i) \<or> b_data (bufp s i) = disk s ! unat (b_blockno (bufp s i))) \<longrightarrow> coherent ?t"
    by (intro impI coherent_upd) (auto simp: recyclable_dirty dirty_bit)
  moreover have "idle (bufp ?s i)" using core_fields [OF c, of i] idle len by (simp add: bufp_upd idle_def)
  ultimately show ?thesis
    using brelse_eq [OF assms(1-3)] ring len by (simp add: bufp_upd)
qed

lemma bwrite_ok:
  assumes "bio_wf p s" "no_crash s" "i < NBUF" "held p (bufp s i)" "same_block ROOTDEV blk (bufp s i)"
  shows "\<exists>s'. bwrite p i s = Some s' \<and> bio_wf p s' \<and> disk s' = (disk s)[unat blk := b_data (bufp s i)] \<and>
     bufp s' i = cleaned (bufp s i) \<and> (\<forall>j. j \<noteq> i \<longrightarrow> bufp s' j = bufp s j) \<and>
     view s' = view s \<and> (coherent s \<longrightarrow> coherent s')"
proof -
  have len: "i < length (bufs s)" using bio_wfD(3) [OF assms(1)] assms(3) by simp
  have blk: "unat blk < length (disk s)" and bok: "buf_ok p (length (disk s)) (bufp s i)"
    using bio_wfD(4) [OF assms(1,3)] assms(5) by (auto simp: buf_ok_def same_block_def ROOTDEV_def)
  let ?t = "upd_buf i cleaned (count_write s)"
  let ?s = "?t\<lparr>disk := (disk s)[unat blk := b_data (bufp s i)]\<rparr>"
  have w: "bwrite p i s = Some ?s"
    using bwrite_eq [OF assms(2) len] assms(4,5) blk by (simp add: held_def same_block_def)
  have b: "bufp ?s j = (if j = i then cleaned (bufp s i) else bufp s j)" for j
    using len by (simp add: bufp_upd)
  have cl: "b_dev (cleaned x) = b_dev x" "b_blockno (cleaned x) = b_blockno x" "b_data (cleaned x) = b_data x"
    "b_refcnt (cleaned x) = b_refcnt x" "b_lock (cleaned x) = b_lock x" "valid (cleaned x)" "\<not> dirty (cleaned x)" for x
    by (simp_all add: cleaned_def flag_simps)
  have "bio_wf p ?t"
  proof (rule bio_wf_upd)
    show "buf_ok p (length (disk (count_write s))) (cleaned (bufp (count_write s) i))"
      using bok by (auto simp: buf_ok_def cl idle_def held_def)
    show "j = i" if "j < NBUF" "same_block ROOTDEV b (cleaned (bufp (count_write s) i))"
      "same_block ROOTDEV b (bufp (count_write s) j)" for j b
      using bio_wfD(5) [OF assms(1) that(1) assms(3)] that(2,3) by (simp add: same_block_def cl)
  qed (use assms in \<open>simp_all add: cleaned_def\<close>)
  moreover have "\<forall>d \<in> set ((disk s)[unat blk := b_data (bufp s i)]). length d = BSIZE"
    using assms(1) bok set_update_subset_insert [of "disk s" "unat blk" "b_data (bufp s i)"]
    by (auto simp: bio_wf_def buf_ok_def)
  ultimately have wf: "bio_wf p ?s" by (auto simp: bio_wf_def)
  have other: "b_blockno (bufp s j) \<noteq> blk" if "j < NBUF" "j \<noteq> i" "b_dev (bufp s j) = ROOTDEV" for j
    using bio_wfD(5) [OF assms(1) that(1) assms(3), of blk] assms(5) that by (auto simp: same_block_def)
  have "coherent ?s" if "coherent s"
    unfolding coherent_def
  proof (intro allI impI)
    fix j assume j: "j < NBUF" "b_dev (bufp ?s j) = ROOTDEV \<and> recyclable (bufp ?s j)"
    show "b_data (bufp ?s j) = disk ?s ! unat (b_blockno (bufp ?s j))"
    proof (cases "j = i")
      case True
      with assms(4) j(2) b [of i] show ?thesis by (simp add: recyclable_def cl held_def)
    next
      case False
      then have e: "bufp ?s j = bufp s j" using b [of j] by simp
      then have "b_blockno (bufp s j) \<noteq> blk" "b_data (bufp s j) = disk s ! unat (b_blockno (bufp s j))"
        using other [of j] j False that by (simp_all add: coherent_def)
      then show ?thesis unfolding e by (simp add: nth_upd flip: word_unat_eq_iff)
    qed
  qed
  moreover have "view ?s = view s"
  proof
    fix b'
    have c: "cached ?s b' = cached s b'"
      unfolding cached_def by (rule for_first_cong) (unfold b, simp add: same_block_def cl)
    show "view ?s b' = view s b'"
    proof (cases "cached s b'")
      case None
      then have "b' \<noteq> blk" using cachedN [OF None assms(3)] assms(5) by auto
      then show ?thesis by (simp add: view_def c None nth_upd flip: word_unat_eq_iff)
    next
      case (Some k)
      then show ?thesis using b [of k] by (simp add: view_def c cl)
    qed
  qed
  ultimately show ?thesis using w wf b by (auto simp: assms)
qed

section \<open>The cache as its clients see it\<close>

text \<open>No buffer is in use and at least one can be recycled.\<close>

definition quiet :: "int \<Rightarrow> bcache \<Rightarrow> bool" where
  "quiet p s \<longleftrightarrow> bio_ok p s \<and> (\<forall>i < NBUF. b_refcnt (bufp s i) = 0) \<and> (\<exists>i < NBUF. recyclable (bufp s i))"

definition on_disk :: "u32 \<Rightarrow> bcache \<Rightarrow> bool" where
  "on_disk blk s \<longleftrightarrow> unat blk < length (disk s)"

text \<open>
  The contract of a block reader: \<open>get\<close> hands out a buffer with the current contents of a block, and
  giving it back with \<open>rel\<close> leaves every block as it was and every block readable.
\<close>

locale block_cache =
  fixes get :: "u32 \<Rightarrow> 's \<Rightarrow> (nat \<times> 's) option"
    and rel :: "nat \<Rightarrow> 's \<Rightarrow> 's option"
    and contents :: "'s \<Rightarrow> nat \<Rightarrow> u8 list"
    and ready :: "u32 \<Rightarrow> 's \<Rightarrow> bool"
    and vw :: "'s \<Rightarrow> u32 \<Rightarrow> u8 list"
  assumes get_rel: "ready blk s \<Longrightarrow> \<exists>b s1 s2. get blk s = Some (b, s1) \<and> contents s1 b = vw s blk \<and>
      rel b s1 = Some s2 \<and> vw s2 = vw s \<and> (\<forall>k. ready k s \<longrightarrow> ready k s2)"
    and block_length: "ready blk s \<Longrightarrow> length (vw s blk) = BSIZE"

lemma read_release:
  assumes q: "quiet p s" and blk: "on_disk blk s"
  shows "\<exists>b s1 s2. bread p ROOTDEV blk s = Some (b, s1) \<and> b_data (bufp s1 b) = view s blk \<and>
     brelse p b s1 = Some s2 \<and> view s2 = view s \<and> disk s2 = disk s \<and> quiet p s2"
proof -
  have ok: "bio_ok p s" using q by (simp add: quiet_def)
  obtain b s1 where b: "bread p ROOTDEV blk s = Some (b, s1)" "b < NBUF" "bio_ok p s1" "held p (bufp s1 b)"
      "same_block ROOTDEV blk (bufp s1 b)" "b_data (bufp s1 b) = view s blk" "view s1 = view s" "disk s1 = disk s"
      "\<forall>j < NBUF. j \<noteq> b \<longrightarrow> bufp s1 j = bufp s j"
      "if dirty (bufp s1 b) then dirty (bufp s b) else b_data (bufp s1 b) = disk s ! unat blk"
    using bread_ok [OF ok, of blk] q blk by (auto simp: quiet_def on_disk_def)
  have wf: "bio_wf p s1" and co: "coherent s1" using b(3) by (simp_all add: bio_ok_def)
  obtain xs where xs: "ring (bufs s1) xs" using bio_wfD(2) [OF wf] ..
  obtain s2 where s2: "brelse p b s1 = Some s2" "bio_wf p s2" "idle (bufp s2 b)" "view s2 = view s1" "disk s2 = disk s1"
      "\<forall>j. j \<noteq> b \<longrightarrow> core (bufp s2 j) = core (bufp s1 j)" "core (bufp s2 b) = core (drop_buf (bufp s1 b))"
      "coherent s1 \<and> (dirty (bufp s1 b) \<or> b_data (bufp s1 b) = disk s1 ! unat (b_blockno (bufp s1 b))) \<longrightarrow> coherent s2"
    using brelse_ok [OF wf b(2,4) xs] by blast
  have "coherent s2" using s2(8) co b(5,8,10) by (auto simp: same_block_def split: if_splits)
  moreover have ref: "b_refcnt (bufp s2 j) = 0" if "j < NBUF" for j
    using that s2(3) core_fields(5) [of "bufp s2 j" "bufp s1 j"] s2(6) b(9) q
    by (cases "j = b") (auto simp: idle_def quiet_def)
  moreover have "\<exists>i < NBUF. recyclable (bufp s2 i)"
  proof (cases "dirty (bufp s1 b)")
    case False
    then have "\<not> dirty (bufp s2 b)" using core_fields(8) [OF s2(7)] by (simp add: dirty_bit)
    then show ?thesis using ref [OF b(2)] b(2) by (auto simp: recyclable_dirty)
  next
    case True
    then have "dirty (bufp s b)" using b(10) by simp
    moreover obtain i where i: "i < NBUF" "recyclable (bufp s i)" using q by (auto simp: quiet_def)
    ultimately have "i \<noteq> b" by (auto simp: recyclable_dirty)
    then have "recyclable (bufp s2 i)"
      using i b(9) ref [OF i(1)] s2(6) core_fields(8) [of "bufp s2 i" "bufp s1 i"] by (simp add: recyclable_dirty)
    with i(1) show ?thesis by blast
  qed
  ultimately have "quiet p s2" using s2(2) by (simp add: quiet_def bio_ok_def)
  with b(1,6,7,8) s2(1,4,5) show ?thesis by auto
qed

lemma view_length: "bio_wf p s \<Longrightarrow> on_disk blk s \<Longrightarrow> length (view s blk) = BSIZE"
  using bio_wfD(4) [of p s] bio_wfD(6) [of p s "unat blk"]
  by (auto simp: view_def on_disk_def buf_ok_def split: option.split dest: cachedD)

interpretation bc: block_cache "bread p ROOTDEV" "brelse p" "\<lambda>s b. b_data (bufp s b)"
  "\<lambda>blk s. quiet p s \<and> on_disk blk s" view for p :: int
proof
  fix blk s
  assume "quiet p s \<and> on_disk blk s"
  then show "length (view s blk) = BSIZE" by (auto simp: quiet_def bio_ok_def intro: view_length)
  from \<open>quiet p s \<and> on_disk blk s\<close> read_release [of p s blk]
  show "\<exists>b s1 s2. bread p ROOTDEV blk s = Some (b, s1) \<and> b_data (bufp s1 b) = view s blk \<and>
     brelse p b s1 = Some s2 \<and> view s2 = view s \<and> (\<forall>k. quiet p s \<and> on_disk k s \<longrightarrow> quiet p s2 \<and> on_disk k s2)"
    unfolding on_disk_def by metis
qed

section \<open>Writing a block\<close>

text \<open>The holder of a buffer fills it: the block reads as the new contents.\<close>

lemma fill_ok:
  assumes "bio_wf p s" "i < NBUF" "held p (bufp s i)" "same_block ROOTDEV blk (bufp s i)" "length d = BSIZE"
  defines "s' \<equiv> upd_buf i (b_data_update (\<lambda>_. d)) s"
  shows "bio_wf p s'" "view s' = (view s)(blk := d)" "coherent s \<Longrightarrow> coherent s'"
proof -
  have len: "i < length (bufs s)" using bio_wfD(3) [OF assms(1)] assms(2) by simp
  have f: "bufp s' j = (if j = i then (bufp s i)\<lparr>b_data := d\<rparr> else bufp s j)" for j
    using len by (cases "bufp s i") (simp add: s'_def bufp_upd)
  show wf: "bio_wf p s'"
    unfolding s'_def
  proof (rule bio_wf_upd)
    show "buf_ok p (length (disk s)) (b_data_update (\<lambda>_. d) (bufp s i))"
      using bio_wfD(4) [OF assms(1,2)] assms(5) by (auto simp: buf_ok_def idle_def held_def valid_bit)
    show "j = i" if "j < NBUF" "same_block ROOTDEV b (b_data_update (\<lambda>_. d) (bufp s i))" "same_block ROOTDEV b (bufp s j)" for j b
      using bio_wfD(5) [OF assms(1) that(1) assms(2)] that(2,3) by (simp add: same_block_def)
  qed (use assms in simp_all)
  show "coherent s'" if "coherent s"
    unfolding s'_def by (rule coherent_upd [OF that]) (use assms(3) in \<open>simp add: recyclable_def held_def\<close>)
  show "view s' = (view s)(blk := d)"
  proof
    fix b
    have c: "cached s' b = cached s b"
      unfolding cached_def by (rule for_first_cong) (unfold f, simp add: same_block_def)
    show "view s' b = ((view s)(blk := d)) b"
    proof (cases "b = blk")
      case True
      have "cached s blk = Some i" by (rule cached_Some [OF assms(1,2,4)])
      then show ?thesis using True f [of i] c by (simp add: view_def)
    next
      case False
      then have "cached s b \<noteq> Some i" using cachedD [of s b i] assms(4) by (auto simp: same_block_def)
      then show ?thesis using False f c by (auto simp: view_def s'_def split: option.split)
    qed
  qed
qed

definition crash_cfg :: "bcache \<Rightarrow> int \<times> int" where
  "crash_cfg s = (crashn_enable s, crashn s)"

lemma crash_cfg_simps [simp]:
  "crash_cfg (upd_buf i f s) = crash_cfg s" "crash_cfg (count_read s) = crash_cfg s"
  "crash_cfg (to_front i s) = crash_cfg s" "crash_cfg (s\<lparr>bc_lock := l\<rparr>) = crash_cfg s"
  "crash_cfg (s\<lparr>disk := dk\<rparr>) = crash_cfg s" "crash_cfg (s\<lparr>num_disk_reads := n\<rparr>) = crash_cfg s"
  by (simp_all add: crash_cfg_def)

lemma no_crash_cfg: "crash_cfg s' = crash_cfg s \<Longrightarrow> no_crash s' = no_crash s"
  by (simp add: crash_cfg_def no_crash_def)

lemma bc_cfg:
  "acquire_bc s = Some s' \<Longrightarrow> crash_cfg s' = crash_cfg s"
  "release_bc s = Some s' \<Longrightarrow> crash_cfg s' = crash_cfg s"
  "lock_buf p b s = Some s' \<Longrightarrow> crash_cfg s' = crash_cfg s"
  by (auto simp: acquire_bc_def release_bc_def lock_buf_def bind_simps)

lemma bget_cfg:
  assumes "bget p d blk s = Some (b, s')"
  shows "crash_cfg s' = crash_cfg s"
proof -
  obtain s1 hit where 1: "acquire_bc s = Some s1"
    "scan_next (same_block d blk) (bufs s1) (b_next (bufp s1 HEAD)) = Some hit"
    using assms by (auto simp: bget_def bind_simps)
  have c1: "crash_cfg s1 = crash_cfg s" using bc_cfg(1) [OF 1(1)] .
  show ?thesis
  proof (cases hit)
    case (Some i)
    with assms 1 obtain s2 where "release_bc (upd_buf i (b_refcnt_update (\<lambda>r. r + 1)) s1) = Some s2"
      "lock_buf p i s2 = Some s'" by (auto simp: bget_def bind_simps Let_def)
    then show ?thesis using bc_cfg(2,3) c1 by fastforce
  next
    case None
    with assms 1 obtain i s2 where "release_bc (upd_buf i (recycle d blk) s1) = Some s2"
      "lock_buf p i s2 = Some s'" by (auto simp: bget_def bind_simps Let_def split: option.splits)
    then show ?thesis using bc_cfg(2,3) c1 by fastforce
  qed
qed

lemma iderw_cfg: "iderw p b s = Some s' \<Longrightarrow> crash_cfg s' = crash_cfg s"
  by (auto simp: iderw_def Let_def bind_simps split: if_splits)

lemma bread_cfg: "bread p d blk s = Some (b, s') \<Longrightarrow> crash_cfg s' = crash_cfg s"
  by (auto simp: bread_def bind_simps split: if_splits dest!: bget_cfg iderw_cfg)

lemma brelse_cfg: "brelse p b s = Some s' \<Longrightarrow> crash_cfg s' = crash_cfg s"
  by (auto simp: brelse_def acquire_bc_def release_bc_def Let_def bind_simps split: if_splits)

text \<open>Fill, write through and release: the block is on disk and reads back as written.\<close>

lemma write_release:
  assumes q: "quiet p s" and blk: "on_disk blk s" and d: "length d = BSIZE" and nc: "no_crash s"
  shows "\<exists>b s1 s2 s3. bread p ROOTDEV blk s = Some (b, s1) \<and> b_data (bufp s1 b) = view s blk \<and>
     bwrite p b (upd_buf b (b_data_update (\<lambda>_. d)) s1) = Some s2 \<and> brelse p b s2 = Some s3 \<and>
     view s3 = (view s)(blk := d) \<and> disk s3 = (disk s)[unat blk := d] \<and> quiet p s3"
proof -
  have ok: "bio_ok p s" using q by (simp add: quiet_def)
  obtain b s1 where b: "bread p ROOTDEV blk s = Some (b, s1)" "b < NBUF" "bio_ok p s1" "held p (bufp s1 b)"
      "same_block ROOTDEV blk (bufp s1 b)" "b_data (bufp s1 b) = view s blk" "view s1 = view s" "disk s1 = disk s"
      "\<forall>j < NBUF. j \<noteq> b \<longrightarrow> bufp s1 j = bufp s j"
    using bread_ok [OF ok, of blk] q blk by (auto simp: quiet_def on_disk_def)
  have wf: "bio_wf p s1" and co: "coherent s1" using b(3) by (simp_all add: bio_ok_def)
  have len: "b < length (bufs s1)" using bio_wfD(3) [OF wf] b(2) by simp
  define t where "t = upd_buf b (b_data_update (\<lambda>_. d)) s1"
  note t = fill_ok [OF wf b(2,4,5) d, folded t_def]
  have bt: "bufp t b = b_data_update (\<lambda>_. d) (bufp s1 b)" using len by (simp add: t_def bufp_upd)
  have ht: "held p (bufp t b)" "same_block ROOTDEV blk (bufp t b)"
    using b(4,5) by (simp_all add: bt held_def same_block_def)
  have nct: "no_crash t" using nc no_crash_cfg [of t s] bread_cfg [OF b(1)] by (simp add: t_def)
  obtain s2 where s2: "bwrite p b t = Some s2" "bio_wf p s2" "disk s2 = (disk t)[unat blk := b_data (bufp t b)]"
      "bufp s2 b = cleaned (bufp t b)" "\<forall>j. j \<noteq> b \<longrightarrow> bufp s2 j = bufp t j" "view s2 = view t" "coherent t \<longrightarrow> coherent s2"
    using bwrite_ok [OF t(1) nct b(2) ht] by blast
  have h2: "held p (bufp s2 b)" using ht(1) by (simp add: s2(4) held_def cleaned_def)
  obtain xs where xs: "ring (bufs s2) xs" using bio_wfD(2) [OF s2(2)] ..
  obtain s3 where s3: "brelse p b s2 = Some s3" "bio_wf p s3" "idle (bufp s3 b)" "view s3 = view s2" "disk s3 = disk s2"
      "\<forall>j. j \<noteq> b \<longrightarrow> core (bufp s3 j) = core (bufp s2 j)" "core (bufp s3 b) = core (drop_buf (bufp s2 b))"
      "coherent s2 \<and> (dirty (bufp s2 b) \<or> b_data (bufp s2 b) = disk s2 ! unat (b_blockno (bufp s2 b))) \<longrightarrow> coherent s3"
    using brelse_ok [OF s2(2) b(2) h2 xs] by blast
  have dk: "disk s2 = (disk s)[unat blk := d]" using s2(3) b(8) by (simp add: bt) (simp add: t_def)
  have "b_data (bufp s2 b) = disk s2 ! unat (b_blockno (bufp s2 b))"
    using blk b(5) by (simp add: dk s2(4) bt cleaned_def same_block_def on_disk_def)
  then have "coherent s3" using s3(8) s2(7) t(3) co by blast
  moreover have "b_refcnt (bufp s3 j) = 0" if "j < NBUF" for j
  proof (cases "j = b")
    case False
    then have "core (bufp s3 j) = core (bufp s j)" using s3(6) s2(5) b(9) that by (simp add: t_def bufp_upd)
    then show ?thesis using core_fields(5) [of "bufp s3 j" "bufp s j"] q that by (simp add: quiet_def)
  qed (use s3(3) in \<open>simp add: idle_def\<close>)
  moreover have "\<not> dirty (bufp s3 b)"
    using core_fields(8) [OF s3(7)] by (simp add: s2(4) cleaned_def flag_simps)
  ultimately have "quiet p s3" using s3(2) b(2) by (auto simp: quiet_def bio_ok_def recyclable_dirty)
  moreover have "view s3 = (view s)(blk := d)" using s3(4) s2(6) t(2) b(7) by simp
  ultimately show ?thesis using b(1,6) s2(1) s3(1,5) dk by (auto simp: t_def)
qed

section \<open>The cache after boot\<close>

definition buf_zero :: buf where
  "buf_zero = \<lparr>b_flags = 0, b_dev = 0, b_blockno = 0,
     b_lock = \<lparr>slocked = 0, slk = \<lparr>locked = 0, lkname = [], lkcpu = None\<rparr>, slname = [], slpid = 0\<rparr>,
     b_refcnt = 0, b_prev = 0, b_next = 0, b_data = replicate BSIZE 0\<rparr>"

definition bcache_boot :: "u8 list list \<Rightarrow> bcache" where
  "bcache_boot dk = binit \<lparr>bc_lock = \<lparr>locked = 0, lkname = [], lkcpu = None\<rparr>, bufs = replicate (Suc NBUF) buf_zero,
     disk = dk, crashn_enable = 0, crashn = 0, num_disk_reads = 0\<rparr>"

lemma core_lock: "core b = core c \<Longrightarrow> core (b\<lparr>b_lock := l\<rparr>) = core (c\<lparr>b_lock := l\<rparr>)"
  by (cases b; cases c) (simp add: core_def)

text \<open>What \<open>binit\<close> leaves of a buffer apart from its links.\<close>

lemma binit_step_core:
  assumes "b < length (bufs s)"
  shows "core (bufp (binit_step b s) x) =
     core (if x = b then (bufp s x)\<lparr>b_lock := initsleeplock ''buffer''\<rparr> else bufp s x)"
proof -
  define t where "t = upd_buf b (b_prev_update (\<lambda>_. HEAD)) (upd_buf b (b_next_update (\<lambda>_. b_next (bufp s HEAD))) s)"
  have t: "core (bufp t x) = core (bufp s x)" for x by (simp add: t_def core_upd)
  have "core (bufp (binit_step b s) x) = core (bufp (upd_buf b (b_lock_update (\<lambda>_. initsleeplock ''buffer'')) t) x)"
    by (simp add: binit_step_def Let_def t_def core_upd)
  also have "\<dots> = core (if x = b then (bufp t x)\<lparr>b_lock := initsleeplock ''buffer''\<rparr> else bufp t x)"
    using assms by (simp add: bufp_upd t_def)
  also have "\<dots> = core (if x = b then (bufp s x)\<lparr>b_lock := initsleeplock ''buffer''\<rparr> else bufp s x)"
    using t [of x] by (simp add: core_lock [OF t])
  finally show ?thesis .
qed

lemma binit_fold_core:
  assumes "k \<le> NBUF" "length (bufs s) = Suc NBUF"
  shows "x < k \<Longrightarrow> core (bufp (fold binit_step [0..<k] s) x) = core ((bufp s x)\<lparr>b_lock := initsleeplock ''buffer''\<rparr>)"
    and "k \<le> x \<Longrightarrow> core (bufp (fold binit_step [0..<k] s) x) = core (bufp s x)"
    and "disk (fold binit_step [0..<k] s) = disk s" "bc_lock (fold binit_step [0..<k] s) = bc_lock s"
    and "length (bufs (fold binit_step [0..<k] s)) = Suc NBUF"
    and "crash_cfg (fold binit_step [0..<k] s) = crash_cfg s"
  using assms
proof (induction k arbitrary: x)
  case (Suc k)
  note step = binit_step_core [of k "fold binit_step [0..<k] s"]
  {
    case 1
    then show ?case
      using step [of x] Suc.IH(1,2) [of x] Suc.IH(5)
      by (cases "x = k"; cases "bufp (fold binit_step [0..<k] s) k"; cases "bufp s k") (auto simp: core_def)
  next
    case 2
    then show ?case using step [of x] Suc.IH(2) [of x] Suc.IH(5) by simp
  next
    case 3 then show ?case using Suc.IH(3) by simp
  next
    case 4 then show ?case using Suc.IH(4) by simp
  next
    case 5 then show ?case using Suc.IH(5) by simp
  next
    case 6 then show ?case using Suc.IH(6) by (simp add: binit_step_def Let_def)
  }
qed simp_all

lemma bcache_boot_core:
  "x < NBUF \<Longrightarrow> core (bufp (bcache_boot dk) x) = core (buf_zero\<lparr>b_lock := initsleeplock ''buffer''\<rparr>)"
  "disk (bcache_boot dk) = dk" "lk_free (bc_lock (bcache_boot dk))" "no_crash (bcache_boot dk)"
  "crashn_enable (bcache_boot dk) = 0"
proof -
  define s0 where "s0 = \<lparr>bc_lock = initlock ''bcache'', bufs = replicate (Suc NBUF) buf_zero, disk = dk,
     crashn_enable = 0, crashn = 0, num_disk_reads = 0\<rparr>"
  define s1 where "s1 = upd_buf HEAD (b_next_update (\<lambda>_. HEAD)) (upd_buf HEAD (b_prev_update (\<lambda>_. HEAD)) s0)"
  have eq: "bcache_boot dk = fold binit_step [0..<NBUF] s1"
    by (simp add: bcache_boot_def binit_def Let_def s1_def s0_def)
  have len: "length (bufs s1) = Suc NBUF" by (simp add: s1_def s0_def)
  note f = binit_fold_core [OF order_refl len]
  have "bufp s1 x = buf_zero" if "x < NBUF" for x
    using that by (simp add: s1_def bufp_upd s0_def del: replicate_Suc)
  then show "x < NBUF \<Longrightarrow> core (bufp (bcache_boot dk) x) = core (buf_zero\<lparr>b_lock := initsleeplock ''buffer''\<rparr>)"
    using f(1) [of x] by (simp add: eq)
  show "disk (bcache_boot dk) = dk" "lk_free (bc_lock (bcache_boot dk))"
    using f(3,4) by (simp_all add: eq s1_def s0_def initlock_free)
  show "crashn_enable (bcache_boot dk) = 0" "no_crash (bcache_boot dk)"
    using f(6) by (simp_all add: eq s1_def s0_def crash_cfg_def no_crash_def)
qed

lemma bcache_boot_quiet:
  assumes "\<forall>d \<in> set dk. length d = BSIZE"
  shows "quiet p (bcache_boot dk)"
proof -
  let ?s = "bcache_boot dk"
  have f: "b_flags (bufp ?s x) = 0" "b_dev (bufp ?s x) = 0" "b_lock (bufp ?s x) = initsleeplock ''buffer''"
    "b_refcnt (bufp ?s x) = 0" "length (b_data (bufp ?s x)) = BSIZE" if "x < NBUF" for x
    using core_fields [OF bcache_boot_core(1) [OF that]] by (simp_all add: buf_zero_def)
  have "ring (bufs ?s) (rev [0..<NBUF])"
    unfolding bcache_boot_def by (rule binit_ring) simp
  moreover have "buf_ok p (length (disk ?s)) (bufp ?s x)" if "x < NBUF" for x
    using f [OF that] by (simp add: buf_ok_def idle_def)
  ultimately have "bio_wf p ?s"
    using bcache_boot_core(2,3) [of dk] assms f(2) by (auto simp: bio_wf_def same_block_def ROOTDEV_def)
  moreover have "coherent ?s" using f(2) by (simp add: coherent_def ROOTDEV_def)
  moreover have "0 < NBUF" by (simp add: NBUF_def)
  ultimately show ?thesis using f(1,4) by (auto simp: quiet_def bio_ok_def recyclable_def)
qed

section \<open>Properties\<close>

text \<open>
  C2. \<open>bread\<close> returns a buffer, locked by the caller, that holds the current contents of the block
  (a cached copy or the disk), when the caller does not hold it already and some buffer is clean and
  unreferenced. It changes the contents of no block, the disk included, and no other buffer.
\<close>

theorem bread_correct:
  assumes "bio_ok p s" and "unat blk < length (disk s)"
    and "\<forall>i < NBUF. same_block ROOTDEV blk (bufp s i) \<longrightarrow> b_refcnt (bufp s i) = 0"
    and "\<exists>i < NBUF. recyclable (bufp s i)"
  shows "\<exists>b s'. bread p ROOTDEV blk s = Some (b, s') \<and> b < NBUF \<and> bio_ok p s' \<and> held p (bufp s' b) \<and>
     same_block ROOTDEV blk (bufp s' b) \<and> b_data (bufp s' b) = view s blk \<and> view s' = view s \<and> disk s' = disk s \<and>
     (\<forall>j < NBUF. j \<noteq> b \<longrightarrow> bufp s' j = bufp s j)"
  using bread_ok [OF assms] by blast

text \<open>
  C17. A block that is read, filled, written with \<open>bwrite\<close> and released is on disk, reads back as
  written, and no other block changes.
\<close>

theorem block_write_read:
  assumes "quiet p s" "on_disk blk s" "length d = BSIZE" "no_crash s"
  shows "\<exists>s'. do { (b, s) \<leftarrow> bread p ROOTDEV blk s;
               s \<leftarrow> bwrite p b (upd_buf b (b_data_update (\<lambda>_. d)) s);
               brelse p b s } = Some s' \<and>
     disk s' = (disk s)[unat blk := d] \<and> view s' = (view s)(blk := d) \<and>
     (\<exists>b s''. bread p ROOTDEV blk s' = Some (b, s'') \<and> b_data (bufp s'' b) = d)"
proof -
  obtain b s1 s2 s3 where w: "bread p ROOTDEV blk s = Some (b, s1)"
      "bwrite p b (upd_buf b (b_data_update (\<lambda>_. d)) s1) = Some s2" "brelse p b s2 = Some s3"
      "view s3 = (view s)(blk := d)" "disk s3 = (disk s)[unat blk := d]" "quiet p s3"
    using write_release [OF assms] by blast
  have "on_disk blk s3" using assms(2) w(5) by (simp add: on_disk_def)
  with read_release [OF w(6)] obtain b' s4 where "bread p ROOTDEV blk s3 = Some (b', s4)"
      "b_data (bufp s4 b') = view s3 blk" by blast
  with w show ?thesis by simp
qed

text \<open>
  C33. The cache that \<open>binit\<close> sets up is ready for use: every buffer is in the ring, idle, and no block is cached.
\<close>

theorem binit_ready:
  assumes "\<forall>d \<in> set dk. length d = BSIZE"
  shows "quiet p (bcache_boot dk) \<and> ring (bufs (bcache_boot dk)) (rev [0..<NBUF]) \<and>
     disk (bcache_boot dk) = dk \<and> (\<forall>blk. cached (bcache_boot dk) blk = None)"
proof -
  have "cached (bcache_boot dk) blk = None" for blk
    using core_fields(2) [OF bcache_boot_core(1)]
    by (intro cached_None) (simp add: same_block_def buf_zero_def ROOTDEV_def)
  moreover have "ring (bufs (bcache_boot dk)) (rev [0..<NBUF])"
    unfolding bcache_boot_def by (rule binit_ring) simp
  ultimately show ?thesis using bcache_boot_quiet [OF assms] bcache_boot_core(2) by blast
qed

definition disk_demo :: "u8 list list" where
  "disk_demo = [replicate BSIZE 0, replicate BSIZE 1, replicate BSIZE 2]"

lemma disk_demo_ok: "\<forall>d \<in> set disk_demo. length d = BSIZE" "length disk_demo = 3"
  by (simp_all add: disk_demo_def)

lemma boot_uncached: "i < NBUF \<Longrightarrow> \<not> same_block ROOTDEV blk (bufp (bcache_boot dk) i)"
  using core_fields(2) [OF bcache_boot_core(1)] by (simp add: same_block_def buf_zero_def ROOTDEV_def)

theorem bread_correct_witness:
  "\<exists>b s'. bread 1 ROOTDEV 2 (bcache_boot disk_demo) = Some (b, s') \<and> b_data (bufp s' b) = replicate BSIZE 2"
proof -
  have q: "quiet 1 (bcache_boot disk_demo)" by (rule bcache_boot_quiet [OF disk_demo_ok(1)])
  have "view (bcache_boot disk_demo) 2 = replicate BSIZE 2"
    using view_uncached [of 2 "bcache_boot disk_demo"] boot_uncached
    by (simp add: bcache_boot_core disk_demo_def)
  moreover have "\<exists>b s'. bread 1 ROOTDEV 2 (bcache_boot disk_demo) = Some (b, s') \<and> b < NBUF \<and> bio_ok 1 s' \<and>
     held 1 (bufp s' b) \<and> same_block ROOTDEV 2 (bufp s' b) \<and> b_data (bufp s' b) = view (bcache_boot disk_demo) 2 \<and>
     view s' = view (bcache_boot disk_demo) \<and> disk s' = disk (bcache_boot disk_demo) \<and>
     (\<forall>j < NBUF. j \<noteq> b \<longrightarrow> bufp s' j = bufp (bcache_boot disk_demo) j)"
    by (rule bread_correct) (use q in \<open>auto simp: quiet_def bcache_boot_core disk_demo_ok boot_uncached\<close>)
  ultimately show ?thesis by auto
qed

theorem block_write_read_witness:
  "\<exists>s'. do { (b, s) \<leftarrow> bread 1 ROOTDEV 2 (bcache_boot disk_demo);
             s \<leftarrow> bwrite 1 b (upd_buf b (b_data_update (\<lambda>_. replicate BSIZE 9)) s);
             brelse 1 b s } = Some s' \<and> disk s' ! 2 = replicate BSIZE 9"
  using block_write_read [of 1 "bcache_boot disk_demo" 2 "replicate BSIZE 9"]
  by (auto simp: bcache_boot_quiet disk_demo_ok on_disk_def bcache_boot_core)

theorem binit_ready_witness: "quiet 1 (bcache_boot disk_demo) \<and> disk (bcache_boot disk_demo) = disk_demo"
  using binit_ready [of disk_demo 1] disk_demo_ok by blast

theorem bget_lru_witness:
  "\<exists>s'. bget 1 ROOTDEV 2 (bcache_boot disk_demo) = Some (0, s')"
proof -
  have q: "quiet 1 (bcache_boot disk_demo)" by (rule bcache_boot_quiet [OF disk_demo_ok(1)])
  have "rev [0..<NBUF] = rev [1..<NBUF] @ 0 # []" by (simp add: NBUF_def upt_rec)
  then have r: "ring (bufs (bcache_boot disk_demo)) (rev [1..<NBUF] @ 0 # [])"
    unfolding bcache_boot_def using binit_ring [of "\<lparr>bc_lock = \<lparr>locked = 0, lkname = [], lkcpu = None\<rparr>,
     bufs = replicate (Suc NBUF) buf_zero, disk = disk_demo, crashn_enable = 0, crashn = 0, num_disk_reads = 0\<rparr>"] by simp
  have "recyclable (bufp (bcache_boot disk_demo) 0)"
    using core_fields [OF bcache_boot_core(1), of 0 disk_demo] by (simp add: recyclable_def buf_zero_def NBUF_def)
  then have "\<exists>s'. bget 1 ROOTDEV 2 (bcache_boot disk_demo) = Some (0, s') \<and> ring (bufs s') (rev [1..<NBUF] @ 0 # []) \<and>
     b_dev (bufp s' 0) = ROOTDEV \<and> b_blockno (bufp s' 0) = 2 \<and> b_flags (bufp s' 0) = 0 \<and> held 1 (bufp s' 0)"
    by (intro bget_lru) (use q r in \<open>simp_all add: quiet_def bio_ok_def boot_uncached\<close>)
  then show ?thesis by blast
qed

section \<open>A cache without dirty buffers\<close>

text \<open>
  \<open>clean_st p H s\<close>: process \<open>p\<close> holds exactly the buffers \<open>H\<close>, nothing waits to be written, and no crash is
  scheduled. The four rules below step such a cache through the calls of a block-level algorithm.
\<close>

definition clean_st :: "int \<Rightarrow> nat set \<Rightarrow> bcache \<Rightarrow> bool" where
  "clean_st p H s \<longleftrightarrow> bio_wf p s \<and> crashn_enable s = 0 \<and> H \<subseteq> {..<NBUF} \<and>
     (\<forall>i < NBUF. \<not> dirty (bufp s i) \<and> (held p (bufp s i) \<longleftrightarrow> i \<in> H))"

lemma clean_stD:
  assumes "clean_st p H s"
  shows "bio_wf p s" "no_crash s" "finite H" "i \<in> H \<Longrightarrow> i < NBUF" "i \<in> H \<Longrightarrow> held p (bufp s i)"
    "i < NBUF \<Longrightarrow> \<not> dirty (bufp s i)"
  using assms by (auto simp: clean_st_def no_crash_def intro: finite_subset)

lemma clean_st_idle:
  assumes "clean_st p H s" "i < NBUF" "i \<notin> H"
  shows "recyclable (bufp s i)"
proof -
  have "buf_ok p (length (disk s)) (bufp s i)" "\<not> held p (bufp s i)" "\<not> dirty (bufp s i)"
    using bio_wfD(4) [OF clean_stD(1)] assms by (auto simp: clean_st_def)
  then show ?thesis by (auto simp: buf_ok_def idle_def recyclable_dirty)
qed

lemma enable_cfg: "crash_cfg s' = crash_cfg s \<Longrightarrow> crashn_enable s' = crashn_enable s"
  by (simp add: crash_cfg_def)

lemma clean_bread:
  assumes st: "clean_st p H s" and c: "card H < NBUF" and blk: "on_disk blk s"
    and nh: "\<forall>i \<in> H. \<not> same_block ROOTDEV blk (bufp s i)"
  shows "\<exists>b s'. bread p ROOTDEV blk s = Some (b, s') \<and> b \<notin> H \<and> clean_st p (insert b H) s' \<and> got p s blk b s'"
proof -
  have "\<exists>i < NBUF. i \<notin> H"
  proof (rule ccontr)
    assume "\<not> ?thesis"
    then have "{..<NBUF} \<subseteq> H" by auto
    from card_mono [OF clean_stD(3) [OF st] this] c show False by simp
  qed
  then have rec: "\<exists>i < NBUF. recyclable (bufp s i)" using clean_st_idle [OF st] by blast
  have idle: "\<forall>i < NBUF. same_block ROOTDEV blk (bufp s i) \<longrightarrow> b_refcnt (bufp s i) = 0"
    using clean_st_idle [OF st] nh by (auto simp: recyclable_def)
  obtain b s' where b: "bread p ROOTDEV blk s = Some (b, s')" "got p s blk b s'"
    using bread_wf [OF clean_stD(1) [OF st] _ idle rec] blk by (auto simp: on_disk_def)
  have "b \<notin> H"
  proof
    assume "b \<in> H"
    then have h: "held p (bufp s b)" "b < NBUF" using clean_stD [OF st] by auto
    show False
    proof (cases "\<exists>i < NBUF. same_block ROOTDEV blk (bufp s i)")
      case True
      then obtain i where i: "i < NBUF" "same_block ROOTDEV blk (bufp s i)" by blast
      have "b = i" using bread_hit_ok [OF clean_stD(1) [OF st] i] idle i b(1) by auto
      with i nh \<open>b \<in> H\<close> show False by simp
    next
      case False
      obtain xs where xs: "ring (bufs s) xs" using bio_wfD(2) [OF clean_stD(1) [OF st]] ..
      have "\<exists>i. find (\<lambda>j. recyclable (bufp s j)) (rev xs) = Some i"
        using rec xs by (auto simp: ring_def find_None_iff simp flip: not_None_eq)
      then obtain i where v: "find (\<lambda>j. recyclable (bufp s j)) (rev xs) = Some i" ..
      have "b = i" using bread_miss [OF clean_stD(1) [OF st] _ xs v] False blk b(1) by (auto simp: on_disk_def)
      then show False using find_SomeD [OF v] h by (simp add: recyclable_def held_def)
    qed
  qed
  moreover have "clean_st p (insert b H) s'"
    using st b enable_cfg [OF bread_cfg [OF b(1)]] by (auto simp: clean_st_def got_def)
  ultimately show ?thesis using b by blast
qed

lemma clean_fill:
  assumes "clean_st p H s" "b \<in> H" "same_block ROOTDEV blk (bufp s b)" "length d = BSIZE"
  defines "s' \<equiv> upd_buf b (b_data_update (\<lambda>_. d)) s"
  shows "clean_st p H s'" "view s' = (view s)(blk := d)" "coherent s \<Longrightarrow> coherent s'"
    "bufp s' b = (bufp s b)\<lparr>b_data := d\<rparr>" "\<And>j. j \<noteq> b \<Longrightarrow> bufp s' j = bufp s j"
proof -
  note D = clean_stD [OF assms(1)]
  note f = fill_ok [OF D(1) D(4) [OF assms(2)] D(5) [OF assms(2)] assms(3,4), folded s'_def]
  show "view s' = (view s)(blk := d)" "coherent s \<Longrightarrow> coherent s'" using f by blast+
  have len: "b < length (bufs s)" using bio_wfD(3) [OF D(1)] D(4) [OF assms(2)] by simp
  show b: "bufp s' b = (bufp s b)\<lparr>b_data := d\<rparr>" "\<And>j. j \<noteq> b \<Longrightarrow> bufp s' j = bufp s j"
    using len by (simp_all add: s'_def bufp_upd)
  have "\<not> dirty (bufp s' i) \<and> (held p (bufp s' i) \<longleftrightarrow> i \<in> H)" if "i < NBUF" for i
    using assms(1) that by (cases "i = b") (auto simp: b clean_st_def dirty_bit held_def)
  with assms(1) f(1) show "clean_st p H s'" by (simp add: clean_st_def s'_def)
qed

lemma cleaned_fields [simp]:
  "b_dev (cleaned x) = b_dev x" "b_blockno (cleaned x) = b_blockno x" "b_data (cleaned x) = b_data x"
  "b_refcnt (cleaned x) = b_refcnt x" "b_lock (cleaned x) = b_lock x" "valid (cleaned x)" "\<not> dirty (cleaned x)"
  "held p (cleaned x) = held p x"
  by (simp_all add: cleaned_def flag_simps held_def)

lemma clean_bwrite:
  assumes "clean_st p H s" "b \<in> H" "same_block ROOTDEV blk (bufp s b)"
  shows "\<exists>s'. bwrite p b s = Some s' \<and> clean_st p H s' \<and> disk s' = (disk s)[unat blk := b_data (bufp s b)] \<and>
     bufp s' b = cleaned (bufp s b) \<and> (\<forall>j. j \<noteq> b \<longrightarrow> bufp s' j = bufp s j) \<and> view s' = view s \<and> (coherent s \<longrightarrow> coherent s')"
proof -
  note D = clean_stD [OF assms(1)]
  obtain s' where s': "bwrite p b s = Some s'" "bio_wf p s'" "disk s' = (disk s)[unat blk := b_data (bufp s b)]"
     "bufp s' b = cleaned (bufp s b)" "\<forall>j. j \<noteq> b \<longrightarrow> bufp s' j = bufp s j" "view s' = view s" "coherent s \<longrightarrow> coherent s'"
    using bwrite_ok [OF D(1,2) D(4) [OF assms(2)] D(5) [OF assms(2)] assms(3)] by blast
  have "crashn_enable s' = 0"
    using s'(1) assms(1) by (auto simp: bwrite_def clean_st_def bind_simps Let_def dest!: iderw_cfg enable_cfg split: if_splits)
  moreover have "\<not> dirty (bufp s' i) \<and> (held p (bufp s' i) \<longleftrightarrow> i \<in> H)" if "i < NBUF" for i
    using assms(1) that s'(4,5) by (cases "i = b") (auto simp: clean_st_def)
  ultimately show ?thesis using s' assms(1) by (auto simp: clean_st_def)
qed

lemma clean_brelse:
  assumes "clean_st p H s" "b \<in> H"
  shows "\<exists>s'. brelse p b s = Some s' \<and> clean_st p (H - {b}) s' \<and> disk s' = disk s \<and> view s' = view s \<and>
     (\<forall>j. j \<noteq> b \<longrightarrow> core (bufp s' j) = core (bufp s j)) \<and>
     (coherent s \<and> b_data (bufp s b) = disk s ! unat (b_blockno (bufp s b)) \<longrightarrow> coherent s')"
proof -
  note D = clean_stD [OF assms(1)]
  obtain xs where xs: "ring (bufs s) xs" using bio_wfD(2) [OF D(1)] ..
  obtain s' where s': "brelse p b s = Some s'" "bio_wf p s'" "idle (bufp s' b)" "view s' = view s" "disk s' = disk s"
      "\<forall>j. j \<noteq> b \<longrightarrow> core (bufp s' j) = core (bufp s j)" "core (bufp s' b) = core (drop_buf (bufp s b))"
      "coherent s \<and> (dirty (bufp s b) \<or> b_data (bufp s b) = disk s ! unat (b_blockno (bufp s b))) \<longrightarrow> coherent s'"
    using brelse_ok [OF D(1) D(4) [OF assms(2)] D(5) [OF assms(2)] xs] by blast
  have "\<not> dirty (bufp s' i) \<and> (held p (bufp s' i) \<longleftrightarrow> i \<in> H - {b})" if i: "i < NBUF" for i
  proof (cases "i = b")
    case True
    then show ?thesis
      using core_fields(8) [OF s'(7)] D(6) [of b] s'(3) i by (auto simp: dirty_bit held_def idle_def)
  next
    case False
    then have "core (bufp s' i) = core (bufp s i)" using s'(6) by simp
    from core_fields [OF this] show ?thesis using assms(1) i False by (auto simp: clean_st_def held_def)
  qed
  moreover have "crashn_enable s' = 0" using enable_cfg [OF brelse_cfg [OF s'(1)]] assms(1) by (simp add: clean_st_def)
  ultimately show ?thesis using s' assms(1) by (auto simp: clean_st_def)
qed

lemma clean_view_disk:
  assumes "clean_st p {} s" "coherent s" "on_disk blk s"
  shows "view s blk = disk s ! unat blk"
proof (cases "cached s blk")
  case (Some i)
  then have "i < NBUF" "same_block ROOTDEV blk (bufp s i)" using cachedD by blast+
  with assms(2) clean_st_idle [OF assms(1)] Some show ?thesis
    by (simp add: view_def coherent_def same_block_def)
qed (simp add: view_def)

lemma boot_clean:
  assumes "\<forall>d \<in> set dk. length d = BSIZE"
  shows "clean_st p {} (bcache_boot dk) \<and> coherent (bcache_boot dk)"
  using bcache_boot_quiet [OF assms, of p] core_fields [OF bcache_boot_core(1)] bcache_boot_core(5) [of dk]
  by (auto simp: clean_st_def quiet_def bio_ok_def held_def dirty_bit buf_zero_def)

end
