(* ===== verification/Xk_Log.thy ===== *)
theory Xk_Log
  imports Xk_Bio
begin

text \<open>
  The lower half of \<open>kernel/fs.c\<close>: the state of the file system, the redo log (\<open>log_write\<close>, \<open>log_commit_tx\<close>,
  \<open>log_apply\<close>) and the free-block bitmap (\<open>bmark\<close>, \<open>balloc\<close>, \<open>bfree\<close>). Every operation takes the process
  that runs it, for the sleep locks.
\<close>

section \<open>State\<close>

record inode =
  i_dev :: u32
  i_inum :: u32
  i_ref :: int
  i_valid :: int
  i_lock :: sleeplock
  i_type :: int
  i_devid :: int
  i_size :: u32
  i_data :: "extent list"

definition NINODE :: nat where "NINODE = 50"

text \<open>The globals of \<open>fs.c\<close> (\<open>sb\<close>, \<open>in_mem_cb\<close>, \<open>fslock\<close>, \<open>icache\<close>) on top of the buffer cache.\<close>

record fs =
  fbc :: bcache
  fsb :: superblock
  in_mem_cb :: commit_block
  fslock :: sleeplock
  ic_lock :: spinlock
  ic_inode :: "inode list"
  ic_inodefile :: inode

definition cb_zero :: commit_block where
  "cb_zero = \<lparr>cb_size = 0, cb_flag = 0, cb_target = replicate LOGSIZE 0,
     cb_padding = replicate (BSIZE - 4 * (LOGSIZE + 2)) 0\<rparr>"

text \<open>The buffer cache calls, on the file system state.\<close>

definition fs_bread :: "int \<Rightarrow> u32 \<Rightarrow> u32 \<Rightarrow> fs \<Rightarrow> (nat \<times> fs) option" where
  "fs_bread p dev blk s = do { (b, c) \<leftarrow> bread p dev blk (fbc s); Some (b, s\<lparr>fbc := c\<rparr>) }"

definition fs_bwrite :: "int \<Rightarrow> nat \<Rightarrow> fs \<Rightarrow> fs option" where
  "fs_bwrite p b s = do { c \<leftarrow> bwrite p b (fbc s); Some (s\<lparr>fbc := c\<rparr>) }"

definition fs_brelse :: "int \<Rightarrow> nat \<Rightarrow> fs \<Rightarrow> fs option" where
  "fs_brelse p b s = do { c \<leftarrow> brelse p b (fbc s); Some (s\<lparr>fbc := c\<rparr>) }"

definition fs_upd :: "nat \<Rightarrow> (buf \<Rightarrow> buf) \<Rightarrow> fs \<Rightarrow> fs" where
  "fs_upd b f s = s\<lparr>fbc := upd_buf b f (fbc s)\<rparr>"

abbreviation fs_data :: "fs \<Rightarrow> nat \<Rightarrow> u8 list" where "fs_data s b \<equiv> b_data (bufp (fbc s) b)"

definition lock_fs :: "int \<Rightarrow> fs \<Rightarrow> fs option" where
  "lock_fs p s = do { l \<leftarrow> acquiresleep p (fslock s); Some (s\<lparr>fslock := l\<rparr>) }"

definition unlock_fs :: "fs \<Rightarrow> fs option" where
  "unlock_fs s = do { l \<leftarrow> releasesleep (fslock s); Some (s\<lparr>fslock := l\<rparr>) }"

section \<open>The log\<close>

text \<open>
  One round of the loop of \<open>log_apply\<close>, and the state after \<open>i\<close> rounds. An index past the \<open>target\<close> array is
  undefined behaviour and does not return.
\<close>

definition log_install_step :: "int \<Rightarrow> commit_block \<Rightarrow> nat \<Rightarrow> fs \<Rightarrow> fs option" where
  "log_install_step p cb i s =
     (if i \<ge> length (cb_target cb) then None else do {
       (src, s) \<leftarrow> fs_bread p ROOTDEV (sb_logstart (fsb s) + 1 + of_nat i) s;
       (dst, s) \<leftarrow> fs_bread p ROOTDEV (cb_target cb ! i) s;
       let s = fs_upd dst (b_data_update (\<lambda>_. fs_data s src)) s;
       s \<leftarrow> fs_bwrite p dst s;
       s \<leftarrow> fs_brelse p dst s;
       fs_brelse p src s })"

primrec log_install :: "int \<Rightarrow> commit_block \<Rightarrow> nat \<Rightarrow> fs \<Rightarrow> fs option" where
  "log_install p cb 0 s = Some s"
| "log_install p cb (Suc i) s = do { s \<leftarrow> log_install p cb i s; log_install_step p cb i s }"

definition log_apply :: "int \<Rightarrow> fs \<Rightarrow> fs option" where
  "log_apply p s = do {
     (b, s) \<leftarrow> fs_bread p ROOTDEV (sb_logstart (fsb s)) s;
     let cb = dec_commit (fs_data s b);
     s \<leftarrow> fs_brelse p b s;
     s \<leftarrow> (if cb_flag cb = 1 then log_install p cb (unat (cb_size cb)) s else Some s);
     (b, s) \<leftarrow> fs_bread p ROOTDEV (sb_logstart (fsb s)) s;
     let s = fs_upd b (b_data_update (\<lambda>_. replicate BSIZE 0)) s;
     s \<leftarrow> fs_bwrite p b s;
     s \<leftarrow> fs_brelse p b s;
     Some (s\<lparr>in_mem_cb := cb_zero\<rparr>) }"

definition log_commit_tx :: "int \<Rightarrow> fs \<Rightarrow> fs option" where
  "log_commit_tx p s = do {
     s \<leftarrow> lock_fs p s;
     (b, s) \<leftarrow> fs_bread p ROOTDEV (sb_logstart (fsb s)) s;
     let s = s\<lparr>in_mem_cb := (in_mem_cb s)\<lparr>cb_flag := 1\<rparr>\<rparr>;
     let s = fs_upd b (b_data_update (\<lambda>_. enc_commit (in_mem_cb s))) s;
     s \<leftarrow> fs_bwrite p b s;
     s \<leftarrow> fs_brelse p b s;
     s \<leftarrow> unlock_fs s;
     log_apply p s }"

definition log_write :: "int \<Rightarrow> nat \<Rightarrow> fs \<Rightarrow> fs option" where
  "log_write p b s = do {
     s \<leftarrow> lock_fs p s;
     let blocknom_orig = b_blockno (bufp (fbc s) b);
     let s = fs_upd b (b_blockno_update (\<lambda>_. sb_logstart (fsb s) + 1 + cb_size (in_mem_cb s))) s;
     s \<leftarrow> fs_bwrite p b s;
     let s = fs_upd b (b_blockno_update (\<lambda>_. blocknom_orig)) s;
     let s = s\<lparr>in_mem_cb := (in_mem_cb s)\<lparr>cb_size := cb_size (in_mem_cb s) + 1\<rparr>\<rparr>;
     unlock_fs s }"

definition readsb :: "int \<Rightarrow> u32 \<Rightarrow> fs \<Rightarrow> fs option" where
  "readsb p dev s = do {
     (b, s) \<leftarrow> fs_bread p dev 1 s;
     let s = s\<lparr>fsb := dec_superblock (fs_data s b)\<rparr>;
     fs_brelse p b s }"

section \<open>The free-block bitmap\<close>

definition bit_set :: "u8 list \<Rightarrow> nat \<Rightarrow> bool" where
  "bit_set bm bi \<longleftrightarrow> bm ! (bi div 8) AND push_bit (bi mod 8) 1 \<noteq> 0"

text \<open>The loop of \<open>bmark\<close> over the bit numbers \<open>start .. end\<close>; clearing a clear bit panics.\<close>

fun bmark_loop :: "bool \<Rightarrow> nat list \<Rightarrow> u8 list \<Rightarrow> u8 list option" where
  "bmark_loop used [] bm = Some bm"
| "bmark_loop used (bi # bis) bm =
     (let m = push_bit (bi mod 8) 1 in
      if used then bmark_loop used bis (bm[bi div 8 := bm ! (bi div 8) OR m])
      else if bm ! (bi div 8) AND m = 0 then None
      else bmark_loop used bis (bm[bi div 8 := bm ! (bi div 8) AND NOT m]))"

definition bmark :: "int \<Rightarrow> nat \<Rightarrow> nat \<Rightarrow> nat \<Rightarrow> bool \<Rightarrow> fs \<Rightarrow> fs option" where
  "bmark p bp start end used s = do {
     bm \<leftarrow> bmark_loop used [start..<Suc end] (fs_data s bp);
     let s = fs_upd bp (b_data_update (\<lambda>_. bm)) s;
     let s = fs_upd bp (b_flags_update (\<lambda>f. f OR B_DIRTY)) s;
     s \<leftarrow> log_write p bp s;
     s \<leftarrow> log_commit_tx p s;
     Some (fs_upd bp (b_flags_update (\<lambda>f. f OR B_DIRTY)) s) }"

text \<open>
  The inner loop of \<open>balloc\<close> on the bitmap block whose first bit is block \<open>b\<close>: \<open>sz\<close> free blocks in
  a row so far, the first of them \<open>i\<close>. It stops with the first and last bit of a free run of \<open>n\<close>.
\<close>

function balloc_scan :: "u8 list \<Rightarrow> nat \<Rightarrow> nat \<Rightarrow> nat \<Rightarrow> nat \<Rightarrow> nat \<Rightarrow> nat \<Rightarrow> (nat \<times> nat) option" where
  "balloc_scan bm b sbsz n bi sz i =
     (if bi < BPB \<and> b + bi < sbsz then
        if \<not> bit_set bm bi then
          let sz = sz + 1; i = (if sz = 1 then bi else i)
          in if sz = n then Some (i, bi) else balloc_scan bm b sbsz n (bi + 1) sz i
        else balloc_scan bm b sbsz n (bi + 1) 0 0
      else None)"
  by pat_completeness auto
termination
  by (relation "measure (\<lambda>(bm, b, sbsz, n, bi, sz, i). BPB - bi)") auto

declare balloc_scan.simps [simp del]

definition BBLOCK :: "u32 \<Rightarrow> superblock \<Rightarrow> u32" where
  "BBLOCK b sb = b div of_nat BPB + sb_bmapstart sb"

text \<open>The outer loop, over the first block numbers of the bitmap sectors.\<close>

fun balloc_loop :: "int \<Rightarrow> u32 \<Rightarrow> nat \<Rightarrow> nat list \<Rightarrow> fs \<Rightarrow> (u32 \<times> fs) option" where
  "balloc_loop p dev n [] s = None"
| "balloc_loop p dev n (b # bs) s = do {
     (bp, s) \<leftarrow> fs_bread p dev (BBLOCK (of_nat b) (fsb s)) s;
     case balloc_scan (fs_data s bp) b (unat (sb_size (fsb s))) n 0 0 0 of
       Some (i, bi) \<Rightarrow> do {
         s \<leftarrow> bmark p bp i bi True s;
         s \<leftarrow> fs_brelse p bp s;
         Some (of_nat (b + i), s) }
     | None \<Rightarrow> do {
         s \<leftarrow> fs_brelse p bp s;
         balloc_loop p dev n bs s } }"

definition balloc :: "int \<Rightarrow> u32 \<Rightarrow> u32 \<Rightarrow> fs \<Rightarrow> (u32 \<times> fs) option" where
  "balloc p dev n s =
     balloc_loop p dev (unat n) (map (\<lambda>k. k * BPB) [0..<(unat (sb_size (fsb s)) + BPB - 1) div BPB]) s"

definition bfree :: "int \<Rightarrow> u32 \<Rightarrow> u32 \<Rightarrow> u32 \<Rightarrow> fs \<Rightarrow> fs option" where
  "bfree p dev b n s =
     (if n < 1 then None
      else if BBLOCK b (fsb s) \<noteq> BBLOCK (b + n - 1) (fsb s) then None
      else do {
        (bp, s) \<leftarrow> fs_bread p dev (BBLOCK b (fsb s)) s;
        s \<leftarrow> bmark p bp (unat (b mod of_nat BPB)) (unat ((b + n - 1) mod of_nat BPB)) False s;
        fs_brelse p bp s })"

section \<open>The bitmap operations\<close>

lemma and_push_bit_zero: "(x AND push_bit k 1 = 0) \<longleftrightarrow> \<not> bit x k" if "k < 8" for x :: u8
proof
  assume "x AND push_bit k 1 = 0"
  then have "\<not> bit (x AND push_bit k 1) k" by simp
  with that show "\<not> bit x k" by (simp add: bit_simps)
next
  assume "\<not> bit x k"
  then show "x AND push_bit k 1 = 0" by (intro bit_word_eqI) (auto simp: bit_simps)
qed

lemma bit_set_bit: "bit_set bm k \<longleftrightarrow> bit (bm ! (k div 8)) (k mod 8)"
  unfolding bit_set_def using and_push_bit_zero [of "k mod 8" "bm ! (k div 8)"] by simp

definition set_bit_at :: "bool \<Rightarrow> nat \<Rightarrow> u8 list \<Rightarrow> u8 list" where
  "set_bit_at used bi bm = bm[bi div 8 :=
     (if used then bm ! (bi div 8) OR push_bit (bi mod 8) 1 else bm ! (bi div 8) AND NOT (push_bit (bi mod 8) 1))]"

lemma length_set_bit_at [simp]: "length (set_bit_at used bi bm) = length bm"
  by (simp add: set_bit_at_def)

lemma bit_mask_byte:
  fixes w :: u8
  assumes "m < 8" "j < 8"
  shows "bit (w OR push_bit m 1) j \<longleftrightarrow> j = m \<or> bit w j" "bit (w AND NOT (push_bit m 1)) j \<longleftrightarrow> j \<noteq> m \<and> bit w j"
  using assms by (auto simp: bit_or_iff bit_and_iff bit_not_iff bit_exp_iff)

lemma bit_set_set_bit_at:
  assumes "bi div 8 < length bm"
  shows "bit_set (set_bit_at used bi bm) k = (if k = bi then used else bit_set bm k)"
proof (cases "bi div 8 = k div 8")
  case True
  have e: "k = bi" if "k mod 8 = bi mod 8"
    using that True div_mult_mod_eq [of k 8] div_mult_mod_eq [of bi 8] by linarith
  have "set_bit_at used bi bm ! (k div 8) = (if used then bm ! (k div 8) OR push_bit (bi mod 8) 1
      else bm ! (k div 8) AND NOT (push_bit (bi mod 8) 1))"
    unfolding set_bit_at_def True using assms True by simp
  then show ?thesis
    unfolding bit_set_bit using bit_mask_byte [of "bi mod 8" "k mod 8" "bm ! (k div 8)"] e by auto
next
  case False
  then have "k \<noteq> bi" "set_bit_at used bi bm ! (k div 8) = bm ! (k div 8)"
    by (auto simp: set_bit_at_def)
  then show ?thesis unfolding bit_set_bit by simp
qed

lemma bmark_loop_Cons:
  "bmark_loop used (bi # bis) bm =
     (if used \<or> bit_set bm bi then bmark_loop used bis (set_bit_at used bi bm) else None)"
  by (simp add: set_bit_at_def bit_set_def Let_def)

declare bmark_loop.simps(2) [simp del]

lemma bmark_loop_ok:
  assumes "distinct bis" "\<forall>bi \<in> set bis. bi div 8 < length bm" "used \<or> (\<forall>bi \<in> set bis. bit_set bm bi)"
  shows "\<exists>bm'. bmark_loop used bis bm = Some bm' \<and> length bm' = length bm \<and>
    (\<forall>k. bit_set bm' k = (if k \<in> set bis then used else bit_set bm k))"
  using assms
proof (induction bis arbitrary: bm)
  case (Cons bi bis)
  have "used \<or> (\<forall>k \<in> set bis. bit_set (set_bit_at used bi bm) k)"
    using Cons.prems by (auto simp: bit_set_set_bit_at)
  with Cons.IH [of "set_bit_at used bi bm"] Cons.prems
  obtain bm' where "bmark_loop used bis (set_bit_at used bi bm) = Some bm'" "length bm' = length bm"
    "\<forall>k. bit_set bm' k = (if k \<in> set bis then used else bit_set (set_bit_at used bi bm) k)" by auto
  with Cons.prems show ?case
    by (auto simp: bmark_loop_Cons bit_set_set_bit_at)
qed simp

lemma bmark_loop_panic:
  assumes "distinct bis" "\<forall>bi \<in> set bis. bi div 8 < length bm" "k \<in> set bis" "\<not> bit_set bm k"
  shows "bmark_loop False bis bm = None"
  using assms
proof (induction bis arbitrary: bm)
  case (Cons bi bis)
  then show ?case by (auto simp: bmark_loop_Cons bit_set_set_bit_at)
qed simp

lemma bitmap_eqI:
  assumes "length a = length b" "\<And>k. k < 8 * length a \<Longrightarrow> bit_set a k = bit_set b k"
  shows "a = b"
proof (rule nth_equalityI [OF assms(1)])
  fix i assume i: "i < length a"
  show "a ! i = b ! i"
  proof (rule bit_word_eqI)
    fix j assume "j < LENGTH(8)"
    then have "bit_set a (8 * i + j) = bit_set b (8 * i + j)" using assms(2) i by simp
    then show "bit (a ! i) j = bit (b ! i) j" using \<open>j < LENGTH(8)\<close> by (simp add: bit_set_bit)
  qed
qed

text \<open>
  C29. Marking a range of free blocks as used and then freeing it gives the bitmap back; freeing a block that is free panics.
\<close>

theorem bmark_roundtrip:
  assumes "hi < 8 * length bm" "\<forall>k. lo \<le> k \<and> k \<le> hi \<longrightarrow> \<not> bit_set bm k"
  shows "(do { bm1 \<leftarrow> bmark_loop True [lo..<Suc hi] bm; bmark_loop False [lo..<Suc hi] bm1 }) = Some bm \<and>
    (lo \<le> hi \<longrightarrow> bmark_loop False [lo..<Suc hi] bm = None)"
proof -
  have r: "\<forall>bi \<in> set [lo..<Suc hi]. bi div 8 < length bm" using assms(1) by auto
  obtain bm1 where 1: "bmark_loop True [lo..<Suc hi] bm = Some bm1" "length bm1 = length bm"
    "\<forall>k. bit_set bm1 k = (if k \<in> set [lo..<Suc hi] then True else bit_set bm k)"
    using bmark_loop_ok [OF distinct_upt r, of True] by blast
  have r1: "\<forall>bi \<in> set [lo..<Suc hi]. bi div 8 < length bm1" using r 1(2) by (simp del: upt_Suc)
  have s1: "False \<or> (\<forall>bi \<in> set [lo..<Suc hi]. bit_set bm1 bi)" using 1(3) by (simp del: upt_Suc)
  obtain bm2 where 2: "bmark_loop False [lo..<Suc hi] bm1 = Some bm2" "length bm2 = length bm1"
    "\<forall>k. bit_set bm2 k = (if k \<in> set [lo..<Suc hi] then False else bit_set bm1 k)"
    using bmark_loop_ok [OF distinct_upt r1 s1] by blast
  have "bm2 = bm"
    by (rule bitmap_eqI) (use 1 2 assms in auto)
  moreover have "bmark_loop False [lo..<Suc hi] bm = None" if "lo \<le> hi"
    by (rule bmark_loop_panic [OF distinct_upt r, of lo]) (use that assms in auto)
  ultimately show ?thesis using 1(1) 2(1) by (simp del: upt_Suc set_upt)
qed

section \<open>Where balloc finds its blocks\<close>

definition free_run :: "u8 list \<Rightarrow> nat \<Rightarrow> nat \<Rightarrow> bool" where
  "free_run bm lo n \<longleftrightarrow> (\<forall>k. lo \<le> k \<and> k < lo + n \<longrightarrow> \<not> bit_set bm k)"

definition scan_inv :: "u8 list \<Rightarrow> nat \<Rightarrow> nat \<Rightarrow> nat \<Rightarrow> nat \<Rightarrow> bool" where
  "scan_inv bm n bi sz i \<longleftrightarrow> sz < n \<and> sz \<le> bi \<and> (0 < sz \<longrightarrow> i = bi - sz) \<and> free_run bm (bi - sz) sz \<and>
     (sz < bi \<longrightarrow> bit_set bm (bi - sz - 1)) \<and> (\<forall>lo. lo + n \<le> bi \<longrightarrow> \<not> free_run bm lo n)"

lemma scan_inv_free:
  assumes "scan_inv bm n bi sz i" "\<not> bit_set bm bi" "sz + 1 \<noteq> n"
  shows "scan_inv bm n (bi + 1) (sz + 1) (if sz + 1 = 1 then bi else i)"
proof -
  have "\<not> free_run bm lo n" if "lo + n \<le> bi + 1" for lo
  proof (cases "lo + n \<le> bi")
    case False
    with that have "lo + n = bi + 1" by simp
    moreover have "sz < bi" using assms calculation by (auto simp: scan_inv_def)
    ultimately have "lo \<le> bi - sz - 1" "bi - sz - 1 < lo + n" "bit_set bm (bi - sz - 1)"
      using assms by (auto simp: scan_inv_def)
    then show ?thesis by (auto simp: free_run_def)
  qed (use assms in \<open>simp add: scan_inv_def\<close>)
  moreover have "free_run bm (bi - sz) (sz + 1)"
    unfolding free_run_def
  proof (intro allI impI)
    fix k assume "bi - sz \<le> k \<and> k < bi - sz + (sz + 1)"
    moreover have "sz \<le> bi" using assms(1) by (simp add: scan_inv_def)
    ultimately have "k = bi \<or> (bi - sz \<le> k \<and> k < bi - sz + sz)" by auto
    then show "\<not> bit_set bm k" using assms(1,2) by (auto simp: scan_inv_def free_run_def)
  qed
  ultimately show ?thesis using assms by (auto simp: scan_inv_def)
qed

lemma scan_inv_used:
  assumes "scan_inv bm n bi sz i" "bit_set bm bi"
  shows "scan_inv bm n (bi + 1) 0 0"
proof -
  have "\<not> free_run bm lo n" if "lo + n \<le> bi + 1" for lo
    using assms that by (cases "lo + n \<le> bi") (auto simp: scan_inv_def free_run_def)
  with assms show ?thesis by (auto simp: scan_inv_def free_run_def)
qed

lemma balloc_scan_inv:
  assumes "scan_inv bm n bi sz i" "L = min BPB (sbsz - b)" "bi \<le> L"
  shows "case balloc_scan bm b sbsz n bi sz i of
      Some (lo, hi) \<Rightarrow> hi < L \<and> lo + n = Suc hi \<and> free_run bm lo n \<and> (\<forall>k. k < lo \<longrightarrow> \<not> free_run bm k n)
    | None \<Rightarrow> \<forall>lo. lo + n \<le> L \<longrightarrow> \<not> free_run bm lo n"
  using assms
proof (induction bm b sbsz n bi sz i rule: balloc_scan.induct)
  case (1 bm b sbsz n bi sz i)
  note [simp] = balloc_scan.simps [of bm b sbsz n bi sz i]
  consider "\<not> (bi < BPB \<and> b + bi < sbsz)" | "bi < BPB \<and> b + bi < sbsz" "\<not> bit_set bm bi" "sz + 1 = n"
    | "bi < BPB \<and> b + bi < sbsz" "\<not> bit_set bm bi" "sz + 1 \<noteq> n" | "bi < BPB \<and> b + bi < sbsz" "bit_set bm bi" by blast
  then show ?case
  proof cases
    case 1
    with "1.prems" have "bi = L" by auto
    moreover have "balloc_scan bm b sbsz n bi sz i = None" using 1 by auto
    ultimately show ?thesis using "1.prems"(1) by (simp add: scan_inv_def)
  next
    case 2
    have "free_run bm (bi - sz) n" "bi - sz + n = Suc bi"
      using 2 "1.prems"(1) by (auto simp: scan_inv_def free_run_def less_Suc_eq)
    moreover have "\<not> free_run bm k n" if "k < bi - sz" for k
      using "1.prems"(1) that 2(3) by (auto simp: scan_inv_def)
    moreover have "(if sz + 1 = 1 then bi else i) = bi - sz" using "1.prems"(1) by (auto simp: scan_inv_def)
    ultimately show ?thesis using 2 "1.prems"(2) by (auto simp: Let_def)
  next
    case 3
    have "case balloc_scan bm b sbsz n (bi + 1) (sz + 1) (if sz + 1 = 1 then bi else i) of
        Some (lo, hi) \<Rightarrow> hi < L \<and> lo + n = Suc hi \<and> free_run bm lo n \<and> (\<forall>k. k < lo \<longrightarrow> \<not> free_run bm k n)
      | None \<Rightarrow> \<forall>lo. lo + n \<le> L \<longrightarrow> \<not> free_run bm lo n"
      by (rule "1.IH"(1)) (use 3 "1.prems" scan_inv_free in auto)
    with 3 show ?thesis by (simp add: Let_def)
  next
    case 4
    have "case balloc_scan bm b sbsz n (bi + 1) 0 0 of
        Some (lo, hi) \<Rightarrow> hi < L \<and> lo + n = Suc hi \<and> free_run bm lo n \<and> (\<forall>k. k < lo \<longrightarrow> \<not> free_run bm k n)
      | None \<Rightarrow> \<forall>lo. lo + n \<le> L \<longrightarrow> \<not> free_run bm lo n"
      by (rule "1.IH"(2)) (use 4 "1.prems" scan_inv_used in auto)
    with 4 show ?thesis by simp
  qed
qed

text \<open>
  C28. In one bitmap sector the search of \<open>balloc\<close> finds the lowest run of \<open>n\<close> free blocks inside the
  file system, and reports none only when there is none.
\<close>

theorem balloc_scan_first_fit:
  assumes "0 < n"
  shows "balloc_scan bm b sbsz n 0 0 0 =
    map_option (\<lambda>lo. (lo, lo + n - 1))
      (for_first (\<lambda>lo. lo + n \<le> min BPB (sbsz - b) \<and> free_run bm lo n) 0 (min BPB (sbsz - b)))"
proof -
  let ?L = "min BPB (sbsz - b)"
  have "scan_inv bm n 0 0 0" using assms by (simp add: scan_inv_def free_run_def)
  note r = balloc_scan_inv [OF this refl]
  show ?thesis
  proof (cases "balloc_scan bm b sbsz n 0 0 0")
    case None
    with r [of sbsz b] have "for_first (\<lambda>lo. lo + n \<le> ?L \<and> free_run bm lo n) 0 ?L = None"
      by (auto simp: for_first_None)
    with None show ?thesis by simp
  next
    case (Some x)
    obtain lo hi where x: "x = (lo, hi)" by fastforce
    with r [of sbsz b] Some have "hi < ?L" "lo + n = Suc hi" "free_run bm lo n" "\<forall>k. k < lo \<longrightarrow> \<not> free_run bm k n" by simp_all
    then have "for_first (\<lambda>lo. lo + n \<le> ?L \<and> free_run bm lo n) 0 ?L = Some lo"
      unfolding for_first_Some using assms by auto
    with Some x \<open>lo + n = Suc hi\<close> show ?thesis by simp
  qed
qed

section \<open>Replaying the log\<close>

definition fs_ready :: "int \<Rightarrow> fs \<Rightarrow> bool" where
  "fs_ready p s \<longleftrightarrow> clean_st p {} (fbc s) \<and> coherent (fbc s)"

abbreviation fview :: "fs \<Rightarrow> u32 \<Rightarrow> u8 list" where "fview s \<equiv> view (fbc s)"

abbreviation log_slot :: "superblock \<Rightarrow> nat \<Rightarrow> u32" where
  "log_slot sb i \<equiv> sb_logstart sb + 1 + of_nat i"

text \<open>Overwriting one block through the cache, with the block read and released by the caller.\<close>

lemma overwrite_ok:
  assumes st: "clean_st p H c" and card: "card H < NBUF" and blk: "on_disk blk c"
    and nh: "\<forall>i \<in> H. \<not> same_block ROOTDEV blk (bufp c i)"
  shows "\<exists>b c1. bread p ROOTDEV blk c = Some (b, c1) \<and> b \<notin> H \<and> b_data (bufp c1 b) = view c blk \<and>
     (\<forall>j \<in> H. bufp c1 j = bufp c j) \<and>
     (\<forall>d. length d = BSIZE \<longrightarrow> (\<exists>c2 c3. bwrite p b (upd_buf b (b_data_update (\<lambda>_. d)) c1) = Some c2 \<and>
        brelse p b c2 = Some c3 \<and> clean_st p H c3 \<and> view c3 blk = d \<and> disk c3 = (disk c)[unat blk := d] \<and>
        (coherent c \<longrightarrow> coherent c3 \<and> view c3 = (view c)(blk := d)) \<and> (\<forall>j \<in> H. core (bufp c3 j) = core (bufp c j))))"
proof -
  obtain b c1 where b: "bread p ROOTDEV blk c = Some (b, c1)" "b \<notin> H" "clean_st p (insert b H) c1" "got p c blk b c1"
    using clean_bread [OF st card blk nh] by blast
  have c1: "coherent c \<longrightarrow> coherent c1 \<and> view c1 = view c" "disk c1 = disk c" "same_block ROOTDEV blk (bufp c1 b)"
      "b_data (bufp c1 b) = view c blk" "\<forall>j < NBUF. j \<noteq> b \<longrightarrow> bufp c1 j = bufp c j"
    using b(4) by (auto simp: got_def)
  have H: "bufp c1 j = bufp c j" if "j \<in> H" for j
    using c1(5) that b(2) clean_stD(4) [OF st] by auto
  have "\<exists>c2 c3. bwrite p b (upd_buf b (b_data_update (\<lambda>_. d)) c1) = Some c2 \<and>
        brelse p b c2 = Some c3 \<and> clean_st p H c3 \<and> view c3 blk = d \<and> disk c3 = (disk c)[unat blk := d] \<and>
        (coherent c \<longrightarrow> coherent c3 \<and> view c3 = (view c)(blk := d)) \<and> (\<forall>j \<in> H. core (bufp c3 j) = core (bufp c j))" if d: "length d = BSIZE" for d
  proof -
    define t where "t = upd_buf b (b_data_update (\<lambda>_. d)) c1"
    note t = clean_fill [OF b(3) insertI1 c1(3) d, folded t_def]
    have bt: "same_block ROOTDEV blk (bufp t b)" using c1(3) by (simp add: t(4) same_block_def)
    obtain c2 where c2: "bwrite p b t = Some c2" "clean_st p (insert b H) c2" "disk c2 = (disk t)[unat blk := b_data (bufp t b)]"
        "bufp c2 b = cleaned (bufp t b)" "\<forall>j. j \<noteq> b \<longrightarrow> bufp c2 j = bufp t j" "view c2 = view t" "coherent t \<longrightarrow> coherent c2"
      using clean_bwrite [OF t(1) insertI1 bt] by blast
    obtain c3 where c3: "brelse p b c2 = Some c3" "clean_st p (insert b H - {b}) c3" "disk c3 = disk c2" "view c3 = view c2"
        "\<forall>j. j \<noteq> b \<longrightarrow> core (bufp c3 j) = core (bufp c2 j)"
        "coherent c2 \<and> b_data (bufp c2 b) = disk c2 ! unat (b_blockno (bufp c2 b)) \<longrightarrow> coherent c3"
      using clean_brelse [OF c2(2) insertI1] by blast
    have dk: "disk c2 = (disk c)[unat blk := d]" using c2(3) c1(2) t(4) by (simp add: t_def)
    moreover have "b_data (bufp c2 b) = disk c2 ! unat (b_blockno (bufp c2 b))"
      using blk bt by (simp add: dk c2(4) t(4) same_block_def on_disk_def)
    moreover have "core (bufp c3 j) = core (bufp c j)" if "j \<in> H" for j
    proof -
      have "j \<noteq> b" using that b(2) by auto
      then show ?thesis using c3(5) c2(5) t(5) H [OF that] by simp
    qed
    ultimately show ?thesis
      using c2 c3 t(2,3) c1(1) b(2) by (auto simp: t_def [symmetric])
  qed
  with b(1,2) c1(4) H show ?thesis by auto
qed

lemma fs_upd_fbc [simp]: "fbc (fs_upd b f s) = upd_buf b f (fbc s)" "fs_upd b f (s\<lparr>fbc := c\<rparr>) = s\<lparr>fbc := upd_buf b f c\<rparr>"
  by (simp_all add: fs_upd_def)

lemmas fs_ops = fs_bread_def fs_bwrite_def fs_brelse_def

lemma install_step_ok:
  assumes r: "fs_ready p s" and i: "i < length (cb_target cb)"
    and L: "on_disk (log_slot (fsb s) i) (fbc s)" and T: "on_disk (cb_target cb ! i) (fbc s)"
    and ne: "cb_target cb ! i \<noteq> log_slot (fsb s) i"
  shows "\<exists>c. log_install_step p cb i s = Some (s\<lparr>fbc := c\<rparr>) \<and> clean_st p {} c \<and> coherent c \<and>
     view c = (fview s)(cb_target cb ! i := fview s (log_slot (fsb s) i)) \<and> length (disk c) = length (disk (fbc s))"
proof -
  let ?L = "log_slot (fsb s) i" and ?T = "cb_target cb ! i"
  have st: "clean_st p {} (fbc s)" "coherent (fbc s)" using r by (simp_all add: fs_ready_def)
  obtain a c1 where a: "bread p ROOTDEV ?L (fbc s) = Some (a, c1)" "clean_st p {a} c1" "got p (fbc s) ?L a c1"
    using clean_bread [OF st(1) _ L] by (auto simp: NBUF_def)
  have c1: "coherent c1" "view c1 = fview s" "disk c1 = disk (fbc s)" "same_block ROOTDEV ?L (bufp c1 a)"
      "b_data (bufp c1 a) = fview s ?L"
    using a(3) st(2) by (auto simp: got_def)
  have len: "length (fview s ?L) = BSIZE" using view_length [OF clean_stD(1) [OF st(1)] L] .
  have "on_disk ?T c1" using T c1(3) by (simp add: on_disk_def)
  moreover have "\<forall>i \<in> {a}. \<not> same_block ROOTDEV ?T (bufp c1 i)" using c1(4) ne by (auto simp: same_block_def)
  ultimately obtain b c2 c3 c4 where b: "bread p ROOTDEV ?T c1 = Some (b, c2)" "b \<noteq> a" "bufp c2 a = bufp c1 a"
      "bwrite p b (upd_buf b (b_data_update (\<lambda>_. fview s ?L)) c2) = Some c3" "brelse p b c3 = Some c4"
      "clean_st p {a} c4" "coherent c4" "view c4 = (fview s)(?T := fview s ?L)"
      "disk c4 = (disk (fbc s))[unat ?T := fview s ?L]" "core (bufp c4 a) = core (bufp c1 a)"
    using overwrite_ok [OF a(2), of ?T] len c1(1,2,3) by (auto simp: NBUF_def)
  obtain c5 where c5: "brelse p a c4 = Some c5" "clean_st p {} c5" "disk c5 = disk c4" "view c5 = view c4"
      "coherent c4 \<and> b_data (bufp c4 a) = disk c4 ! unat (b_blockno (bufp c4 a)) \<longrightarrow> coherent c5"
    using clean_brelse [OF b(6), of a] by auto
  have "b_data (bufp c4 a) = disk c4 ! unat (b_blockno (bufp c4 a))"
  proof -
    have "b_data (bufp c4 a) = fview s ?L" "b_blockno (bufp c4 a) = ?L"
      using core_fields [OF b(10)] c1(4,5) by (simp_all add: same_block_def)
    moreover have "fview s ?L = disk (fbc s) ! unat ?L" by (rule clean_view_disk [OF st L])
    ultimately show ?thesis using ne b(9) by (simp add: nth_upd flip: word_unat_eq_iff)
  qed
  then have "coherent c5" using c5(5) b(7) by blast
  moreover have "log_install_step p cb i s = Some (s\<lparr>fbc := c5\<rparr>)"
    using i a(1) b(1,3,4,5) c5(1) c1(5) by (simp add: log_install_step_def fs_ops)
  ultimately show ?thesis using c5 b(8,9) by auto
qed

text \<open>The contents of the disk after the first \<open>k\<close> logged blocks went to their targets.\<close>

primrec redo :: "(u32 \<Rightarrow> u8 list) \<Rightarrow> superblock \<Rightarrow> u32 list \<Rightarrow> nat \<Rightarrow> u32 \<Rightarrow> u8 list" where
  "redo v sb ts 0 = v"
| "redo v sb ts (Suc k) = (redo v sb ts k)(ts ! k := v (log_slot sb k))"

text \<open>A commit block that the log code can replay: targets on the disk and outside the log.\<close>

definition replayable :: "superblock \<Rightarrow> nat \<Rightarrow> commit_block \<Rightarrow> bool" where
  "replayable sb nblk cb \<longleftrightarrow> unat (cb_size cb) \<le> LOGSIZE \<and> length (cb_target cb) = LOGSIZE \<and>
     unat (sb_logstart sb) + LOGSIZE < nblk \<and>
     (\<forall>i < unat (cb_size cb). unat (cb_target cb ! i) < nblk \<and>
        (unat (cb_target cb ! i) < unat (sb_logstart sb) \<or> unat (sb_logstart sb) + LOGSIZE < unat (cb_target cb ! i)))"

lemma unat_log_slot:
  assumes "unat (sb_logstart sb) + LOGSIZE < nblk" "nblk \<le> 2 ^ 32" "i < LOGSIZE"
  shows "unat (log_slot sb i) = unat (sb_logstart sb) + 1 + i"
proof -
  have "unat (sb_logstart sb) + 1 + i < 2 ^ 32" "i < 2 ^ 32" using assms by auto
  then show ?thesis by (simp add: unat_word_ariths unat_of_nat)
qed

lemma replayable_slots:
  assumes "replayable sb nblk cb" "nblk \<le> 2 ^ 32" "i < unat (cb_size cb)"
  shows "unat (log_slot sb i) < nblk" "unat (cb_target cb ! i) < nblk" "i < length (cb_target cb)"
    "j < unat (cb_size cb) \<Longrightarrow> cb_target cb ! i \<noteq> log_slot sb j" "cb_target cb ! i \<noteq> sb_logstart sb"
    "log_slot sb i \<noteq> sb_logstart sb"
proof -
  have r: "unat (sb_logstart sb) + LOGSIZE < nblk" "unat (cb_size cb) \<le> LOGSIZE"
    "unat (cb_target cb ! i) < unat (sb_logstart sb) \<or> unat (sb_logstart sb) + LOGSIZE < unat (cb_target cb ! i)"
    using assms(1,3) by (auto simp: replayable_def)
  note u = unat_log_slot [OF r(1) assms(2)]
  show "unat (log_slot sb i) < nblk" using u [of i] r assms(3) by simp
  show "unat (cb_target cb ! i) < nblk" "i < length (cb_target cb)" using assms(1,3) by (auto simp: replayable_def)
  show "cb_target cb ! i \<noteq> log_slot sb j" if "j < unat (cb_size cb)"
    using u [of j] r that by (auto simp: word_unat_eq_iff)
  show "cb_target cb ! i \<noteq> sb_logstart sb" using r by (auto simp: word_unat_eq_iff)
  show "log_slot sb i \<noteq> sb_logstart sb" using u [of i] r assms(3) by (auto simp: word_unat_eq_iff)
qed

lemma redo_outside: "(\<And>i. i < k \<Longrightarrow> ts ! i \<noteq> b) \<Longrightarrow> redo v sb ts k b = v b"
  by (induction k) auto

lemma redo_hit:
  "\<lbrakk>\<And>j. j < n \<Longrightarrow> w (log_slot sb j) = v (log_slot sb j); i < n; ts ! i = b\<rbrakk> \<Longrightarrow> redo w sb ts n b = redo v sb ts n b"
proof (induction n)
  case (Suc n)
  then show ?case by (cases "i = n") (auto simp: less_Suc_eq)
qed simp

text \<open>Replaying from a disk on which the first \<open>k\<close> blocks were already installed ends in the same disk.\<close>

lemma redo_redo:
  assumes "\<And>i j. i < n \<Longrightarrow> j < n \<Longrightarrow> ts ! i \<noteq> log_slot sb j" "k \<le> n"
  shows "redo (redo v sb ts k) sb ts n = redo v sb ts n"
proof
  fix b
  show "redo (redo v sb ts k) sb ts n b = redo v sb ts n b"
  proof (cases "\<exists>i < n. ts ! i = b")
    case True
    then obtain i where "i < n" "ts ! i = b" by blast
    moreover have "redo v sb ts k (log_slot sb j) = v (log_slot sb j)" if "j < n" for j
      using assms that by (intro redo_outside) auto
    ultimately show ?thesis by (intro redo_hit)
  next
    case False
    then show ?thesis using assms(2) by (simp add: redo_outside)
  qed
qed

lemma log_install_ok:
  assumes r: "fs_ready p s" and rep: "replayable (fsb s) (length (disk (fbc s))) cb"
    and n: "length (disk (fbc s)) \<le> 2 ^ 32" and k: "k \<le> unat (cb_size cb)"
  shows "\<exists>c. log_install p cb k s = Some (s\<lparr>fbc := c\<rparr>) \<and> clean_st p {} c \<and> coherent c \<and>
     view c = redo (fview s) (fsb s) (cb_target cb) k \<and> length (disk c) = length (disk (fbc s))"
  using k
proof (induction k)
  case 0
  then show ?case using r by (intro exI [of _ "fbc s"]) (simp add: fs_ready_def)
next
  case (Suc k)
  then obtain c where c: "log_install p cb k s = Some (s\<lparr>fbc := c\<rparr>)" "clean_st p {} c" "coherent c"
    "view c = redo (fview s) (fsb s) (cb_target cb) k" "length (disk c) = length (disk (fbc s))" by auto
  note sl = replayable_slots [OF rep n]
  have k: "k < unat (cb_size cb)" using Suc.prems by simp
  obtain c' where c': "log_install_step p cb k (s\<lparr>fbc := c\<rparr>) = Some (s\<lparr>fbc := c'\<rparr>)" "clean_st p {} c'" "coherent c'"
    "view c' = (view c)(cb_target cb ! k := view c (log_slot (fsb s) k))" "length (disk c') = length (disk (fbc s))"
    using install_step_ok [of p "s\<lparr>fbc := c\<rparr>" k cb] c sl [OF k] k by (auto simp: fs_ready_def on_disk_def)
  have "view c (log_slot (fsb s) k) = fview s (log_slot (fsb s) k)"
    unfolding c(4) using k sl(4) by (intro redo_outside) auto
  then show ?case using c(1,4) c' by auto
qed

lemma replicate_BSIZE [simp]: "length (replicate BSIZE x) = BSIZE" by simp

lemma fbc_inj [simp]: "(s\<lparr>fbc := a\<rparr> = s\<lparr>fbc := b\<rparr>) = (a = b)"
  by (cases s) auto

lemma overwrite_block:
  assumes "clean_st p {} c" "coherent c" "on_disk blk c" "length d = BSIZE"
  shows "\<exists>b c1 c2 c3. bread p ROOTDEV blk c = Some (b, c1) \<and> b_data (bufp c1 b) = view c blk \<and>
     bwrite p b (upd_buf b (b_data_update (\<lambda>_. d)) c1) = Some c2 \<and> brelse p b c2 = Some c3 \<and>
     clean_st p {} c3 \<and> coherent c3 \<and> view c3 = (view c)(blk := d) \<and> disk c3 = (disk c)[unat blk := d]"
proof -
  have "card ({} :: nat set) < NBUF" by (simp add: NBUF_def)
  from overwrite_ok [OF assms(1) this assms(3)] assms(2,4) show ?thesis by auto
qed

lemma log_apply_ok:
  assumes r: "fs_ready p s" and n: "length (disk (fbc s)) \<le> 2 ^ 32"
    and cb: "cb = dec_commit (fview s (sb_logstart (fsb s)))"
    and rep: "replayable (fsb s) (length (disk (fbc s))) cb"
  shows "\<exists>c. log_apply p s = Some (s\<lparr>fbc := c, in_mem_cb := cb_zero\<rparr>) \<and> clean_st p {} c \<and> coherent c \<and>
     view c = (if cb_flag cb = 1 then redo (fview s) (fsb s) (cb_target cb) (unat (cb_size cb)) else fview s)
       (sb_logstart (fsb s) := replicate BSIZE 0) \<and> length (disk c) = length (disk (fbc s))"
proof -
  let ?h = "sb_logstart (fsb s)"
  have st: "clean_st p {} (fbc s)" "coherent (fbc s)" using r by (simp_all add: fs_ready_def)
  have h: "on_disk ?h (fbc s)" using rep by (simp add: replayable_def on_disk_def)
  obtain b c1 where b: "bread p ROOTDEV ?h (fbc s) = Some (b, c1)" "clean_st p {b} c1" "got p (fbc s) ?h b c1"
    using clean_bread [OF st(1) _ h] by (auto simp: NBUF_def)
  obtain c2 where c2: "brelse p b c1 = Some c2" "clean_st p {} c2" "disk c2 = disk c1" "view c2 = view c1"
      "coherent c1 \<and> b_data (bufp c1 b) = disk c1 ! unat (b_blockno (bufp c1 b)) \<longrightarrow> coherent c2"
    using clean_brelse [OF b(2), of b] by auto
  have c1: "b_data (bufp c1 b) = fview s ?h" "disk c1 = disk (fbc s)" "view c1 = fview s" "coherent c1"
      "b_blockno (bufp c1 b) = ?h" using b(3) st(2) by (auto simp: got_def same_block_def)
  then have co2: "coherent c2" using c2(5) clean_view_disk [OF st h] by simp
  let ?s2 = "s\<lparr>fbc := c2\<rparr>"
  have r2: "fs_ready p ?s2" using c2(2) co2 by (simp add: fs_ready_def)
  obtain c3 where c3: "(if cb_flag cb = 1 then log_install p cb (unat (cb_size cb)) ?s2 else Some ?s2) = Some (s\<lparr>fbc := c3\<rparr>)"
    "clean_st p {} c3" "coherent c3" "length (disk c3) = length (disk (fbc s))"
    "view c3 = (if cb_flag cb = 1 then redo (fview s) (fsb s) (cb_target cb) (unat (cb_size cb)) else fview s)"
    using log_install_ok [OF r2, of cb "unat (cb_size cb)"] rep n c2(2,3,4) c1(2,3) co2 by (cases "cb_flag cb = 1") auto
  have "on_disk ?h c3" using h c3(4) by (simp add: on_disk_def)
  then obtain b' c4 c5 c6 where w: "bread p ROOTDEV ?h c3 = Some (b', c4)"
      "bwrite p b' (upd_buf b' (b_data_update (\<lambda>_. replicate BSIZE 0)) c4) = Some c5" "brelse p b' c5 = Some c6"
      "clean_st p {} c6" "coherent c6" "view c6 = (view c3)(?h := replicate BSIZE 0)" "disk c6 = (disk c3)[unat ?h := replicate BSIZE 0]"
    using overwrite_block [OF c3(2,3), of ?h "replicate BSIZE 0"] by auto
  have "log_apply p s = Some (s\<lparr>fbc := c6, in_mem_cb := cb_zero\<rparr>)"
    using b(1) c2(1) c1(1) c3(1) w(1-3)
    by (cases "cb_flag cb = 1") (simp_all add: log_apply_def fs_ops cb [symmetric] Let_def)
  then show ?thesis using w c3(4,5) by auto
qed

section \<open>A logged write that never reaches its home block\<close>

text \<open>
  One block overwritten through the cache, or read, whatever the cache knows about the disk. A block whose cached copy, if it has one, is what the disk
  has stays so when another one is read or written.
\<close>

abbreviation synced :: "u32 \<Rightarrow> bcache \<Rightarrow> bool" where
  "synced x c \<equiv> view c x = disk c ! unat x"

lemma got_synced:
  assumes "bio_wf p c" "got p c blk b c'" "x \<noteq> blk" "synced x c"
  shows "synced x c'"
proof (cases "cached c' x")
  case (Some i)
  then have i: "i < NBUF" "same_block ROOTDEV x (bufp c' i)" by (auto dest: cachedD)
  then have "i \<noteq> b" using assms(2,3) by (auto simp: got_def same_block_def)
  then have "bufp c' i = bufp c i" using assms(2) i(1) by (simp add: got_def)
  then have "view c x = b_data (bufp c' i)" using view_cached [OF assms(1) i(1), of x] i(2) by simp
  then show ?thesis using Some assms(2,4) by (simp add: view_def got_def)
qed (simp add: view_def)

lemma overwrite_weak:
  assumes "clean_st p {} c" "on_disk blk c" "length d = BSIZE"
  shows "\<exists>b c1 c2 c3. bread p ROOTDEV blk c = Some (b, c1) \<and>
     bwrite p b (upd_buf b (b_data_update (\<lambda>_. d)) c1) = Some c2 \<and> brelse p b c2 = Some c3 \<and>
     clean_st p {} c3 \<and> view c3 blk = d \<and> disk c3 = (disk c)[unat blk := d] \<and> (\<forall>x. x \<noteq> blk \<and> synced x c \<longrightarrow> synced x c3)"
proof -
  obtain b c1 where b: "bread p ROOTDEV blk c = Some (b, c1)" "clean_st p {b} c1" "got p c blk b c1"
    using clean_bread [OF assms(1) _ assms(2)] by (auto simp: NBUF_def)
  have c1: "same_block ROOTDEV blk (bufp c1 b)" "disk c1 = disk c" using b(3) by (auto simp: got_def)
  define t where "t = upd_buf b (b_data_update (\<lambda>_. d)) c1"
  note t = clean_fill [OF b(2) singletonI c1(1) assms(3), folded t_def]
  have bt: "same_block ROOTDEV blk (bufp t b)" "disk t = disk c" using c1 by (simp add: t(4) same_block_def, simp add: t_def)
  obtain c2 where c2: "bwrite p b t = Some c2" "clean_st p {b} c2" "disk c2 = (disk c)[unat blk := d]" "view c2 = view t"
    using clean_bwrite [OF t(1) singletonI bt(1)] t(4) bt(2) by auto
  obtain c3 where c3: "brelse p b c2 = Some c3" "clean_st p {} c3" "disk c3 = disk c2" "view c3 = view c2"
    using clean_brelse [OF c2(2) singletonI] by auto
  have "synced x c3" if "x \<noteq> blk" "synced x c" for x
    using got_synced [OF clean_stD(1) [OF assms(1)] b(3) that] that c1(2)
    by (simp add: c3 c2 t(2) word_unat_eq_iff nth_list_update)
  then show ?thesis using b(1) c2 c3 t(2) by (auto simp: t_def [symmetric])
qed

lemma read_weak:
  assumes "clean_st p {} c" "on_disk blk c"
  shows "\<exists>b c1 c2. bread p ROOTDEV blk c = Some (b, c1) \<and> b_data (bufp c1 b) = view c blk \<and>
     brelse p b c1 = Some c2 \<and> clean_st p {} c2 \<and> disk c2 = disk c \<and> (\<forall>x. x \<noteq> blk \<and> synced x c \<longrightarrow> synced x c2)"
proof -
  obtain b c1 where b: "bread p ROOTDEV blk c = Some (b, c1)" "clean_st p {b} c1" "got p c blk b c1"
    using clean_bread [OF assms(1) _ assms(2)] by (auto simp: NBUF_def)
  obtain c2 where c2: "brelse p b c1 = Some c2" "clean_st p {} c2" "disk c2 = disk c1" "view c2 = view c1"
    using clean_brelse [OF b(2) singletonI] by auto
  then have "synced x c2" if "x \<noteq> blk" "synced x c" for x
    using got_synced [OF clean_stD(1) [OF assms(1)] b(3) that] by simp
  with b c2 show ?thesis by (auto simp: got_def)
qed

lemma install_step_weak:
  assumes st: "clean_st p {} (fbc s)" and i: "i < length (cb_target cb)"
    and L: "on_disk (log_slot (fsb s) i) (fbc s)" and T: "on_disk (cb_target cb ! i) (fbc s)"
    and ne: "cb_target cb ! i \<noteq> log_slot (fsb s) i"
  shows "\<exists>c. log_install_step p cb i s = Some (s\<lparr>fbc := c\<rparr>) \<and> clean_st p {} c \<and>
     disk c = (disk (fbc s))[unat (cb_target cb ! i) := fview s (log_slot (fsb s) i)]"
proof -
  let ?L = "log_slot (fsb s) i" and ?T = "cb_target cb ! i"
  obtain a c1 where a: "bread p ROOTDEV ?L (fbc s) = Some (a, c1)" "clean_st p {a} c1" "got p (fbc s) ?L a c1"
    using clean_bread [OF st _ L] by (auto simp: NBUF_def)
  have c1: "disk c1 = disk (fbc s)" "same_block ROOTDEV ?L (bufp c1 a)" "b_data (bufp c1 a) = fview s ?L"
    using a(3) by (auto simp: got_def)
  have len: "length (fview s ?L) = BSIZE" using view_length [OF clean_stD(1) [OF st] L] .
  have "on_disk ?T c1" using T c1(1) by (simp add: on_disk_def)
  moreover have "\<forall>i \<in> {a}. \<not> same_block ROOTDEV ?T (bufp c1 i)" using c1(2) ne by (auto simp: same_block_def)
  ultimately obtain b c2 c3 c4 where b: "bread p ROOTDEV ?T c1 = Some (b, c2)" "b \<noteq> a" "bufp c2 a = bufp c1 a"
      "bwrite p b (upd_buf b (b_data_update (\<lambda>_. fview s ?L)) c2) = Some c3" "brelse p b c3 = Some c4"
      "clean_st p {a} c4" "disk c4 = (disk (fbc s))[unat ?T := fview s ?L]"
    using overwrite_ok [OF a(2), of ?T] len c1(1) by (auto simp: NBUF_def)
  obtain c5 where c5: "brelse p a c4 = Some c5" "clean_st p {} c5" "disk c5 = disk c4"
    using clean_brelse [OF b(6), of a] by auto
  have "log_install_step p cb i s = Some (s\<lparr>fbc := c5\<rparr>)"
    using i a(1) b(1,3,4,5) c5(1) c1(3) by (simp add: log_install_step_def fs_ops)
  then show ?thesis using c5 b(7) by auto
qed

lemma clean_st_disk:
  assumes "clean_st p H c" "length dk = length (disk c)" "\<forall>d \<in> set dk. length d = BSIZE"
  shows "clean_st p H (c\<lparr>disk := dk\<rparr>)"
  using assms by (simp add: clean_st_def bio_wf_def)

text \<open>\<open>log_write\<close> stores the buffer in the next log slot and in no other block.\<close>

lemma log_write_eq:
  assumes st: "clean_st p H c" "b \<in> H" "same_block ROOTDEV blk (bufp c b)"
    and lk: "sl_free (fslock s)" and slot: "slot = sb_logstart (fsb s) + 1 + cb_size (in_mem_cb s)" "on_disk slot c"
  shows "\<exists>c'. log_write p b (s\<lparr>fbc := c\<rparr>) =
       Some (s\<lparr>fbc := c', in_mem_cb := (in_mem_cb s)\<lparr>cb_size := cb_size (in_mem_cb s) + 1\<rparr>\<rparr>) \<and>
     clean_st p H c' \<and> disk c' = (disk c)[unat slot := b_data (bufp c b)] \<and> (cached c slot = None \<longrightarrow> synced slot c')"
proof -
  note D = clean_stD [OF st(1)]
  have h: "sl_held p (b_lock (bufp c b))" "b_dev (bufp c b) = ROOTDEV" "b_blockno (bufp c b) = blk"
    using D(5) [OF st(2)] st(3) by (simp_all add: held_def same_block_def)
  have len: "b < length (bufs c)" using bio_wfD(3) [OF D(1)] D(4) [OF st(2)] by simp
  have cw: "count_write c = c" using st(1) by (simp add: clean_st_def count_write_def)
  define x where "x = upd_buf b cleaned c"
  have blk: "unat blk < length (disk c)"
    using bio_wfD(4) [OF D(1) D(4) [OF st(2)]] h by (simp add: buf_ok_def ROOTDEV_def)
  have "bwrite p b c = Some (x\<lparr>disk := (disk c)[unat blk := b_data (bufp c b)]\<rparr>)"
    using bwrite_eq [OF D(2) len h(1,2)] blk by (simp add: h(3) cw x_def)
  then have x: "clean_st p H (x\<lparr>disk := (disk c)[unat blk := b_data (bufp c b)]\<rparr>)"
    using clean_bwrite [OF st] by auto
  define c' where "c' = x\<lparr>disk := (disk c)[unat slot := b_data (bufp c b)]\<rparr>"
  have bl: "length (b_data (bufp c b)) = BSIZE" using bio_wfD(4) [OF D(1) D(4) [OF st(2)]] by (simp add: buf_ok_def)
  have "\<forall>d \<in> set ((disk c)[unat slot := b_data (bufp c b)]). length d = BSIZE"
    using set_update_subset_insert [of "disk c" "unat slot" "b_data (bufp c b)"] D(1) bl by (auto simp: bio_wf_def)
  then have cl: "clean_st p H c'"
    using clean_st_disk [OF x, of "(disk c)[unat slot := b_data (bufp c b)]"] by (simp add: c'_def)
  define t where "t = upd_buf b (b_blockno_update (\<lambda>_. slot)) c"
  have bt: "bufp t b = (bufp c b)\<lparr>b_blockno := slot\<rparr>" "disk t = disk c" "count_write t = t" "no_crash t" "b < length (bufs t)"
    using len st(1) by (simp_all add: t_def bufp_upd clean_st_def count_write_def no_crash_def)
  have "bwrite p b t = Some ((upd_buf b cleaned t)\<lparr>disk := (disk c)[unat slot := b_data (bufp c b)]\<rparr>)"
    using bwrite_eq [OF bt(4,5)] h slot(2) by (simp add: bt(1-3) on_disk_def)
  moreover have "upd_buf b (b_blockno_update (\<lambda>_. blk)) ((upd_buf b cleaned t)\<lparr>disk := dk\<rparr>) = x\<lparr>disk := dk\<rparr>" for dk
    using len h(3) by (cases "bufp c b") (simp add: t_def x_def upd_buf_def cleaned_def)
  ultimately have "log_write p b (s\<lparr>fbc := c\<rparr>) =
       Some (s\<lparr>fbc := c', in_mem_cb := (in_mem_cb s)\<lparr>cb_size := cb_size (in_mem_cb s) + 1\<rparr>\<rparr>)"
    using lk slot(1) by (cases s) (simp add: log_write_def lock_fs_def unlock_fs_def fs_ops h(3)
      t_def c'_def releasesleep_eq [of p] Let_def fs_upd_def)
  moreover have "cached c' slot = cached c slot"
    unfolding cached_def using len by (intro arg_cong [where f = "\<lambda>P. for_first P 0 NBUF"]) (auto simp: c'_def x_def bufp_upd same_block_def)
  ultimately show ?thesis using cl by (auto simp: c'_def view_def)
qed


text \<open>\<open>log_commit_tx\<close> with one logged block whose target entry is 0 writes the log header and block 0 only.\<close>

lemma lock_fs_free: "sl_free (fslock s) \<Longrightarrow> lock_fs p s = Some (s\<lparr>fslock := by_pid p (fslock s)\<rparr>)"
  by (simp add: lock_fs_def)

lemma commit_one:
  assumes st: "clean_st p {} (fbc s)" and lk: "sl_free (fslock s)"
    and cb: "in_mem_cb s = cb_zero\<lparr>cb_size := 1\<rparr>"
    and n: "unat (sb_logstart (fsb s)) + LOGSIZE < length (disk (fbc s))" "length (disk (fbc s)) \<le> 2 ^ 32"
    and pos: "0 < unat (sb_logstart (fsb s))"
  shows "\<exists>s' x. log_commit_tx p s = Some s' \<and> in_mem_cb s' = cb_zero \<and>
     disk (fbc s') = (disk (fbc s))[0 := x, unat (sb_logstart (fsb s)) := replicate BSIZE 0] \<and>
     (synced (log_slot (fsb s) 0) (fbc s) \<longrightarrow> x = disk (fbc s) ! (unat (sb_logstart (fsb s)) + 1))"
proof -
  let ?h = "sb_logstart (fsb s)"
  define cb where "cb = cb_zero\<lparr>cb_size := 1, cb_flag := 1\<rparr>"
  have ok: "commit_ok cb" by (simp add: commit_ok_def cb_def cb_zero_def)
  have dec: "dec_commit (enc_commit cb) = cb" "length (enc_commit cb) = BSIZE" using commit_rt [OF ok] by auto
  have cbf: "cb_flag cb = 1" "cb_size cb = 1" by (simp_all add: cb_def)
  have h: "on_disk ?h (fbc s)" using n by (simp add: on_disk_def)
  obtain b c1 c2 c3 where 1: "bread p ROOTDEV ?h (fbc s) = Some (b, c1)"
     "bwrite p b (upd_buf b (b_data_update (\<lambda>_. enc_commit cb)) c1) = Some c2" "brelse p b c2 = Some c3"
     "clean_st p {} c3" "view c3 ?h = enc_commit cb" "disk c3 = (disk (fbc s))[unat ?h := enc_commit cb]"
     "\<And>x. x \<noteq> ?h \<and> synced x (fbc s) \<longrightarrow> synced x c3"
    using overwrite_weak [OF st h dec(2)] by blast
  have h3: "on_disk ?h c3" using h 1(6) by (simp add: on_disk_def)
  obtain b4 c4 c5 where 4: "bread p ROOTDEV ?h c3 = Some (b4, c4)" "b_data (bufp c4 b4) = enc_commit cb"
     "brelse p b4 c4 = Some c5" "clean_st p {} c5" "disk c5 = disk c3" "\<And>x. x \<noteq> ?h \<and> synced x c3 \<longrightarrow> synced x c5"
    using read_weak [OF 1(4) h3] 1(5) by auto
  define s5 where "s5 = s\<lparr>fbc := c5, in_mem_cb := cb\<rparr>"
  have l: "length (disk c5) = length (disk (fbc s))" using 4(5) 1(6) by simp
  let ?l = "log_slot (fsb s) 0"
  have slot: "unat ?l = unat ?h + 1" using unat_log_slot [OF n, of 0] by (simp add: LOGSIZE_def)
  then have ne: "?l \<noteq> ?h" "?l \<noteq> 0" by (auto simp: unsigned_eq_0_iff [symmetric] simp del: unsigned_eq_0_iff)
  have "cb_target cb ! 0 = 0" "0 < length (cb_target cb)" by (simp_all add: cb_def cb_zero_def LOGSIZE_def)
  moreover have "disk (fbc s) \<noteq> []" using n(1) by auto
  ultimately obtain c6 where 6: "log_install_step p cb 0 s5 = Some (s5\<lparr>fbc := c6\<rparr>)" "clean_st p {} c6"
     "disk c6 = (disk c5)[0 := view c5 ?l]"
    using install_step_weak [of p s5 0 cb] 4(4) n slot ne by (auto simp: s5_def on_disk_def l LOGSIZE_def)
  have h6: "on_disk ?h c6" using h 6(3) l by (simp add: on_disk_def)
  obtain b7 c7 c8 c9 where 7: "bread p ROOTDEV ?h c6 = Some (b7, c7)"
     "bwrite p b7 (upd_buf b7 (b_data_update (\<lambda>_. replicate BSIZE 0)) c7) = Some c8" "brelse p b7 c8 = Some c9"
     "disk c9 = (disk c6)[unat ?h := replicate BSIZE 0]"
    using overwrite_weak [OF 6(2) h6, of "replicate BSIZE 0"] by auto
  have "log_apply p (s\<lparr>fbc := c3, in_mem_cb := cb\<rparr>) = Some (s\<lparr>fbc := c9, in_mem_cb := cb_zero\<rparr>)"
    using 4(1-3) 6(1) 7(1-3) cbf
    by (cases s) (simp add: log_apply_def fs_ops Let_def dec s5_def fs_upd_def)
  moreover have "log_commit_tx p s = log_apply p (s\<lparr>fbc := c3, in_mem_cb := cb\<rparr>)"
    using 1(1-3) lk cb by (cases s) (simp add: log_commit_tx_def lock_fs_def unlock_fs_def fs_ops Let_def fs_upd_def
      releasesleep_eq [of p] cb_def cb_zero_def)
  moreover have "view c5 ?l = disk (fbc s) ! (unat ?h + 1)" if "synced ?l (fbc s)"
    using that 1(7) [of ?l] 4(6) [of ?l] ne slot by (simp add: 4(5) 1(6))
  moreover have "disk c9 = (disk (fbc s))[0 := view c5 ?l, unat ?h := replicate BSIZE 0]"
    using pos by (simp add: 7(4) 6(3) 4(5) 1(6) list_update_swap)
  ultimately show ?thesis by (intro exI [of _ "s\<lparr>fbc := c9, in_mem_cb := cb_zero\<rparr>"] exI [of _ "view c5 ?l"]) simp
qed

section \<open>Properties of the log\<close>

lemma redo_cong:
  "v b = w b \<Longrightarrow> (\<And>j. j < k \<Longrightarrow> v (log_slot sb j) = w (log_slot sb j)) \<Longrightarrow> redo v sb ts k b = redo w sb ts k b"
  by (induction k) auto

lemma ready_view: "fs_ready p s \<Longrightarrow> unat b < length (disk (fbc s)) \<Longrightarrow> fview s b = disk (fbc s) ! unat b"
  by (rule clean_view_disk) (auto simp: fs_ready_def on_disk_def)

abbreviation dsk :: "fs \<Rightarrow> u32 \<Rightarrow> u8 list" where "dsk s \<equiv> \<lambda>b. disk (fbc s) ! unat b"

lemma log_apply_disk:
  assumes r: "fs_ready p s" and n: "length (disk (fbc s)) \<le> 2 ^ 32"
    and cb: "cb = dec_commit (dsk s (sb_logstart (fsb s)))"
    and rep: "replayable (fsb s) (length (disk (fbc s))) cb"
  shows "\<exists>s'. log_apply p s = Some s' \<and> fs_ready p s' \<and> fsb s' = fsb s \<and> in_mem_cb s' = cb_zero \<and>
     length (disk (fbc s')) = length (disk (fbc s)) \<and>
     (\<forall>b. unat b < length (disk (fbc s)) \<longrightarrow> dsk s' b =
       (if b = sb_logstart (fsb s) then replicate BSIZE 0
        else if cb_flag cb = 1 then redo (dsk s) (fsb s) (cb_target cb) (unat (cb_size cb)) b else dsk s b))"
proof -
  have h: "unat (sb_logstart (fsb s)) < length (disk (fbc s))" using rep by (simp add: replayable_def)
  have cb': "cb = dec_commit (fview s (sb_logstart (fsb s)))" using ready_view [OF r h] cb by simp
  obtain c where c: "log_apply p s = Some (s\<lparr>fbc := c, in_mem_cb := cb_zero\<rparr>)" "clean_st p {} c" "coherent c"
     "view c = (if cb_flag cb = 1 then redo (fview s) (fsb s) (cb_target cb) (unat (cb_size cb)) else fview s)
       (sb_logstart (fsb s) := replicate BSIZE 0)" "length (disk c) = length (disk (fbc s))"
    using log_apply_ok [OF r n cb' rep] by blast
  have "redo (fview s) (fsb s) (cb_target cb) (unat (cb_size cb)) b = redo (dsk s) (fsb s) (cb_target cb) (unat (cb_size cb)) b"
    if "unat b < length (disk (fbc s))" for b
    by (rule redo_cong) (use ready_view [OF r] replayable_slots(1) [OF rep n] that in auto)
  moreover have "disk c ! unat b = view c b" if "unat b < length (disk (fbc s))" for b
    using clean_view_disk [OF c(2,3), of b] that c(5) by (simp add: on_disk_def)
  ultimately show ?thesis using c ready_view [OF r] by (auto simp: fs_ready_def)
qed

text \<open>
  C15. Recovery. Replaying a committed log (commit flag 1) returns and puts every logged block into its target block on
  disk, the last entry winning when two have the same target; without the commit flag nothing is replayed. In both
  cases the log header is cleared and no other block changes.
\<close>

theorem log_recovery:
  assumes "fs_ready p s" "length (disk (fbc s)) \<le> 2 ^ 32"
    and "replayable (fsb s) (length (disk (fbc s))) (dec_commit (dsk s (sb_logstart (fsb s))))"
  shows "\<exists>s'. log_apply p s = Some s' \<and> fs_ready p s' \<and> in_mem_cb s' = cb_zero \<and>
     (\<forall>b. unat b < length (disk (fbc s)) \<longrightarrow> dsk s' b =
       (let cb = dec_commit (dsk s (sb_logstart (fsb s))) in
        if b = sb_logstart (fsb s) then replicate BSIZE 0
        else if cb_flag cb = 1 then redo (dsk s) (fsb s) (cb_target cb) (unat (cb_size cb)) b else dsk s b))"
  unfolding Let_def using log_apply_disk [OF assms(1,2) refl assms(3)] by blast

text \<open>
  C3. Crash during recovery. If the machine stops after \<open>k\<close> of the logged blocks were installed and then
  reboots (an empty cache over the disk as it was), replaying again gives the disk that the first replay would have given.
\<close>

theorem log_crash_safe:
  assumes r: "fs_ready p s" and n: "length (disk (fbc s)) \<le> 2 ^ 32"
    and rep: "replayable (fsb s) (length (disk (fbc s))) cb" and cb: "cb = dec_commit (dsk s (sb_logstart (fsb s)))"
    and flag: "cb_flag cb = 1" and k: "k \<le> unat (cb_size cb)"
    and crash: "log_install p cb k s = Some s1"
    and boot: "fs_ready q r" "fsb r = fsb s" "disk (fbc r) = disk (fbc s1)"
  shows "\<exists>s' r'. log_apply p s = Some s' \<and> log_apply q r = Some r' \<and> disk (fbc r') = disk (fbc s')"
proof -
  let ?h = "sb_logstart (fsb s)" and ?n = "unat (cb_size cb)"
  note sl = replayable_slots [OF rep n]
  obtain c where c: "s1 = s\<lparr>fbc := c\<rparr>" "clean_st p {} c" "coherent c" "view c = redo (fview s) (fsb s) (cb_target cb) k"
     "length (disk c) = length (disk (fbc s))"
    using log_install_ok [OF r rep n k] crash by auto
  have dr: "dsk r b = redo (dsk s) (fsb s) (cb_target cb) k b" if b: "unat b < length (disk (fbc s))" for b
  proof -
    have "dsk r b = view c b" using clean_view_disk [OF c(2,3), of b] b c(1,5) boot(3) by (simp add: on_disk_def)
    also have "\<dots> = redo (dsk s) (fsb s) (cb_target cb) k b"
      unfolding c(4) by (rule redo_cong) (use ready_view [OF r] sl(1) b k in auto)
    finally show ?thesis .
  qed
  have hd: "dsk r ?h = dsk s ?h"
    using dr [of ?h] rep redo_outside [of k "cb_target cb" ?h "dsk s" "fsb s"] sl(5) k by (auto simp: replayable_def)
  have len: "length (disk (fbc r)) = length (disk (fbc s))" using boot(3) c(1,5) by simp
  obtain s' where s': "log_apply p s = Some s'" "length (disk (fbc s')) = length (disk (fbc s))"
     "\<forall>b. unat b < length (disk (fbc s)) \<longrightarrow> dsk s' b =
       (if b = ?h then replicate BSIZE 0 else redo (dsk s) (fsb s) (cb_target cb) ?n b)"
    using log_apply_disk [OF r n cb rep] flag by auto
  obtain r' where r': "log_apply q r = Some r'" "length (disk (fbc r')) = length (disk (fbc s))"
     "\<forall>b. unat b < length (disk (fbc s)) \<longrightarrow> dsk r' b =
       (if b = ?h then replicate BSIZE 0 else redo (dsk r) (fsb s) (cb_target cb) ?n b)"
    using log_apply_disk [OF boot(1), of cb] len n cb hd rep flag boot(2) by auto
  have "dsk r' b = dsk s' b" if b: "unat b < length (disk (fbc s))" for b
  proof -
    have "redo (dsk r) (fsb s) (cb_target cb) ?n b = redo (redo (dsk s) (fsb s) (cb_target cb) k) (fsb s) (cb_target cb) ?n b"
      by (rule redo_cong) (use dr sl(1) b in auto)
    also have "\<dots> = redo (dsk s) (fsb s) (cb_target cb) ?n b" using redo_redo [of ?n "cb_target cb" "fsb s" k] sl(4) k by simp
    finally show ?thesis using s'(3) r'(3) b by simp
  qed
  moreover have "unat (of_nat i :: u32) = i" if "i < length (disk (fbc s))" for i
    using that n by (simp add: unat_of_nat)
  ultimately have "disk (fbc r') ! i = disk (fbc s') ! i" if "i < length (disk (fbc s))" for i using that by metis
  then have "disk (fbc r') = disk (fbc s')" using s'(2) r'(2) by (intro nth_equalityI) simp_all
  with s'(1) r'(1) show ?thesis by blast
qed

text \<open>
  C34. A logged write. \<open>log_write\<close> never records the home block in \<open>in_mem_cb.target\<close>, so the entry that \<open>log_apply\<close> uses is 0. A block that is
  filled, logged with \<open>log_write\<close>, released and committed with \<open>log_commit_tx\<close> goes to the log slot and from there to block 0 of the disk, the boot
  block, which is overwritten; the log header is cleared and no other block changes, the home block in particular. Block 0 gets the data of the
  transaction when the log slot was not cached before.
\<close>

theorem log_write_not_installed:
  assumes r: "fs_ready p s" and lk: "sl_free (fslock s)" and cb: "in_mem_cb s = cb_zero"
    and n: "unat (sb_logstart (fsb s)) + LOGSIZE < length (disk (fbc s))" "length (disk (fbc s)) \<le> 2 ^ 32"
    and pos: "0 < unat (sb_logstart (fsb s))"
    and blk: "unat (sb_logstart (fsb s)) + LOGSIZE < unat blk" "unat blk < length (disk (fbc s))" and d: "length d = BSIZE"
  shows "\<exists>s'. do { (b, s) \<leftarrow> fs_bread p ROOTDEV blk s;
               s \<leftarrow> log_write p b (fs_upd b (b_data_update (\<lambda>_. d)) s);
               s \<leftarrow> fs_brelse p b s;
               log_commit_tx p s } = Some s' \<and>
     (\<exists>x. disk (fbc s') = (disk (fbc s))[unat (sb_logstart (fsb s)) + 1 := d, 0 := x, unat (sb_logstart (fsb s)) := replicate BSIZE 0] \<and>
        (cached (fbc s) (sb_logstart (fsb s) + 1) = None \<longrightarrow> x = d)) \<and>
     disk (fbc s') ! unat blk = disk (fbc s) ! unat blk"
proof -
  let ?h = "sb_logstart (fsb s)"
  have st: "clean_st p {} (fbc s)" using r by (simp add: fs_ready_def)
  obtain b c1 where b: "bread p ROOTDEV blk (fbc s) = Some (b, c1)" "clean_st p {b} c1" "got p (fbc s) blk b c1"
    using clean_bread [OF st, of blk] blk by (auto simp: NBUF_def on_disk_def)
  have c1: "disk c1 = disk (fbc s)" "same_block ROOTDEV blk (bufp c1 b)" using b(3) by (auto simp: got_def)
  define t where "t = upd_buf b (b_data_update (\<lambda>_. d)) c1"
  note t = clean_fill [OF b(2) _ c1(2) d, folded t_def, simplified]
  have bt: "same_block ROOTDEV blk (bufp t b)" using c1(2) by (simp add: t(4) same_block_def)
  have td: "b_data (bufp t b) = d" "disk t = disk (fbc s)" using c1(1) by (simp_all add: t(4)) (simp add: t_def)
  have cb0: "?h + 1 + cb_size (in_mem_cb s) = ?h + 1" by (simp add: cb cb_zero_def)
  have slot: "unat (?h + 1) = unat ?h + 1" using unat_log_slot [OF n, of 0] by (simp add: LOGSIZE_def)
  have un: "cached t (?h + 1) = None" if "cached (fbc s) (?h + 1) = None"
  proof (rule cached_None)
    have "unat blk \<noteq> unat (?h + 1)" using blk(1) slot by (simp add: LOGSIZE_def)
    then show "\<not> same_block ROOTDEV (?h + 1) (bufp t i)" if "i < NBUF" for i
      using that \<open>cached (fbc s) (?h + 1) = None\<close> b(3) bt t(5) [of i] cached_Some [OF clean_stD(1) [OF st] that, of "?h + 1"]
      by (cases "i = b") (auto simp: got_def same_block_def)
  qed
  have "on_disk (?h + 1) t"
    unfolding on_disk_def slot using n c1(1) by (simp add: t_def LOGSIZE_def)
  then obtain c2 where c2: "log_write p b (s\<lparr>fbc := t\<rparr>) =
       Some (s\<lparr>fbc := c2, in_mem_cb := (in_mem_cb s)\<lparr>cb_size := cb_size (in_mem_cb s) + 1\<rparr>\<rparr>)"
     "clean_st p {b} c2" "disk c2 = (disk (fbc s))[unat ?h + 1 := d]" "cached t (?h + 1) = None \<longrightarrow> synced (?h + 1) c2"
    using log_write_eq [OF t(1) _ bt lk refl] slot td cb0 by auto
  obtain c3 where c3: "brelse p b c2 = Some c3" "clean_st p {} c3" "disk c3 = disk c2" "view c3 = view c2"
    using clean_brelse [OF c2(2), of b] by auto
  let ?s3 = "s\<lparr>in_mem_cb := cb_zero\<lparr>cb_size := 1\<rparr>, fbc := c3\<rparr>"
  obtain s' x where s': "log_commit_tx p ?s3 = Some s'" "disk (fbc s') = (disk c3)[0 := x, unat ?h := replicate BSIZE 0]"
      "synced (?h + 1) c3 \<longrightarrow> x = disk c3 ! (unat ?h + 1)"
    using commit_one [of p ?s3] c3(2) lk n pos by (auto simp: c3(3) c2(3))
  have "x = d" if "cached (fbc s) (?h + 1) = None"
    using un [OF that] c2(4) s'(3) n(1) by (simp add: c3(3,4) c2(3) LOGSIZE_def)
  moreover have "disk (fbc s') ! unat blk = disk (fbc s) ! unat blk" using blk(1) by (simp add: s'(2) c3(3) c2(3) LOGSIZE_def)
  moreover have "cb_zero\<lparr>cb_size := cb_size cb_zero + 1\<rparr> = cb_zero\<lparr>cb_size := 1\<rparr>" by (simp add: cb_zero_def)
  ultimately show ?thesis
    using b(1) c2(1) c3(1) cb blk(1) s'(1) by (auto simp: fs_ops t_def [symmetric] s'(2) c3(3) c2(3))
qed

section \<open>Concrete instances\<close>

definition sb_demo :: superblock where
  "sb_demo = \<lparr>sb_size = 40, sb_nblocks = 8, sb_logstart = 2, sb_bmapstart = 33, sb_inodestart = 34\<rparr>"

definition cb_demo :: commit_block where
  "cb_demo = cb_zero\<lparr>cb_size := 1, cb_flag := 1, cb_target := 35 # replicate 29 0\<rparr>"

definition blocks_demo :: "u8 list list" where
  "blocks_demo = (replicate 40 (replicate BSIZE 0))[2 := enc_commit cb_demo, 3 := replicate BSIZE 7]"

definition inode_zero :: inode where
  "inode_zero = \<lparr>i_dev = 0, i_inum = 0, i_ref = 0, i_valid = 0, i_lock = initsleeplock ''inode'', i_type = 0,
     i_devid = 0, i_size = 0, i_data = replicate MAXEXTENT \<lparr>startblkno = 0, nblocks = 0\<rparr>\<rparr>"

definition fs_demo :: "u8 list list \<Rightarrow> fs" where
  "fs_demo dk = \<lparr>fbc = bcache_boot dk, fsb = sb_demo, in_mem_cb = cb_zero, fslock = initsleeplock ''log'',
     ic_lock = initlock ''icache'', ic_inode = replicate NINODE inode_zero, ic_inodefile = inode_zero\<rparr>"

lemma cb_demo_ok: "commit_ok cb_demo" "dec_commit (enc_commit cb_demo) = cb_demo"
proof -
  show "commit_ok cb_demo" by (simp add: commit_ok_def cb_demo_def cb_zero_def LOGSIZE_def)
  from commit_rt [OF this] show "dec_commit (enc_commit cb_demo) = cb_demo" by blast
qed

lemma blocks_demo_ok: "\<forall>d \<in> set blocks_demo. length d = BSIZE" "length blocks_demo = 40"
  "blocks_demo ! 2 = enc_commit cb_demo" "blocks_demo ! 3 = replicate BSIZE 7" "blocks_demo ! 35 = replicate BSIZE 0"
  using commit_rt [OF cb_demo_ok(1)]
  by (auto simp: blocks_demo_def dest!: set_update_subset_insert [THEN subsetD])

lemma fs_demo_ready: "\<forall>d \<in> set dk. length d = BSIZE \<Longrightarrow> fs_ready p (fs_demo dk)"
  using boot_clean [of dk p] by (simp add: fs_ready_def fs_demo_def)

lemma fs_demo_fields: "fsb (fs_demo dk) = sb_demo" "disk (fbc (fs_demo dk)) = dk" "sb_logstart sb_demo = 2"
  "sl_free (fslock (fs_demo dk))" "in_mem_cb (fs_demo dk) = cb_zero"
  by (simp_all add: fs_demo_def bcache_boot_core sb_demo_def)

lemma demo_replayable: "replayable sb_demo 40 cb_demo"
  by (simp add: replayable_def sb_demo_def cb_demo_def cb_zero_def LOGSIZE_def)

theorem log_recovery_witness:
  "\<exists>s'. log_apply 1 (fs_demo blocks_demo) = Some s' \<and> disk (fbc s') ! 35 = replicate BSIZE 7 \<and>
     disk (fbc s') ! 2 = replicate BSIZE 0"
proof -
  have e: "dsk (fs_demo blocks_demo) = (\<lambda>b. blocks_demo ! unat b)" by (simp add: fs_demo_fields)
  have rep: "replayable (fsb (fs_demo blocks_demo)) (length (disk (fbc (fs_demo blocks_demo))))
      (dec_commit (dsk (fs_demo blocks_demo) (sb_logstart (fsb (fs_demo blocks_demo)))))"
    using demo_replayable by (simp add: fs_demo_fields blocks_demo_ok cb_demo_ok)
  have n: "length (disk (fbc (fs_demo blocks_demo))) \<le> 2 ^ 32" by (simp add: fs_demo_fields blocks_demo_ok)
  have cb: "dec_commit (dsk (fs_demo blocks_demo) (sb_logstart (fsb (fs_demo blocks_demo)))) = cb_demo"
    by (simp add: fs_demo_fields blocks_demo_ok cb_demo_ok)
  have f: "cb_flag cb_demo = 1" by (simp add: cb_demo_def)
  obtain s' where s1: "log_apply 1 (fs_demo blocks_demo) = Some s'"
    and s2: "\<And>b. unat b < length (disk (fbc (fs_demo blocks_demo))) \<Longrightarrow> dsk s' b =
       (let cb = dec_commit (dsk (fs_demo blocks_demo) (sb_logstart (fsb (fs_demo blocks_demo)))) in
        if b = sb_logstart (fsb (fs_demo blocks_demo)) then replicate BSIZE 0
        else if cb_flag cb = 1 then redo (dsk (fs_demo blocks_demo)) (fsb (fs_demo blocks_demo)) (cb_target cb) (unat (cb_size cb)) b
        else dsk (fs_demo blocks_demo) b)"
    using log_recovery [OF fs_demo_ready [OF blocks_demo_ok(1)] n rep, of 1] by blast
  have s': "dsk s' b = (if b = 2 then replicate BSIZE 0
        else redo (\<lambda>b. blocks_demo ! unat b) sb_demo (cb_target cb_demo) (unat (cb_size cb_demo)) b)"
    if "unat b < 40" for b
    using s2 [of b] that unfolding Let_def cb e by (simp add: f fs_demo_fields blocks_demo_ok)
  have "redo (\<lambda>b. blocks_demo ! unat b) sb_demo (cb_target cb_demo) (unat (cb_size cb_demo)) 35 = replicate BSIZE 7"
    by (simp add: cb_demo_def fs_demo_fields blocks_demo_ok)
  then show ?thesis using s1 s' [of 35] s' [of 2] by auto
qed

theorem log_crash_safe_witness:
  "\<exists>s1 s' r'. log_install 1 cb_demo 1 (fs_demo blocks_demo) = Some s1 \<and> log_apply 1 (fs_demo blocks_demo) = Some s' \<and>
     log_apply 2 (fs_demo (disk (fbc s1))) = Some r' \<and> disk (fbc r') = disk (fbc s')"
proof -
  have r: "fs_ready 1 (fs_demo blocks_demo)" by (rule fs_demo_ready [OF blocks_demo_ok(1)])
  have rep: "replayable (fsb (fs_demo blocks_demo)) (length (disk (fbc (fs_demo blocks_demo)))) cb_demo"
    using demo_replayable by (simp add: fs_demo_fields blocks_demo_ok)
  have n: "length (disk (fbc (fs_demo blocks_demo))) \<le> 2 ^ 32" by (simp add: fs_demo_fields blocks_demo_ok)
  have k: "1 \<le> unat (cb_size cb_demo)" "cb_flag cb_demo = 1" by (simp_all add: cb_demo_def)
  obtain c where c: "log_install 1 cb_demo 1 (fs_demo blocks_demo) = Some ((fs_demo blocks_demo)\<lparr>fbc := c\<rparr>)"
    "clean_st 1 {} c" using log_install_ok [OF r rep n k(1)] by blast
  have "fs_ready 2 (fs_demo (disk c))"
    using c(2) by (intro fs_demo_ready) (auto simp: clean_st_def bio_wf_def)
  then show ?thesis
    using log_crash_safe [OF r n rep _ k(2,1) c(1), of 2 "fs_demo (disk c)"] c(1)
    by (auto simp: fs_demo_fields blocks_demo_ok cb_demo_ok)
qed

theorem log_write_not_installed_witness:
  "\<exists>s'. do { (b, s) \<leftarrow> fs_bread 1 ROOTDEV 36 (fs_demo blocks_demo);
             s \<leftarrow> log_write 1 b (fs_upd b (b_data_update (\<lambda>_. replicate BSIZE 5)) s);
             s \<leftarrow> fs_brelse 1 b s;
             log_commit_tx 1 s } = Some s' \<and> disk (fbc s') ! 36 = replicate BSIZE 0 \<and> disk (fbc s') ! 0 = replicate BSIZE 5"
proof -
  have "blocks_demo ! 36 = replicate BSIZE 0" by (simp add: blocks_demo_def)
  moreover have "cached (fbc (fs_demo blocks_demo)) 3 = None"
    by (rule cached_None) (simp add: fs_demo_def boot_uncached)
  ultimately show ?thesis
    using log_write_not_installed [of 1 "fs_demo blocks_demo" 36 "replicate BSIZE 5"]
    by (simp add: fs_demo_ready [OF blocks_demo_ok(1)] fs_demo_fields blocks_demo_ok LOGSIZE_def)
      (elim exE conjE, intro exI conjI, assumption, simp_all add: blocks_demo_ok)
qed

theorem bmark_roundtrip_witness:
  "(do { bm1 \<leftarrow> bmark_loop True [3..<10] [7, 0]; bmark_loop False [3..<10] bm1 }) = Some [7, 0]"
proof -
  have "\<not> bit_set [7, 0] k" if "3 \<le> k \<and> k \<le> 9" for k
  proof -
    from that have "k = 3 \<or> k = 4 \<or> k = 5 \<or> k = 6 \<or> k = 7 \<or> k = 8 \<or> k = 9" by presburger
    then show ?thesis by (elim disjE) (simp_all add: bit_set_def)
  qed
  moreover have "Suc 9 = (10 :: nat)" by simp
  ultimately show ?thesis using bmark_roundtrip [of 9 "[7, 0]" 3] by (simp del: upt_Suc upt_rec_numeral)
qed

theorem balloc_scan_first_fit_witness:
  "balloc_scan [7, 0] 0 16 4 0 0 0 = map_option (\<lambda>lo. (lo, lo + 4 - 1))
      (for_first (\<lambda>lo. lo + 4 \<le> min BPB (16 - 0) \<and> free_run [7, 0] lo 4) 0 (min BPB (16 - 0)))"
  by (rule balloc_scan_first_fit) simp

end
