(* ===== verification/Xk_Inode.thy ===== *)
theory Xk_Inode
  imports Xk_Log
begin

text \<open>
  The inode layer of \<open>kernel/fs.c\<close>: the inode cache (\<open>iget\<close>, \<open>idup\<close>, \<open>irelease\<close>), inode locking with the load of
  the disk inode (\<open>locki\<close>, \<open>unlocki\<close>, \<open>read_dinode\<close>, \<open>write_dinode\<close>), \<open>readi\<close> and \<open>writei\<close> over extents, \<open>stati\<close>
  and the initialisation. A \<open>struct inode *\<close> is \<open>Cached i\<close> for \<open>&icache.inode[i]\<close> or \<open>InodeFile\<close> for
  \<open>&icache.inodefile\<close>. What a read copies out is returned with its return value. The device switch \<open>devsw\<close>
  is a parameter, filled by the drivers. Reading an object that C leaves uninitialised (a disk
  inode of which \<open>readi\<close> delivered only a part, an extent past the array) does not return.
\<close>

section \<open>References and locks\<close>

datatype iptr = Cached nat | InodeFile

definition T_DIR :: int where "T_DIR = 1"
definition T_FILE :: int where "T_FILE = 2"
definition T_DEV :: int where "T_DEV = 3"

definition NDEV :: int where "NDEV = 10"

record devsw =
  dev_read :: "int \<Rightarrow> (nat \<Rightarrow> int \<times> u8 list) option"
  dev_write :: "int \<Rightarrow> (u8 list \<Rightarrow> int) option"

fun inodep :: "fs \<Rightarrow> iptr \<Rightarrow> inode" where
  "inodep s (Cached i) = ic_inode s ! i"
| "inodep s InodeFile = ic_inodefile s"

fun upd_inode :: "iptr \<Rightarrow> (inode \<Rightarrow> inode) \<Rightarrow> fs \<Rightarrow> fs" where
  "upd_inode (Cached i) f s = s\<lparr>ic_inode := (ic_inode s)[i := f (ic_inode s ! i)]\<rparr>"
| "upd_inode InodeFile f s = s\<lparr>ic_inodefile := f (ic_inodefile s)\<rparr>"

definition acquire_ic :: "fs \<Rightarrow> fs option" where
  "acquire_ic s = do { l \<leftarrow> acquire_lk (ic_lock s); Some (s\<lparr>ic_lock := l\<rparr>) }"

definition release_ic :: "fs \<Rightarrow> fs option" where
  "release_ic s = do { l \<leftarrow> release_lk (ic_lock s); Some (s\<lparr>ic_lock := l\<rparr>) }"

definition holding_inode :: "int \<Rightarrow> iptr \<Rightarrow> fs \<Rightarrow> (bool \<times> fs) option" where
  "holding_inode p ip s = do {
     (h, l) \<leftarrow> holdingsleep p (i_lock (inodep s ip));
     Some (h, upd_inode ip (i_lock_update (\<lambda>_. l)) s) }"

section \<open>The inode cache\<close>

definition iget :: "u32 \<Rightarrow> u32 \<Rightarrow> fs \<Rightarrow> (iptr \<times> fs) option" where
  "iget dev inum s = do {
     s \<leftarrow> acquire_ic s;
     case for_first (\<lambda>i. i_ref (ic_inode s ! i) > 0 \<and> i_dev (ic_inode s ! i) = dev \<and> i_inum (ic_inode s ! i) = inum) 0 NINODE of
       Some i \<Rightarrow> do {
         let s = upd_inode (Cached i) (i_ref_update (\<lambda>r. c_int (r + 1))) s;
         s \<leftarrow> release_ic s;
         Some (Cached i, s) }
     | None \<Rightarrow>
         (case for_first (\<lambda>i. i_ref (ic_inode s ! i) = 0) 0 NINODE of
            None \<Rightarrow> None
          | Some i \<Rightarrow> do {
              let s = upd_inode (Cached i) (\<lambda>ip. ip\<lparr>i_ref := 1, i_valid := 0, i_dev := dev, i_inum := inum\<rparr>) s;
              s \<leftarrow> release_ic s;
              Some (Cached i, s) }) }"

definition idup :: "iptr \<Rightarrow> fs \<Rightarrow> (iptr \<times> fs) option" where
  "idup ip s = do {
     s \<leftarrow> acquire_ic s;
     let s = upd_inode ip (i_ref_update (\<lambda>r. c_int (r + 1))) s;
     s \<leftarrow> release_ic s;
     Some (ip, s) }"

definition irelease :: "iptr \<Rightarrow> fs \<Rightarrow> fs option" where
  "irelease ip s = do {
     s \<leftarrow> acquire_ic s;
     let s = (if i_ref (inodep s ip) = 1 then upd_inode ip (i_type_update (\<lambda>_. 0)) s else s);
     let s = upd_inode ip (i_ref_update (\<lambda>r. c_int (r - 1))) s;
     release_ic s }"

section \<open>Reading\<close>

text \<open>
  The search for the extent of block \<open>nb\<close> of the file: extent number and block within it;
  \<open>e0\<close> is the value \<open>extentnum\<close> keeps when no extent matches.
\<close>

fun locate :: "nat \<Rightarrow> extent list \<Rightarrow> nat \<Rightarrow> int \<Rightarrow> nat \<times> int" where
  "locate e0 [] i nb = (e0, nb)"
| "locate e0 (e # es) i nb =
     (let curblock = c_int (uint (nblocks e)) in
      if c_int (nb - curblock) < 0 then (i, nb) else locate e0 es (Suc i) (c_int (nb - curblock)))"

text \<open>
  The copy loop of \<open>readi\<close> with \<open>n\<close> bytes to go at offset \<open>off\<close>, on block \<open>nb\<close> of extent \<open>ext\<close>. It is stated over
  the calls it makes on the buffer cache (read a block, release it, and the buffer's data).
\<close>

function readi_loop :: "(u32 \<Rightarrow> 's \<Rightarrow> (nat \<times> 's) option) \<Rightarrow> (nat \<Rightarrow> 's \<Rightarrow> 's option) \<Rightarrow> ('s \<Rightarrow> nat \<Rightarrow> u8 list) \<Rightarrow>
    extent list \<Rightarrow> nat \<Rightarrow> int \<Rightarrow> nat \<Rightarrow> nat \<Rightarrow> 's \<Rightarrow> (u8 list \<times> 's) option" where
  "readi_loop get rel dat es ext nb off n s =
     (if n = 0 then Some ([], s)
      else if ext \<ge> length es then None
      else do {
        (bp, s) \<leftarrow> get (startblkno (es ! ext) + word_of_int nb) s;
        let m = min n (BSIZE - off mod BSIZE);
        let bytes = get_at (dat s bp) (off mod BSIZE) m;
        s \<leftarrow> rel bp s;
        let nb = nb + 1;
        let (ext, nb) = (if word_of_int nb \<ge> nblocks (es ! ext) then (ext + 1, 0) else (ext, nb));
        (rest, s) \<leftarrow> readi_loop get rel dat es ext nb (off + m) (n - m) s;
        Some (bytes @ rest, s) })"
  by pat_completeness auto
termination
  by (relation "measure (\<lambda>(get, rel, dat, es, ext, nb, off, n, s). n)") (auto simp: BSIZE_def)

declare readi_loop.simps [simp del]

definition readi :: "int \<Rightarrow> devsw \<Rightarrow> iptr \<Rightarrow> u32 \<Rightarrow> u32 \<Rightarrow> fs \<Rightarrow> (int \<times> u8 list \<times> fs) option" where
  "readi p dv ip off n s = do {
     (h, s) \<leftarrow> holding_inode p ip s;
     let i = inodep s ip;
     (if \<not> h then None
      else if i_type i = T_DEV then
        (if i_devid i < 0 \<or> i_devid i \<ge> NDEV then Some (-1, [], s)
         else case dev_read dv (i_devid i) of
           None \<Rightarrow> Some (-1, [], s)
         | Some f \<Rightarrow> Some (fst (f (unat n)), snd (f (unat n)), s))
      else if off > i_size i \<or> off + n < off then Some (-1, [], s)
      else do {
        let n = (if off + n > i_size i then i_size i - off else n);
        let (ext, nb) = locate 0 (i_data i) 0 (int (unat off div BSIZE));
        (bytes, s) \<leftarrow> readi_loop (fs_bread p (i_dev i)) (fs_brelse p) fs_data (i_data i) ext nb (unat off) (unat n) s;
        Some (c_int (uint n), bytes, s) }) }"

section \<open>Locking\<close>

definition acquire_inode :: "int \<Rightarrow> iptr \<Rightarrow> fs \<Rightarrow> fs option" where
  "acquire_inode p ip s = do {
     l \<leftarrow> acquiresleep p (i_lock (inodep s ip));
     Some (upd_inode ip (i_lock_update (\<lambda>_. l)) s) }"

definition unlocki :: "int \<Rightarrow> iptr \<Rightarrow> fs \<Rightarrow> fs option" where
  "unlocki p ip s = do {
     (h, s) \<leftarrow> holding_inode p ip s;
     (if \<not> h \<or> i_ref (inodep s ip) < 1 then None else do {
       l \<leftarrow> releasesleep (i_lock (inodep s ip));
       Some (upd_inode ip (i_lock_update (\<lambda>_. l)) s) }) }"

text \<open>What \<open>locki\<close> copies from the disk inode into the cache entry.\<close>

definition load_dinode :: "iptr \<Rightarrow> dinode \<Rightarrow> fs \<Rightarrow> fs option" where
  "load_dinode ip dip s =
     (let s = upd_inode ip (\<lambda>i. i\<lparr>i_type := d_type dip, i_devid := d_devid dip, i_size := d_size dip,
          i_data := d_data dip, i_valid := 1\<rparr>) s
      in if i_type (inodep s ip) = 0 then None else Some s)"

definition readi_dinode :: "int \<Rightarrow> devsw \<Rightarrow> u32 \<Rightarrow> fs \<Rightarrow> (dinode \<times> fs) option" where
  "readi_dinode p dv inum s = do {
     (r, bytes, s) \<leftarrow> readi p dv InodeFile (INODEOFF inum) (of_nat sizeof_dinode) s;
     (if length bytes < sizeof_dinode then None else Some (dec_dinode bytes, s)) }"

text \<open>
  \<open>locki\<close> calls itself at most once, on the inode file, and there \<open>read_dinode\<close> finds the
  lock held; so the inode file is locked first.
\<close>

definition locki_inodefile :: "int \<Rightarrow> devsw \<Rightarrow> fs \<Rightarrow> fs option" where
  "locki_inodefile p dv s =
     (if i_ref (ic_inodefile s) < 1 then None else do {
       s \<leftarrow> acquire_inode p InodeFile s;
       (if i_valid (ic_inodefile s) = 0 then do {
          (dip, s) \<leftarrow> readi_dinode p dv (i_inum (ic_inodefile s)) s;
          load_dinode InodeFile dip s }
        else Some s) })"

definition read_dinode :: "int \<Rightarrow> devsw \<Rightarrow> u32 \<Rightarrow> fs \<Rightarrow> (dinode \<times> fs) option" where
  "read_dinode p dv inum s = do {
     (holding, s) \<leftarrow> holding_inode p InodeFile s;
     s \<leftarrow> (if \<not> holding then locki_inodefile p dv s else Some s);
     (dip, s) \<leftarrow> readi_dinode p dv inum s;
     s \<leftarrow> (if \<not> holding then unlocki p InodeFile s else Some s);
     Some (dip, s) }"

fun locki :: "int \<Rightarrow> devsw \<Rightarrow> iptr \<Rightarrow> fs \<Rightarrow> fs option" where
  "locki p dv InodeFile s = locki_inodefile p dv s"
| "locki p dv (Cached i) s =
     (if i_ref (inodep s (Cached i)) < 1 then None else do {
       s \<leftarrow> acquire_inode p (Cached i) s;
       (if i_valid (inodep s (Cached i)) = 0 then do {
          s \<leftarrow> locki_inodefile p dv s;
          (dip, s) \<leftarrow> read_dinode p dv (i_inum (inodep s (Cached i))) s;
          s \<leftarrow> unlocki p InodeFile s;
          load_dinode (Cached i) dip s }
        else Some s) })"

record stat =
  st_type :: int
  st_dev :: int
  st_ino :: u32
  st_size :: u32

definition stati :: "int \<Rightarrow> iptr \<Rightarrow> fs \<Rightarrow> (stat \<times> fs) option" where
  "stati p ip s = do {
     (h, s) \<leftarrow> holding_inode p ip s;
     (if \<not> h then None
      else let i = inodep s ip in
        Some (\<lparr>st_type = i_type i, st_dev = c_int (uint (i_dev i)), st_ino = i_inum i, st_size = i_size i\<rparr>, s)) }"

definition concurrent_stati :: "int \<Rightarrow> devsw \<Rightarrow> iptr \<Rightarrow> fs \<Rightarrow> (stat \<times> fs) option" where
  "concurrent_stati p dv ip s = do {
     s \<leftarrow> locki p dv ip s;
     (st, s) \<leftarrow> stati p ip s;
     s \<leftarrow> unlocki p ip s;
     Some (st, s) }"

definition concurrent_readi :: "int \<Rightarrow> devsw \<Rightarrow> iptr \<Rightarrow> u32 \<Rightarrow> u32 \<Rightarrow> fs \<Rightarrow> (int \<times> u8 list \<times> fs) option" where
  "concurrent_readi p dv ip off n s = do {
     s \<leftarrow> locki p dv ip s;
     (r, bytes, s) \<leftarrow> readi p dv ip off n s;
     s \<leftarrow> unlocki p ip s;
     Some (r, bytes, s) }"

section \<open>Writing\<close>

text \<open>The first loop of \<open>writei\<close>: the first unused extent and the number of blocks before it.\<close>

fun count_blocks :: "extent list \<Rightarrow> nat \<Rightarrow> int \<Rightarrow> nat \<times> int" where
  "count_blocks [] i actual = (0, actual)"
| "count_blocks (e # es) i actual =
     (if nblocks e = 0 then (i, actual) else count_blocks es (Suc i) (c_int (actual + uint (nblocks e))))"

text \<open>
  The copy loop of \<open>writei\<close> on what is left of the source. The extent index running past the last extent
  ends the call early, with the bytes written so far (\<open>Inl\<close>); otherwise the loop runs to its end (\<open>Inr\<close>).
\<close>

function writei_loop :: "int \<Rightarrow> u32 \<Rightarrow> extent list \<Rightarrow> nat \<Rightarrow> int \<Rightarrow> nat \<Rightarrow> u8 list \<Rightarrow> nat \<Rightarrow> fs \<Rightarrow> ((nat + unit) \<times> fs) option" where
  "writei_loop p dev es ext nb off src tot s =
     (if src = [] then Some (Inr (), s)
      else if ext \<ge> length es then None
      else do {
        (bp, s) \<leftarrow> fs_bread p dev (startblkno (es ! ext) + word_of_int nb) s;
        let m = min (length src) (BSIZE - off mod BSIZE);
        let s = fs_upd bp (b_data_update (\<lambda>d. put_at d (off mod BSIZE) (take m src))) s;
        s \<leftarrow> log_write p bp s;
        s \<leftarrow> fs_brelse p bp s;
        let nb = nb + 1;
        (if word_of_int nb \<ge> nblocks (es ! ext)
         then if ext + 1 > MAXEXTENT - 1 then Some (Inl (tot + m), s)
              else writei_loop p dev es (ext + 1) 0 (off + m) (drop m src) (tot + m) s
         else writei_loop p dev es ext nb (off + m) (drop m src) (tot + m) s) })"
  by pat_completeness auto
termination
  by (relation "measure (\<lambda>(p, dev, es, ext, nb, off, src, tot, s). length src)") (auto simp: BSIZE_def)

declare writei_loop.simps [simp del]

definition dinode_of :: "inode \<Rightarrow> dinode" where
  "dinode_of i = \<lparr>d_type = i_type i, d_devid = i_devid i, d_size = i_size i, d_data = i_data i, d_pad = replicate 8 0\<rparr>"

text \<open>
  The body of \<open>writei\<close> over the \<open>write_dinode\<close> it calls when the file grows. The \<open>pad\<close> bytes of the disk inode
  are uninitialised in C and never read.
\<close>

definition writei_body :: "(u32 \<Rightarrow> dinode \<Rightarrow> fs \<Rightarrow> fs option) \<Rightarrow> int \<Rightarrow> devsw \<Rightarrow> iptr \<Rightarrow> u8 list \<Rightarrow> u32 \<Rightarrow> fs \<Rightarrow> (int \<times> fs) option" where
  "writei_body wd p dv ip src off s = do {
     let n = (of_nat (length src) :: u32);
     (h, s) \<leftarrow> holding_inode p ip s;
     let i = inodep s ip;
     (if \<not> h then None
      else if i_type i = T_DEV then
        (if i_devid i < 0 \<or> i_devid i \<ge> NDEV then Some (-1, s)
         else case dev_write dv (i_devid i) of None \<Rightarrow> Some (-1, s) | Some f \<Rightarrow> Some (f src, s))
      else if off > i_size i \<or> off + n < off then Some (-1, s)
      else do {
        let blockstoa = int (unat (off + n) div BSIZE + (if unat (off + n) mod BSIZE = 0 then 0 else 1));
        let (extentnum, actualblocks) = count_blocks (i_data i) 0 0;
        s \<leftarrow> (if off + n > i_size i then do {
                s \<leftarrow> (if blockstoa - actualblocks > 0 then do {
                        (blk, s) \<leftarrow> balloc p (i_dev i) (word_of_int (blockstoa - actualblocks)) s;
                        Some (upd_inode ip (i_data_update (\<lambda>es. es[extentnum :=
                          \<lparr>startblkno = blk, nblocks = word_of_int (blockstoa - actualblocks)\<rparr>])) s) }
                      else Some s);
                let s = upd_inode ip (i_size_update (\<lambda>_. off + n)) s;
                wd (i_inum (inodep s ip)) (dinode_of (inodep s ip)) s }
              else Some s);
        let i = inodep s ip;
        let (ext, nb) = locate extentnum (i_data i) 0 (int (unat off div BSIZE));
        (r, s) \<leftarrow> writei_loop p (i_dev i) (i_data i) ext nb (unat off) src 0 s;
        (case r of
           Inl tot \<Rightarrow> Some (int tot, s)
         | Inr _ \<Rightarrow> do { s \<leftarrow> log_commit_tx p s; Some (c_int (uint n), s) }) }) }"

definition write_dinode_with :: "(iptr \<Rightarrow> u8 list \<Rightarrow> u32 \<Rightarrow> fs \<Rightarrow> (int \<times> fs) option) \<Rightarrow> int \<Rightarrow> devsw \<Rightarrow> u32 \<Rightarrow> dinode \<Rightarrow> fs \<Rightarrow> fs option" where
  "write_dinode_with wr p dv inum dip s = do {
     (holding, s) \<leftarrow> holding_inode p InodeFile s;
     s \<leftarrow> (if \<not> holding then locki_inodefile p dv s else Some s);
     (r, s) \<leftarrow> wr InodeFile (enc_dinode dip) (INODEOFF inum) s;
     (if \<not> holding then unlocki p InodeFile s else Some s) }"

text \<open>
  The recursion \<open>writei\<close> -- \<open>write_dinode\<close> -- \<open>writei\<close> on the inode file. When the
  inode file itself grows, its own disk inode is written next, and that write does not grow it again: three levels are enough.
\<close>

primrec writei_level :: "nat \<Rightarrow> int \<Rightarrow> devsw \<Rightarrow> iptr \<Rightarrow> u8 list \<Rightarrow> u32 \<Rightarrow> fs \<Rightarrow> (int \<times> fs) option" where
  "writei_level 0 p dv ip src off s = None"
| "writei_level (Suc k) p dv ip src off s = writei_body (write_dinode_with (writei_level k p dv) p dv) p dv ip src off s"

definition writei :: "int \<Rightarrow> devsw \<Rightarrow> iptr \<Rightarrow> u8 list \<Rightarrow> u32 \<Rightarrow> fs \<Rightarrow> (int \<times> fs) option" where
  "writei p dv ip src off s = writei_level 3 p dv ip src off s"

definition write_dinode :: "int \<Rightarrow> devsw \<Rightarrow> u32 \<Rightarrow> dinode \<Rightarrow> fs \<Rightarrow> fs option" where
  "write_dinode p dv inum dip s = write_dinode_with (writei p dv) p dv inum dip s"

definition concurrent_writei :: "int \<Rightarrow> devsw \<Rightarrow> iptr \<Rightarrow> u8 list \<Rightarrow> u32 \<Rightarrow> fs \<Rightarrow> (int \<times> fs) option" where
  "concurrent_writei p dv ip src off s = do {
     s \<leftarrow> locki p dv ip s;
     (r, s) \<leftarrow> writei p dv ip src off s;
     s \<leftarrow> unlocki p ip s;
     Some (r, s) }"

section \<open>Initialisation\<close>

definition init_inodefile :: "int \<Rightarrow> u32 \<Rightarrow> fs \<Rightarrow> fs option" where
  "init_inodefile p dev s = do {
     (b, s) \<leftarrow> fs_bread p dev (sb_inodestart (fsb s)) s;
     let di = dec_dinode (take sizeof_dinode (fs_data s b));
     let s = s\<lparr>ic_inodefile := (ic_inodefile s)\<lparr>i_inum := INODEFILEINO, i_dev := dev, i_type := d_type di, i_valid := 1,
       i_ref := 1, i_devid := d_devid di, i_size := d_size di, i_data := d_data di\<rparr>\<rparr>;
     fs_brelse p b s }"

definition iinit :: "int \<Rightarrow> u32 \<Rightarrow> fs \<Rightarrow> fs option" where
  "iinit p dev s = do {
     let s = s\<lparr>ic_lock := initlock ''icache''\<rparr>;
     let s = s\<lparr>ic_inode := map (i_lock_update (\<lambda>_. initsleeplock ''inode'')) (ic_inode s)\<rparr>;
     let s = s\<lparr>ic_inodefile := i_lock_update (\<lambda>_. initsleeplock ''inodefile'') (ic_inodefile s)\<rparr>;
     let s = s\<lparr>fslock := initsleeplock ''log''\<rparr>;
     s \<leftarrow> readsb p dev s;
     s \<leftarrow> log_apply p s;
     init_inodefile p dev s }"

section \<open>What readi returns\<close>

definition ext_blocks :: "extent \<Rightarrow> u32 list" where
  "ext_blocks e = map (\<lambda>k. startblkno e + of_nat k) [0..<unat (nblocks e)]"

definition file_blocks :: "extent list \<Rightarrow> u32 list" where
  "file_blocks es = concat (map ext_blocks es)"

text \<open>The blocks of the file from block \<open>nb\<close> of extent \<open>ext\<close> on.\<close>

definition blocks_from :: "extent list \<Rightarrow> nat \<Rightarrow> int \<Rightarrow> u32 list" where
  "blocks_from es ext nb =
     (if ext < length es then drop (nat nb) (ext_blocks (es ! ext)) @ file_blocks (drop (Suc ext) es) else [])"

text \<open>Used extents come first, and block counts fit an \<open>int\<close>.\<close>

definition packed :: "extent list \<Rightarrow> bool" where
  "packed es \<longleftrightarrow> (\<forall>i < length es. \<forall>j < length es. i \<le> j \<and> nblocks (es ! i) = 0 \<longrightarrow> nblocks (es ! j) = 0) \<and>
     (\<forall>e \<in> set es. uint (nblocks e) < 2 ^ 31)"

lemma length_ext_blocks [simp]: "length (ext_blocks e) = unat (nblocks e)"
  by (simp add: ext_blocks_def)

lemma packed_tail: "packed es \<Longrightarrow> ext < length es \<Longrightarrow> nblocks (es ! ext) = 0 \<Longrightarrow> file_blocks (drop ext es) = []"
  by (auto simp: packed_def file_blocks_def ext_blocks_def in_set_conv_nth)

lemma blocks_from_next:
  "ext < length es \<Longrightarrow> blocks_from es (Suc ext) 0 = file_blocks (drop (Suc ext) es)"
  by (cases "Suc ext < length es") (simp_all add: blocks_from_def file_blocks_def Cons_nth_drop_Suc [symmetric])

text \<open>Inside the file the current block is the one the loop reads, and the step moves to the following one.\<close>

lemma blocks_from_step:
  assumes "packed es" "blocks_from es ext nb \<noteq> []" "0 \<le> nb" "nb = 0 \<or> nb < uint (nblocks (es ! ext))"
  shows "ext < length es" "hd (blocks_from es ext nb) = startblkno (es ! ext) + word_of_int nb"
    "nb < uint (nblocks (es ! ext))"
    "(case if word_of_int (nb + 1) \<ge> nblocks (es ! ext) then (ext + 1, 0) else (ext, nb + 1) of
        (ext', nb') \<Rightarrow> blocks_from es ext' nb' = tl (blocks_from es ext nb) \<and> 0 \<le> nb' \<and>
          (nb' = 0 \<or> nb' < uint (nblocks (es ! ext'))))"
proof -
  show e: "ext < length es" using assms(2) by (auto simp: blocks_from_def split: if_splits)
  show lt: "nb < uint (nblocks (es ! ext))"
  proof (rule ccontr)
    assume "\<not> ?thesis"
    with assms(4) have "nb = 0" "uint (nblocks (es ! ext)) = 0"
      using uint_ge_0 [of "nblocks (es ! ext)"] by linarith+
    then have "nb = 0" "nblocks (es ! ext) = 0" by (simp_all add: word_uint_eq_iff)
    then have "file_blocks (drop ext es) = []" using packed_tail [OF assms(1) e] by simp
    then have "file_blocks (drop (Suc ext) es) = []" "ext_blocks (es ! ext) = []"
      using e by (auto simp: file_blocks_def Cons_nth_drop_Suc [symmetric])
    with assms(2) \<open>nb = 0\<close> e show False by (simp add: blocks_from_def)
  qed
  have l: "nat nb < length (ext_blocks (es ! ext))" using lt assms(3) by (simp add: nat_less_iff)
  then have d: "drop (nat nb) (ext_blocks (es ! ext)) =
      (startblkno (es ! ext) + word_of_int nb) # drop (Suc (nat nb)) (ext_blocks (es ! ext))"
    using assms(3) by (subst Cons_nth_drop_Suc [symmetric]) (simp_all add: ext_blocks_def of_nat_nat)
  then show "hd (blocks_from es ext nb) = startblkno (es ! ext) + word_of_int nb"
    using e by (simp add: blocks_from_def)
  have small: "uint (nblocks (es ! ext)) < 2 ^ 31" using assms(1) e by (simp add: packed_def)
  then have "nb + 1 < 2 ^ 32" "0 \<le> nb + 1" using lt assms(3) by auto
  then have "uint (word_of_int (nb + 1) :: u32) = nb + 1"
    unfolding uint_word_of_int by (simp add: take_bit_int_eq_self)
  then have c: "(word_of_int (nb + 1) \<ge> nblocks (es ! ext)) = (nb + 1 \<ge> uint (nblocks (es ! ext)))"
    by (simp add: word_le_def)
  show "case if word_of_int (nb + 1) \<ge> nblocks (es ! ext) then (ext + 1, 0) else (ext, nb + 1) of
        (ext', nb') \<Rightarrow> blocks_from es ext' nb' = tl (blocks_from es ext nb) \<and> 0 \<le> nb' \<and>
          (nb' = 0 \<or> nb' < uint (nblocks (es ! ext')))"
  proof (cases "nb + 1 \<ge> uint (nblocks (es ! ext))")
    case True
    then have "Suc (nat nb) \<ge> length (ext_blocks (es ! ext))" 
      using assms(3) by (simp add: nat_less_iff not_less [symmetric] Suc_nat_eq_nat_zadd1)
    then show ?thesis using True e d blocks_from_next [OF e] unfolding c by (simp add: blocks_from_def)
  next
    case False
    then show ?thesis using e d assms(3) unfolding c by (simp add: blocks_from_def nat_add_distrib)
  qed
qed

lemma packed_Cons:
  assumes "packed (e # es)"
  shows "packed es"
proof -
  have "nblocks (es ! j) = 0" if "i < length es" "j < length es" "i \<le> j \<and> nblocks (es ! i) = 0" for i j
    using assms [unfolded packed_def, THEN conjunct1, rule_format, of "Suc i" "Suc j"] that by simp
  then show ?thesis using assms unfolding packed_def by (meson list.set_intros(2))
qed

lemma locate_ok:
  assumes "packed es" "0 \<le> q" "q < 2 ^ 31" "nat q < length (file_blocks es)" "locate e0 es i q = (ext, nb)"
  shows "i \<le> ext \<and> ext - i < length es \<and> 0 \<le> nb \<and> nb < uint (nblocks (es ! (ext - i))) \<and>
    blocks_from es (ext - i) nb = drop (nat q) (file_blocks es)"
  using assms
proof (induction es arbitrary: i q)
  case (Cons e es)
  have sm: "uint (nblocks e) < 2 ^ 31" using Cons.prems(1) by (simp add: packed_def)
  have pk: "packed es" using packed_Cons Cons.prems(1) by blast
  have ci: "c_int (uint (nblocks e)) = uint (nblocks e)" 
    using sm uint_ge_0 [of "nblocks e"] by (intro c_int_id) linarith+
  define q' where "q' = q - uint (nblocks e)"
  have cq: "c_int q' = q'" using sm uint_ge_0 [of "nblocks e"] Cons.prems(2,3) 
    unfolding q'_def by (intro c_int_id) linarith+
  show ?case
  proof (cases "q' < 0")
    case True
    then have "ext = i" "nb = q" using Cons.prems(5) by (simp_all add: Let_def ci q'_def [symmetric] cq)
    moreover have "nat q \<le> length (ext_blocks e)" using True Cons.prems(2) nat_less_iff [of q "unat (nblocks e)"] by (simp add: q'_def)
    ultimately show ?thesis using Cons.prems(2) True by (simp add: blocks_from_def file_blocks_def q'_def)
  next
    case False
    then have l: "locate e0 es (Suc i) q' = (ext, nb)"
      using Cons.prems(5) by (simp add: Let_def ci q'_def [symmetric] cq)
    have "int (nat q) = int (unat (nblocks e) + nat q')" using False Cons.prems(2) by (simp add: q'_def)
    then have nq: "nat q = unat (nblocks e) + nat q'" by (simp only: of_nat_eq_iff)
    have lt: "nat q' < length (file_blocks es)" using Cons.prems(4) nq by (simp add: file_blocks_def)
    have q2: "0 \<le> q'" "q' < 2 ^ 31" using False Cons.prems(3) uint_ge_0 [of "nblocks e"] unfolding q'_def by linarith+
    obtain k where k: "ext = Suc i + k" "k < length es" "0 \<le> nb" "nb < uint (nblocks (es ! k))"
      "blocks_from es k nb = drop (nat q') (file_blocks es)"
      using Cons.IH [OF pk q2 lt l] by (metis le_add_diff_inverse)
    have "drop (nat q) (file_blocks (e # es)) = drop (nat q') (file_blocks es)" by (simp add: nq file_blocks_def)
    moreover have "blocks_from (e # es) (Suc k) nb = blocks_from es k nb" by (simp add: blocks_from_def)
    moreover have "ext - i = Suc k" using k(1) by simp
    ultimately show ?thesis using k by simp
  qed
qed (simp add: file_blocks_def)

text \<open>
  The copy loop over any block cache: it returns, delivers the bytes of the file, and leaves the cache readable.
\<close>

context block_cache
begin

lemma take_drop_block:
  assumes "length x = BSIZE" "k < BSIZE" "m = min n (BSIZE - k)"
  shows "get_at x k m @ take (n - m) (drop ((k + m) mod BSIZE) y) = take n (drop k (x @ y))"
proof (cases "n \<le> BSIZE - k")
  case True
  then have "m = n" using assms(3) by simp
  then show ?thesis using True assms(1) by (simp add: get_at_def)
next
  case False
  then have m: "m = BSIZE - k" using assms(3) by simp
  then have "(k + m) mod BSIZE = 0" using assms(2) by simp
  then show ?thesis using m False assms(1,2) by (simp add: get_at_def)
qed

lemma readi_loop_ok:
  assumes "packed es" "0 \<le> nb" "nb = 0 \<or> nb < uint (nblocks (es ! ext))"
    and "n = 0 \<or> off mod BSIZE + n \<le> BSIZE * length (blocks_from es ext nb)"
    and "\<forall>b \<in> set (blocks_from es ext nb). ready b s"
  shows "\<exists>s'. readi_loop get rel contents es ext nb off n s =
      Some (take n (drop (off mod BSIZE) (concat (map (vw s) (blocks_from es ext nb)))), s') \<and>
      vw s' = vw s \<and> (\<forall>k. ready k s \<longrightarrow> ready k s')"
  using assms
proof (induction n arbitrary: ext nb off s rule: less_induct)
  case (less n)
  let ?bl = "blocks_from es ext nb"
  show ?case
  proof (cases "n = 0")
    case True
    then show ?thesis by (simp add: readi_loop.simps [of get rel contents es ext nb off 0 s])
  next
    case False
    have B: "0 < BSIZE" by (simp add: BSIZE_def)
    have ne: "?bl \<noteq> []" using less.prems(4) False by auto
    note st = blocks_from_step [OF less.prems(1) ne less.prems(2,3)]
    obtain x bl where bl: "?bl = x # bl" using ne by (cases ?bl) auto
    obtain ext' nb' where e': "(if word_of_int (nb + 1) \<ge> nblocks (es ! ext) then (ext + 1, 0) else (ext, nb + 1)) = (ext', nb')"
      by fastforce
    have st': "blocks_from es ext' nb' = bl" "0 \<le> nb'" "nb' = 0 \<or> nb' < uint (nblocks (es ! ext'))"
      using st(4) unfolding e' by (simp_all add: bl)
    have rx: "ready x s" using less.prems(5) bl by simp
    obtain b s1 s2 where g: "get x s = Some (b, s1)" "contents s1 b = vw s x" "rel b s1 = Some s2" "vw s2 = vw s"
        "\<forall>k. ready k s \<longrightarrow> ready k s2" using get_rel [OF rx] by blast
    have x: "x = startblkno (es ! ext) + word_of_int nb" using st(2) bl by simp
    define m where "m = min n (BSIZE - off mod BSIZE)"
    have m: "0 < m" "m \<le> n" using False B by (auto simp: m_def)
    have mod: "(off + m) mod BSIZE = (off mod BSIZE + m) mod BSIZE" by (simp add: mod_add_left_eq)
    have le: "n - m = 0 \<or> (off + m) mod BSIZE + (n - m) \<le> BSIZE * length bl"
      using less.prems(4) False bl B unfolding mod by (cases "n \<le> BSIZE - off mod BSIZE") (auto simp: m_def)
    obtain s' where s': "readi_loop get rel contents es ext' nb' (off + m) (n - m) s2 =
        Some (take (n - m) (drop ((off + m) mod BSIZE) (concat (map (vw s2) bl))), s')" "vw s' = vw s2"
        "\<forall>k. ready k s2 \<longrightarrow> ready k s'"
      using less.IH [of "n - m" nb' ext' "off + m" s2] less.prems(1,5) st' le m False g(5) bl by auto
    have "readi_loop get rel contents es ext nb off n s =
        Some (get_at (vw s x) (off mod BSIZE) m @ take (n - m) (drop ((off + m) mod BSIZE) (concat (map (vw s2) bl))), s')"
      using False st(1) g(1-3) s'(1) e'
      by (simp add: readi_loop.simps [where n = n] x [symmetric] m_def [symmetric] Let_def)
    moreover have "off mod BSIZE < BSIZE" using B by simp
    ultimately show ?thesis
      using take_drop_block [OF block_length [OF rx] _ m_def, of "concat (map (vw s) bl)"] s' g(4,5)
      by (simp add: bl mod)
  qed
qed

end
interpretation fc: block_cache "fs_bread p ROOTDEV" "fs_brelse p" fs_data
  "\<lambda>blk s. quiet p (fbc s) \<and> on_disk blk (fbc s)" fview for p :: int
proof
  fix blk :: u32 and s :: fs
  assume r: "quiet p (fbc s) \<and> on_disk blk (fbc s)"
  then show "length (fview s blk) = BSIZE" by (rule bc.block_length)
  obtain b c1 c2 where "bread p ROOTDEV blk (fbc s) = Some (b, c1)" "b_data (bufp c1 b) = fview s blk"
      "brelse p b c1 = Some c2" "view c2 = fview s" "\<forall>k. quiet p (fbc s) \<and> on_disk k (fbc s) \<longrightarrow> quiet p c2 \<and> on_disk k c2"
    using bc.get_rel [OF r] by blast
  then show "\<exists>b s1 s2. fs_bread p ROOTDEV blk s = Some (b, s1) \<and> fs_data s1 b = fview s blk \<and>
     fs_brelse p b s1 = Some s2 \<and> fview s2 = fview s \<and>
     (\<forall>k. quiet p (fbc s) \<and> on_disk k (fbc s) \<longrightarrow> quiet p (fbc s2) \<and> on_disk k (fbc s2))"
    by (auto simp: fs_ops)
qed

text \<open>A regular file whose extents cover its size and lie on the disk; its contents block by block.\<close>

definition file_ok :: "fs \<Rightarrow> inode \<Rightarrow> bool" where
  "file_ok s i \<longleftrightarrow> i_type i \<noteq> T_DEV \<and> i_dev i = ROOTDEV \<and> packed (i_data i) \<and>
     unat (i_size i) \<le> BSIZE * length (file_blocks (i_data i)) \<and>
     (\<forall>b \<in> set (file_blocks (i_data i)). on_disk b (fbc s))"

definition file_bytes :: "fs \<Rightarrow> inode \<Rightarrow> u8 list" where
  "file_bytes s i = take (unat (i_size i)) (concat (map (fview s) (file_blocks (i_data i))))"

lemma upd_inode_id [simp]: "upd_inode ip (i_lock_update (\<lambda>_. i_lock (inodep s ip))) s = s"
  by (cases ip) (cases s; simp)+

lemma holding_inode_held: "sl_held p (i_lock (inodep s ip)) \<Longrightarrow> holding_inode p ip s = Some (True, s)"
  by (simp add: holding_inode_def)

lemma drop_concat_blocks:
  assumes "\<And>b. b \<in> set bs \<Longrightarrow> length (f b) = BSIZE" "q \<le> length bs"
  shows "drop r (concat (map f (drop q bs))) = drop (q * BSIZE + r) (concat (map f bs))"
  using assms
proof (induction bs arbitrary: q)
  case (Cons b bs)
  then show ?case
  proof (cases q)
    case (Suc k)
    with Cons.IH [of k] Cons.prems show ?thesis by simp
  qed simp
qed simp

lemma readi_loop_Some:
  assumes "readi_loop get rel dat es ext nb off n s = Some (bs, s')" "n \<noteq> 0"
  shows "\<exists>blk b s1 s2 ext' nb' rest. get blk s = Some (b, s1) \<and> rel b s1 = Some s2 \<and>
    readi_loop get rel dat es ext' nb' (off + min n (BSIZE - off mod BSIZE)) (n - min n (BSIZE - off mod BSIZE)) s2 = Some (rest, s')"
  using assms by (subst (asm) readi_loop.simps) (simp add: Let_def bind_eq_Some_conv split: if_splits, blast+)

lemma readi_loop_fbc:
  "readi_loop (fs_bread p d) (fs_brelse p) fs_data es ext nb off n s = Some (bs, s') \<Longrightarrow> s'\<lparr>fbc := fbc s\<rparr> = s"
proof (induction n arbitrary: ext nb off s bs rule: less_induct)
  case (less n)
  show ?case
  proof (cases "n = 0")
    case True
    then show ?thesis using less.prems by (simp add: readi_loop.simps [of _ _ _ _ _ _ _ 0])
  next
    case False
    let ?m = "min n (BSIZE - off mod BSIZE)"
    obtain blk b s1 s2 ext' nb' rest where r: "fs_bread p d blk s = Some (b, s1)" "fs_brelse p b s1 = Some s2"
      "readi_loop (fs_bread p d) (fs_brelse p) fs_data es ext' nb' (off + ?m) (n - ?m) s2 = Some (rest, s')"
      using readi_loop_Some [OF less.prems False] by blast
    have "s2\<lparr>fbc := fbc s\<rparr> = s" using r(1,2) by (cases s) (auto simp: fs_bread_def fs_brelse_def bind_eq_Some_conv)
    moreover have "s'\<lparr>fbc := fbc s2\<rparr> = s2" by (rule less.IH [OF _ r(3)]) (use False in \<open>simp add: BSIZE_def\<close>)
    ultimately show ?thesis by (cases s; cases s2; cases s') simp
  qed
qed

lemma readi_ok:
  assumes q: "quiet p (fbc s)" and lk: "sl_held p (i_lock (inodep s ip))" and f: "file_ok s (inodep s ip)"
  defines "i \<equiv> inodep s ip"
  shows "if off > i_size i \<or> off + n < off then readi p dv ip off n s = Some (-1, [], s)
    else \<exists>s'. readi p dv ip off n s = Some (c_int (int (min (unat n) (unat (i_size i) - unat off))),
           take (unat n) (drop (unat off) (file_bytes s i)), s') \<and> fview s' = fview s \<and> quiet p (fbc s') \<and>
           (\<forall>k. on_disk k (fbc s) \<longrightarrow> on_disk k (fbc s')) \<and> s'\<lparr>fbc := fbc s\<rparr> = s"
proof (cases "off > i_size i \<or> off + n < off")
  case True
  then show ?thesis using f holding_inode_held [OF lk] by (auto simp: readi_def i_def file_ok_def Let_def)
next
  case False
  let ?es = "i_data i" and ?fb = "file_blocks (i_data i)"
  define m where "m = (if off + n > i_size i then i_size i - off else n)"
  have le: "unat off \<le> unat (i_size i)" using False by (simp add: word_le_nat_alt not_less)
  have sum: "unat (off + n) = unat off + unat n" using False by (simp add: unat_plus_simple not_less)
  have m: "unat m = min (unat n) (unat (i_size i) - unat off)"
    using le sum False by (auto simp: m_def word_less_nat_alt unat_sub word_le_nat_alt min_def)
  obtain ext nb where l: "locate 0 ?es 0 (int (unat off div BSIZE)) = (ext, nb)" by fastforce
  have f': "packed ?es" "i_type i \<noteq> T_DEV" "i_dev i = ROOTDEV" "unat (i_size i) \<le> BSIZE * length ?fb"
    "\<forall>b \<in> set ?fb. on_disk b (fbc s)" using f by (auto simp: file_ok_def i_def)
  have "\<exists>s'. readi_loop (fs_bread p ROOTDEV) (fs_brelse p) fs_data ?es ext nb (unat off) (unat m) s =
      Some (take (unat m) (drop (unat off) (concat (map (fview s) ?fb))), s') \<and> fview s' = fview s \<and> quiet p (fbc s') \<and>
      (\<forall>k. on_disk k (fbc s) \<longrightarrow> on_disk k (fbc s')) \<and> s'\<lparr>fbc := fbc s\<rparr> = s"
  proof (cases "unat m = 0")
    case True
    then show ?thesis using q by (simp add: readi_loop.simps [of _ _ _ _ _ _ _ 0])
  next
    case False
    have B: "0 < BSIZE" by (simp add: BSIZE_def)
    have "unat off < BSIZE * length ?fb" using False m f'(4) by auto
    then have lt: "unat off div BSIZE < length ?fb" using B by (simp add: div_less_iff_less_mult mult.commute)
    have "unat off div BSIZE < 2 ^ 31" using unat_u32_less [of off] by (simp add: BSIZE_def)
    then have qs: "0 \<le> int (unat off div BSIZE)" "int (unat off div BSIZE) < 2 ^ 31" by simp_all
    have pos: "0 \<le> nb" "nb < uint (nblocks (?es ! ext))" and bf: "blocks_from ?es ext nb = drop (unat off div BSIZE) ?fb"
      using locate_ok [OF f'(1) qs _ l] lt by simp_all
    have rd: "\<forall>b \<in> set (blocks_from ?es ext nb). quiet p (fbc s) \<and> on_disk b (fbc s)"
      using q f'(5) unfolding bf by (auto dest: in_set_dropD)
    have "unat m \<le> BSIZE * length ?fb - unat off" using m f'(4) by simp
    then have "unat off mod BSIZE + unat m \<le> BSIZE * length (blocks_from ?es ext nb)"
      using \<open>unat off < BSIZE * length ?fb\<close> unfolding bf
      by (simp add: right_diff_distrib' minus_mod_eq_mult_div [symmetric])
    then obtain s' where s': "readi_loop (fs_bread p ROOTDEV) (fs_brelse p) fs_data ?es ext nb (unat off) (unat m) s =
        Some (take (unat m) (drop (unat off mod BSIZE) (concat (map (fview s) (blocks_from ?es ext nb)))), s')"
        "fview s' = fview s" "\<forall>k. quiet p (fbc s) \<and> on_disk k (fbc s) \<longrightarrow> quiet p (fbc s') \<and> on_disk k (fbc s')"
      using fc.readi_loop_ok [OF f'(1) pos(1) _ _ rd, of "unat m" "unat off"] pos(2) by blast
    have "drop (unat off mod BSIZE) (concat (map (fview s) (blocks_from ?es ext nb))) = drop (unat off) (concat (map (fview s) ?fb))"
      unfolding bf using drop_concat_blocks [of ?fb "fview s" "unat off div BSIZE" "unat off mod BSIZE"] lt q f'(5)
      by (simp add: fc.block_length)
    moreover have "\<exists>k. on_disk k (fbc s)" using f'(5) lt by (metis list.set_sel(1) list.size(3) not_less_zero)
    ultimately show ?thesis using s' q readi_loop_fbc [OF s'(1)] by metis
  qed
  moreover have "take (unat m) (drop (unat off) (concat (map (fview s) ?fb))) = take (unat n) (drop (unat off) (file_bytes s i))"
    by (simp add: file_bytes_def m drop_take min.commute)
  moreover have "readi p dv ip off n s =
      do { (bytes, s) \<leftarrow> readi_loop (fs_bread p ROOTDEV) (fs_brelse p) fs_data ?es ext nb (unat off) (unat m) s;
           Some (c_int (uint m), bytes, s) }"
    using False f'(2,3) holding_inode_held [OF lk] l
    by (simp add: readi_def Let_def i_def [symmetric] m_def)
  moreover have "uint m = int (min (unat n) (unat (i_size i) - unat off))" unfolding m [symmetric] by simp
  ultimately show ?thesis using False by auto
qed

text \<open>
  C5. \<open>readi\<close> on a locked regular file. Within the file it returns the number of bytes asked for, cut at the end
  of the file, and delivers exactly those bytes of the file's contents, whatever extents they are in;
  an offset past the end, or a length that wraps around, gives \<open>-1\<close>. No block changes.
\<close>

theorem readi_correct:
  assumes "quiet p (fbc s)" and "sl_held p (i_lock (inodep s ip))" and "file_ok s (inodep s ip)"
  defines "i \<equiv> inodep s ip"
  shows "if off > i_size i \<or> off + n < off then readi p dv ip off n s = Some (-1, [], s)
    else \<exists>s'. readi p dv ip off n s = Some (c_int (int (min (unat n) (unat (i_size i) - unat off))),
           take (unat n) (drop (unat off) (file_bytes s i)), s') \<and> fview s' = fview s \<and> quiet p (fbc s')"
  using readi_ok [OF assms(1-3), of off n dv] unfolding i_def by (auto split: if_splits)

section \<open>The inode cache keeps one entry per inode\<close>

definition live_inode :: "u32 \<Rightarrow> u32 \<Rightarrow> inode \<Rightarrow> bool" where
  "live_inode dev inum i \<longleftrightarrow> i_ref i > 0 \<and> i_dev i = dev \<and> i_inum i = inum"

definition icache_ok :: "fs \<Rightarrow> bool" where
  "icache_ok s \<longleftrightarrow> lk_free (ic_lock s) \<and> length (ic_inode s) = NINODE \<and>
     (\<forall>i < NINODE. 0 \<le> i_ref (ic_inode s ! i) \<and> i_ref (ic_inode s ! i) < 2 ^ 31) \<and>
     (\<forall>i < NINODE. \<forall>j < NINODE. \<forall>dev inum. live_inode dev inum (ic_inode s ! i) \<longrightarrow>
        live_inode dev inum (ic_inode s ! j) \<longrightarrow> i = j)"

lemma icache_lock:
  assumes "lk_free (ic_lock s)"
  shows "acquire_ic s = Some (s\<lparr>ic_lock := (ic_lock s)\<lparr>locked := 1, lkcpu := mycpu\<rparr>\<rparr>)"
    "lk_free l \<Longrightarrow> release_ic (s\<lparr>ic_inode := xs, ic_lock := l\<lparr>locked := 1, lkcpu := mycpu\<rparr>\<rparr>) = Some (s\<lparr>ic_inode := xs, ic_lock := l\<rparr>)"
  using assms by (simp_all add: acquire_ic_def release_ic_def)

definition set_inode :: "nat \<Rightarrow> (inode \<Rightarrow> inode) \<Rightarrow> fs \<Rightarrow> fs" where
  "set_inode i f s = s\<lparr>ic_inode := (ic_inode s)[i := f (ic_inode s ! i)]\<rparr>"

lemma iget_cases:
  assumes "icache_ok s"
  shows "iget dev inum s =
    (case for_first (\<lambda>i. live_inode dev inum (ic_inode s ! i)) 0 NINODE of
       Some i \<Rightarrow> Some (Cached i, set_inode i (i_ref_update (\<lambda>r. c_int (r + 1))) s)
     | None \<Rightarrow> (case for_first (\<lambda>i. i_ref (ic_inode s ! i) = 0) 0 NINODE of
           None \<Rightarrow> None
         | Some i \<Rightarrow> Some (Cached i, set_inode i (\<lambda>ip. ip\<lparr>i_ref := 1, i_valid := 0, i_dev := dev, i_inum := inum\<rparr>) s)))"
proof -
  have "lk_free (ic_lock s)" using assms by (simp add: icache_ok_def)
  then show ?thesis
    by (cases s) (auto simp: iget_def acquire_ic_def release_ic_def set_inode_def live_inode_def Let_def split: option.split)
qed

lemma icache_ok_set:
  assumes "icache_ok s" "i < NINODE" "0 \<le> i_ref (f (ic_inode s ! i))" "i_ref (f (ic_inode s ! i)) < 2 ^ 31"
    and "\<And>j dev inum. \<lbrakk>j < NINODE; live_inode dev inum (f (ic_inode s ! i)); live_inode dev inum (ic_inode s ! j)\<rbrakk> \<Longrightarrow> j = i"
  shows "icache_ok (set_inode i f s)"
proof -
  have u: "j = k" if "j < NINODE" "k < NINODE" "live_inode dev inum (ic_inode (set_inode i f s) ! j)"
     "live_inode dev inum (ic_inode (set_inode i f s) ! k)" for j k dev inum
  proof -
    have un: "j = k" if "live_inode dev inum (ic_inode s ! j)" "live_inode dev inum (ic_inode s ! k)"
      using assms(1) \<open>j < NINODE\<close> \<open>k < NINODE\<close> that unfolding icache_ok_def by blast
    show ?thesis
      using that assms(1,2) assms(5) [of j dev inum] assms(5) [of k dev inum] un
      by (cases "j = i"; cases "k = i") (simp_all add: set_inode_def nth_upd icache_ok_def)
  qed
  show ?thesis
    using assms(1-4) u by (simp add: icache_ok_def) (simp add: set_inode_def nth_upd)
qed

text \<open>
  C19. \<open>iget\<close> on a consistent inode cache: it fails (panics) only when the inode is not cached and every entry is
  referenced. Otherwise it returns the one entry for the inode with one more reference, a fresh entry being marked
  invalid, no other entry changes, and the cache stays consistent: one entry per inode.
\<close>

theorem iget_correct:
  assumes ok: "icache_ok s" and room: "\<forall>i < NINODE. i_ref (ic_inode s ! i) < 2 ^ 31 - 1"
  shows "case iget dev inum s of
      None \<Rightarrow> \<forall>i < NINODE. i_ref (ic_inode s ! i) \<noteq> 0 \<and> \<not> live_inode dev inum (ic_inode s ! i)
    | Some (ip, s') \<Rightarrow> \<exists>i < NINODE. ip = Cached i \<and> icache_ok s' \<and> live_inode dev inum (ic_inode s' ! i) \<and>
        (\<forall>j. j \<noteq> i \<longrightarrow> ic_inode s' ! j = ic_inode s ! j) \<and>
        (if live_inode dev inum (ic_inode s ! i) then i_ref (ic_inode s' ! i) = i_ref (ic_inode s ! i) + 1
         else i_ref (ic_inode s ! i) = 0 \<and> i_ref (ic_inode s' ! i) = 1 \<and> i_valid (ic_inode s' ! i) = 0)"
proof (cases "for_first (\<lambda>i. live_inode dev inum (ic_inode s ! i)) 0 NINODE")
  case (Some i)
  then have i: "i < NINODE" "live_inode dev inum (ic_inode s ! i)" by (auto simp: for_first_Some)
  let ?f = "i_ref_update (\<lambda>r. c_int (r + 1))"
  have pos: "0 < i_ref (ic_inode s ! i)" using i(2) by (simp add: live_inode_def)
  then have c: "c_int (i_ref (ic_inode s ! i) + 1) = i_ref (ic_inode s ! i) + 1"
    using room i(1) by (intro c_int_id) auto
  have "icache_ok (set_inode i ?f s)"
  proof (rule icache_ok_set [OF ok i(1)])
    show "j = i" if "j < NINODE" "live_inode d n (?f (ic_inode s ! i))" "live_inode d n (ic_inode s ! j)" for j d n
    proof -
      have "live_inode d n (ic_inode s ! i)" using that(2) pos by (simp add: live_inode_def)
      then show ?thesis using ok that(1,3) i(1) unfolding icache_ok_def by blast
    qed
  qed (use c pos room i(1) in auto)
  moreover have "length (ic_inode s) = NINODE" using ok by (simp add: icache_ok_def)
  ultimately show ?thesis
    using Some i c pos by (auto simp: iget_cases [OF ok]) (auto simp: set_inode_def live_inode_def)
next
  case None
  then have nl: "\<forall>i < NINODE. \<not> live_inode dev inum (ic_inode s ! i)" by (auto simp: for_first_None)
  show ?thesis
  proof (cases "for_first (\<lambda>i. i_ref (ic_inode s ! i) = 0) 0 NINODE")
    case None': None
    then show ?thesis using None nl by (simp add: iget_cases [OF ok]) (auto simp: for_first_None)
  next
    case (Some i)
    then have i: "i < NINODE" "i_ref (ic_inode s ! i) = 0" by (auto simp: for_first_Some)
    let ?f = "\<lambda>ip. ip\<lparr>i_ref := 1, i_valid := 0, i_dev := dev, i_inum := inum\<rparr>"
    have "icache_ok (set_inode i ?f s)"
      by (rule icache_ok_set [OF ok i(1)]) (use nl in \<open>auto simp: live_inode_def\<close>)
    moreover have "length (ic_inode s) = NINODE" using ok by (simp add: icache_ok_def)
    ultimately show ?thesis
      using Some None i nl by (auto simp: iget_cases [OF ok]) (auto simp: set_inode_def live_inode_def)
  qed
qed

section \<open>Witnesses\<close>

definition inode_demo :: inode where
  "inode_demo = inode_zero\<lparr>i_dev := ROOTDEV, i_inum := 5, i_ref := 1, i_valid := 1,
     i_lock := (initsleeplock ''inode'')\<lparr>slocked := 1, slpid := 1\<rparr>, i_type := T_FILE, i_size := 600,
     i_data := [\<lparr>startblkno = 36, nblocks = 1\<rparr>, \<lparr>startblkno = 38, nblocks = 1\<rparr>] @ replicate 28 \<lparr>startblkno = 0, nblocks = 0\<rparr>\<rparr>"

definition fs_file_demo :: fs where
  "fs_file_demo = (fs_demo blocks_demo)\<lparr>ic_inode := (replicate NINODE inode_zero)[0 := inode_demo]\<rparr>"

definition dv_none :: devsw where
  "dv_none = \<lparr>dev_read = (\<lambda>_. None), dev_write = (\<lambda>_. None)\<rparr>"

lemma inode_demo_blocks: "file_blocks (i_data inode_demo) = [36, 38]"
  by (simp add: inode_demo_def file_blocks_def ext_blocks_def)

lemma inode_demo_packed: "packed (i_data inode_demo)"
  by (auto simp: inode_demo_def packed_def nth_Cons' nth_append split: if_splits)

lemma fs_file_demo_ok:
  "quiet 1 (fbc fs_file_demo)" "sl_held 1 (i_lock (inodep fs_file_demo (Cached 0)))"
  "inodep fs_file_demo (Cached 0) = inode_demo" "file_ok fs_file_demo inode_demo"
proof -
  show "quiet 1 (fbc fs_file_demo)"
    using bcache_boot_quiet [OF blocks_demo_ok(1)] by (simp add: fs_file_demo_def fs_demo_def)
  show i: "inodep fs_file_demo (Cached 0) = inode_demo" by (simp add: fs_file_demo_def NINODE_def)
  show "sl_held 1 (i_lock (inodep fs_file_demo (Cached 0)))"
    unfolding i by (simp add: inode_demo_def sl_held_def initsleeplock_def lk_free_def initlock_def)
  have "disk (fbc fs_file_demo) = blocks_demo" by (simp add: fs_file_demo_def fs_demo_fields)
  then have "on_disk 36 (fbc fs_file_demo)" "on_disk 38 (fbc fs_file_demo)"
    by (simp_all add: on_disk_def blocks_demo_ok)
  then show "file_ok fs_file_demo inode_demo"
    using inode_demo_packed inode_demo_blocks
    by (simp add: file_ok_def) (simp add: inode_demo_def T_FILE_def T_DEV_def BSIZE_def)
qed

theorem readi_correct_witness:
  "\<exists>s'. readi 1 dv_none (Cached 0) 500 200 fs_file_demo =
     Some (100, take 200 (drop 500 (file_bytes fs_file_demo inode_demo)), s')"
proof -
  have "if (500::u32) > i_size inode_demo \<or> (500::u32) + 200 < 500 then True else
    \<exists>s'. readi 1 dv_none (Cached 0) 500 200 fs_file_demo =
     Some (c_int (int (min (unat (200::u32)) (unat (i_size inode_demo) - unat (500::u32)))),
       take (unat (200::u32)) (drop (unat (500::u32)) (file_bytes fs_file_demo inode_demo)), s')"
    using readi_correct [OF fs_file_demo_ok(1,2), of 500 200 dv_none] fs_file_demo_ok(4)
    unfolding fs_file_demo_ok(3) by auto
  then show ?thesis by (simp add: inode_demo_def c_int_def)
qed

theorem iget_correct_witness:
  "\<exists>s'. iget ROOTDEV 5 fs_file_demo = Some (Cached 0, s') \<and> icache_ok s' \<and> i_ref (ic_inode s' ! 0) = 2"
proof -
  have nth: "ic_inode fs_file_demo ! i = (if i = 0 then inode_demo else inode_zero)" if "i < NINODE" for i
    using that by (auto simp: fs_file_demo_def NINODE_def)
  have ok: "icache_ok fs_file_demo"
    by (auto simp: icache_ok_def nth live_inode_def)
       (auto simp: fs_file_demo_def fs_demo_def inode_demo_def inode_zero_def lk_free_def initlock_def split: if_splits)
  have room: "\<forall>i < NINODE. i_ref (ic_inode fs_file_demo ! i) < 2 ^ 31 - 1"
    by (auto simp: nth inode_demo_def inode_zero_def)
  have "iget ROOTDEV 5 fs_file_demo = Some (Cached 0, set_inode 0 (i_ref_update (\<lambda>r. c_int (r + 1))) fs_file_demo)"
    using nth [of 0] by (simp add: iget_cases [OF ok] for_first.simps [of _ 0]) (simp add: NINODE_def live_inode_def inode_demo_def)
  then show ?thesis
    using iget_correct [OF ok room, of ROOTDEV 5] nth [of 0]
    by (auto simp: live_inode_def inode_demo_def NINODE_def)
qed

end
