(* ===== verification/Xk_String.thy ===== *)
theory Xk_String
  imports Xk_Prelude
begin

text \<open>
  \<open>kernel/string.c\<close>: the memory and string routines, on a byte memory indexed by address. A pointer that the
  C code steps through a buffer is the address, a NUL-terminated string is read with \<open>cstr\<close>.
  \<open>stosb\<close> and \<open>stosl\<close> of \<open>inc/x86_64.h\<close> are the repeated stores \<open>memset\<close> is built on.
\<close>

type_synonym mem = "nat \<Rightarrow> u8"

section \<open>memset and its two store loops\<close>

fun stosb :: "mem \<Rightarrow> nat \<Rightarrow> u32 \<Rightarrow> nat \<Rightarrow> mem" where
  "stosb m addr data 0 = m"
| "stosb m addr data (Suc cnt) = stosb (m(addr := ucast data)) (Suc addr) data cnt"

definition store32 :: "mem \<Rightarrow> nat \<Rightarrow> u32 \<Rightarrow> mem" where
  "store32 m a w = m(a := ucast w, a + 1 := ucast (drop_bit 8 w), a + 2 := ucast (drop_bit 16 w),
     a + 3 := ucast (drop_bit 24 w))"

fun stosl :: "mem \<Rightarrow> nat \<Rightarrow> u32 \<Rightarrow> nat \<Rightarrow> mem" where
  "stosl m addr data 0 = m"
| "stosl m addr data (Suc cnt) = stosl (store32 m addr data) (addr + 4) data cnt"

definition memset :: "mem \<Rightarrow> nat \<Rightarrow> u32 \<Rightarrow> nat \<Rightarrow> mem" where
  "memset m dst c n =
     (if dst mod 4 = 0 \<and> n mod 4 = 0 then
        let c = c AND 0xFF
        in stosl m dst (push_bit 24 c OR push_bit 16 c OR push_bit 8 c OR c) (n div 4)
      else stosb m dst c n)"

section \<open>memcmp, memmove\<close>

fun memcmp :: "mem \<Rightarrow> nat \<Rightarrow> nat \<Rightarrow> nat \<Rightarrow> int" where
  "memcmp m s1 s2 0 = 0"
| "memcmp m s1 s2 (Suc n) =
     (if m s1 \<noteq> m s2 then uint (m s1) - uint (m s2) else memcmp m (Suc s1) (Suc s2) n)"

fun memmove_back :: "mem \<Rightarrow> nat \<Rightarrow> nat \<Rightarrow> nat \<Rightarrow> mem" where
  "memmove_back m d s 0 = m"
| "memmove_back m d s (Suc n) = memmove_back (m(d + n := m (s + n))) d s n"

fun memmove_fwd :: "mem \<Rightarrow> nat \<Rightarrow> nat \<Rightarrow> nat \<Rightarrow> mem" where
  "memmove_fwd m d s 0 = m"
| "memmove_fwd m d s (Suc n) = memmove_fwd (m(d := m s)) (Suc d) (Suc s) n"

definition memmove :: "mem \<Rightarrow> nat \<Rightarrow> nat \<Rightarrow> nat \<Rightarrow> mem" where
  "memmove m dst src n =
     (if src < dst \<and> dst < src + n then memmove_back m dst src n else memmove_fwd m dst src n)"

definition memcpy :: "mem \<Rightarrow> nat \<Rightarrow> nat \<Rightarrow> nat \<Rightarrow> mem" where
  "memcpy m dst src n = memmove m dst src n"

section \<open>String routines\<close>

fun strncmp :: "mem \<Rightarrow> nat \<Rightarrow> nat \<Rightarrow> nat \<Rightarrow> int" where
  "strncmp m p q 0 = 0"
| "strncmp m p q (Suc n) =
     (if m p \<noteq> 0 \<and> m p = m q then strncmp m (Suc p) (Suc q) n else uint (m p) - uint (m q))"

text \<open>The padding loop and the copying loop of \<open>strncpy\<close>; \<open>n\<close> is what the counter still allows.\<close>

fun strncpy_pad :: "mem \<Rightarrow> nat \<Rightarrow> nat \<Rightarrow> mem" where
  "strncpy_pad m s 0 = m"
| "strncpy_pad m s (Suc n) = strncpy_pad (m(s := 0)) (Suc s) n"

fun strncpy_copy :: "mem \<Rightarrow> nat \<Rightarrow> nat \<Rightarrow> nat \<Rightarrow> mem" where
  "strncpy_copy m s t 0 = m"
| "strncpy_copy m s t (Suc n) =
     (let m = m(s := m t)
      in if m s \<noteq> 0 then strncpy_copy m (Suc s) (Suc t) n else strncpy_pad m (Suc s) n)"

definition strncpy :: "mem \<Rightarrow> nat \<Rightarrow> nat \<Rightarrow> int \<Rightarrow> mem" where
  "strncpy m s t n = strncpy_copy m s t (nat n)"

fun safestrcpy_loop :: "mem \<Rightarrow> nat \<Rightarrow> nat \<Rightarrow> nat \<Rightarrow> mem" where
  "safestrcpy_loop m s t 0 = m(s := 0)"
| "safestrcpy_loop m s t (Suc n) =
     (let m = m(s := m t)
      in if m s \<noteq> 0 then safestrcpy_loop m (Suc s) (Suc t) n else m(Suc s := 0))"

definition safestrcpy :: "mem \<Rightarrow> nat \<Rightarrow> nat \<Rightarrow> int \<Rightarrow> mem" where
  "safestrcpy m s t n = (if n \<le> 0 then m else safestrcpy_loop m s t (nat (n - 1)))"

partial_function (option) strlen_loop :: "mem \<Rightarrow> nat \<Rightarrow> nat \<Rightarrow> nat option" where
  "strlen_loop m s n = (if m (s + n) \<noteq> 0 then strlen_loop m s (Suc n) else Some n)"

definition strlen :: "mem \<Rightarrow> nat \<Rightarrow> nat option" where
  "strlen m s = strlen_loop m s 0"

section \<open>What the routines compute\<close>

definition bytes_at :: "mem \<Rightarrow> nat \<Rightarrow> nat \<Rightarrow> u8 list" where
  "bytes_at m p n = map (\<lambda>i. m (p + i)) [0..<n]"

text \<open>The string of at most \<open>n\<close> bytes at \<open>p\<close>: what comes before the first NUL.\<close>

definition cstr :: "mem \<Rightarrow> nat \<Rightarrow> nat \<Rightarrow> u8 list" where
  "cstr m p n = takeWhile (\<lambda>b. b \<noteq> 0) (bytes_at m p n)"

lemma bytes_at_Suc: "bytes_at m p (Suc n) = m p # bytes_at m (Suc p) n"
  by (simp add: bytes_at_def upt_conv_Cons map_Suc_upt [symmetric] del: upt_Suc)

lemma cstr_Suc: "cstr m p (Suc n) = (if m p = 0 then [] else m p # cstr m (Suc p) n)"
  by (simp add: cstr_def bytes_at_Suc)

lemma bytes_at_0 [simp]: "bytes_at m p 0 = []" and cstr_0 [simp]: "cstr m p 0 = []"
  by (simp_all add: bytes_at_def cstr_def)

lemma stosb_eq: "stosb m a d n x = (if a \<le> x \<and> x < a + n then ucast d else m x)"
  by (induction n arbitrary: m a) auto

lemma stosl_eq:
  assumes "\<And>m a x. store32 m a d x = (if a \<le> x \<and> x < a + 4 then b else m x)"
  shows "stosl m a d n x = (if a \<le> x \<and> x < a + 4 * n then b else m x)"
  by (induction n arbitrary: m a) (auto simp: assms)

lemma word32_byte_parts:
  fixes c :: u32
  defines "x \<equiv> c AND 0xFF"
  defines "w \<equiv> push_bit 24 x OR push_bit 16 x OR push_bit 8 x OR x"
  shows "ucast w = (ucast c :: u8)" "ucast (drop_bit 8 w) = (ucast c :: u8)"
    "ucast (drop_bit 16 w) = (ucast c :: u8)" "ucast (drop_bit 24 w) = (ucast c :: u8)"
proof -
  have x: "x = take_bit 8 c" by (simp add: x_def take_bit_eq_mask mask_eq_exp_minus_1)
  show "ucast w = (ucast c :: u8)" "ucast (drop_bit 8 w) = (ucast c :: u8)"
    "ucast (drop_bit 16 w) = (ucast c :: u8)" "ucast (drop_bit 24 w) = (ucast c :: u8)"
    unfolding w_def x by (rule bit_word_eqI; auto simp: bit_simps)+
qed

lemma store32_byte:
  "store32 m a (push_bit 24 (c AND 0xFF) OR push_bit 16 (c AND 0xFF) OR push_bit 8 (c AND 0xFF) OR (c AND 0xFF)) x
     = (if a \<le> x \<and> x < a + 4 then ucast c else m x)"
  unfolding store32_def word32_byte_parts by auto

text \<open>
  The word-at-a-time path of \<open>memset\<close> and its byte-at-a-time path do the same: bytes \<open>dst .. dst + n\<close> become
  the low byte of \<open>c\<close> and nothing else changes.
\<close>

theorem memset_correct: "memset m dst c n = (\<lambda>x. if dst \<le> x \<and> x < dst + n then ucast c else m x)"
proof (cases "dst mod 4 = 0 \<and> n mod 4 = 0")
  case True
  then have "4 * (n div 4) = n" by auto
  with True show ?thesis
    unfolding memset_def Let_def fun_eq_iff stosl_eq [OF store32_byte] by simp
qed (auto simp: memset_def stosb_eq fun_eq_iff)

lemma memmove_fwd_eq:
  "\<not> (s < d \<and> d < s + n) \<Longrightarrow>
   memmove_fwd m d s n x = (if d \<le> x \<and> x < d + n then m (s + (x - d)) else m x)"
proof (induction n arbitrary: m d s)
  case (Suc n)
  then have no: "\<not> (Suc s < Suc d \<and> Suc d < Suc s + n)" by auto
  with Suc.prems show ?case unfolding memmove_fwd.simps Suc.IH [OF no]
    by (auto intro!: arg_cong [where f = m])
qed auto

lemma memmove_back_eq:
  "s < d \<Longrightarrow> memmove_back m d s n x = (if d \<le> x \<and> x < d + n then m (s + (x - d)) else m x)"
  by (induction n arbitrary: m) (auto simp: less_Suc_eq)

text \<open>
  C25. \<open>memmove\<close> copies the \<open>n\<close> bytes that were at \<open>src\<close> before the call to \<open>dst\<close>, however the two ranges
  overlap, and changes nothing outside the destination.
\<close>

theorem memmove_correct:
  "memmove m dst src n = (\<lambda>x. if dst \<le> x \<and> x < dst + n then m (src + (x - dst)) else m x)"
  by (rule ext) (auto simp: memmove_def memmove_back_eq memmove_fwd_eq)

text \<open>
  \<open>memcmp\<close> returns 0 exactly when the two ranges hold the same bytes.
\<close>

theorem memcmp_correct: "memcmp m s1 s2 n = 0 \<longleftrightarrow> bytes_at m s1 n = bytes_at m s2 n"
  by (induction m s1 s2 n rule: memcmp.induct) (auto simp: bytes_at_Suc word_uint_eq_iff)

text \<open>
  \<open>strncmp\<close> returns 0 exactly when the two strings, cut to \<open>n\<close> bytes, are equal, and otherwise its sign says
  which is the smaller in the order of unsigned bytes, a proper prefix first.
\<close>

theorem strncmp_correct:
  "(strncmp m p q n = 0 \<longleftrightarrow> cstr m p n = cstr m q n) \<and>
   (strncmp m p q n < 0 \<longleftrightarrow> (cstr m p n, cstr m q n) \<in> lexord {(x, y). x < y})"
  by (induction m p q n rule: strncmp.induct)
    (auto simp: cstr_Suc word_less_def word_uint_eq_iff order_less_le)

lemma strncpy_pad_eq: "strncpy_pad m s n x = (if s \<le> x \<and> x < s + n then 0 else m x)"
  by (induction n arbitrary: m s) auto

lemma cstr_cong: "(\<And>i. i < n \<Longrightarrow> m (p + i) = m' (p + i)) \<Longrightarrow> cstr m p n = cstr m' p n"
  unfolding cstr_def bytes_at_def by (intro arg_cong [where f = "takeWhile _"] map_cong) auto

lemma length_cstr: "length (cstr m p n) \<le> n"
  by (induction n arbitrary: p) (auto simp: cstr_Suc)

lemma strncpy_copy_eq:
  assumes "s + n \<le> t \<or> t + n \<le> s"
  shows "strncpy_copy m s t n x =
    (if s \<le> x \<and> x < s + n then (if x - s < length (cstr m t n) then cstr m t n ! (x - s) else 0) else m x)"
  using assms
proof (induction n arbitrary: m s t)
  case (Suc n)
  have c: "cstr (m(s := m t)) (Suc t) n = cstr m (Suc t) n"
    using Suc.prems by (intro cstr_cong) auto
  have d: "Suc s + n \<le> Suc t \<or> Suc t + n \<le> Suc s" using Suc.prems by auto
  show ?case
  proof (cases "m t = 0")
    case False
    then have eq: "strncpy_copy m s t (Suc n) = strncpy_copy (m(s := m t)) (Suc s) (Suc t) n" by simp
    show ?thesis
      using False unfolding eq Suc.IH [OF d] c by (auto simp: cstr_Suc nth_Cons' Suc_diff_le)
  qed (auto simp: Let_def strncpy_pad_eq cstr_Suc)
qed auto

text \<open>
  C11. \<open>strncpy\<close> between two buffers that do not overlap fills exactly the \<open>n\<close> bytes at \<open>s\<close>: the string at \<open>t\<close>
  cut to \<open>n\<close> bytes, padded with NUL bytes. With a string of \<open>n\<close> bytes or more no NUL is written.
\<close>

theorem strncpy_correct:
  assumes "s + nat n \<le> t \<or> t + nat n \<le> s"
  shows "bytes_at (strncpy m s t n) s (nat n) =
      cstr m t (nat n) @ replicate (nat n - length (cstr m t (nat n))) 0 \<and>
    (\<forall>x. x < s \<or> s + nat n \<le> x \<longrightarrow> strncpy m s t n x = m x)"
  using assms length_cstr [of m t "nat n"]
  by (auto simp: strncpy_def strncpy_copy_eq bytes_at_def nth_append intro!: nth_equalityI)

lemma safestrcpy_loop_eq:
  assumes "s + Suc n \<le> t \<or> t + Suc n \<le> s"
  shows "safestrcpy_loop m s t n x = (let c = cstr m t n in
    if s \<le> x \<and> x - s < length c then c ! (x - s)
     else if s \<le> x \<and> (x - s = length c \<or> x - s = Suc (length c) \<and> length c < n) then 0 else m x)"
  using assms unfolding Let_def
proof (induction n arbitrary: m s t)
  case (Suc n)
  have c: "cstr (m(s := m t)) (Suc t) n = cstr m (Suc t) n"
    using Suc.prems by (intro cstr_cong) auto
  have d: "Suc s + Suc n \<le> Suc t \<or> Suc t + Suc n \<le> Suc s" using Suc.prems by auto
  show ?case
  proof (cases "m t = 0")
    case False
    then have eq: "safestrcpy_loop m s t (Suc n) = safestrcpy_loop (m(s := m t)) (Suc s) (Suc t) n" by simp
    show ?thesis
      using False unfolding eq Suc.IH [OF d] c by (auto simp: cstr_Suc nth_Cons' Suc_diff_le)
  qed (auto simp: Let_def cstr_Suc)
qed auto

lemma cstr_eqI:
  assumes "\<And>i. i < length c \<Longrightarrow> m (p + i) = c ! i \<and> c ! i \<noteq> 0" "m (p + length c) = 0" "length c < n"
  shows "cstr m p n = c"
  using assms
proof (induction c arbitrary: p n)
  case Nil
  then show ?case by (cases n) (auto simp: cstr_Suc)
next
  case (Cons b c)
  obtain k where n: "n = Suc k" using Cons.prems(3) by (cases n) auto
  have "cstr m (Suc p) k = c"
  proof (rule Cons.IH)
    show "m (Suc p + i) = c ! i \<and> c ! i \<noteq> 0" if "i < length c" for i
      using Cons.prems(1) [of "Suc i"] that by simp
  qed (use Cons.prems n in auto)
  then show ?case using Cons.prems(1) [of 0] by (simp add: n cstr_Suc)
qed

lemma cstr_nonzero: "i < length (cstr m p n) \<Longrightarrow> cstr m p n ! i \<noteq> 0"
  using nth_mem [of i "cstr m p n"] unfolding cstr_def by (blast dest: set_takeWhileD)

text \<open>
  C32. \<open>safestrcpy\<close> with room for \<open>n > 0\<close> bytes, between buffers that do not overlap, always leaves a
  NUL-terminated string at \<open>s\<close>: the source string cut to \<open>n - 1\<close> bytes. It writes nothing outside the \<open>n\<close> bytes.
\<close>

theorem safestrcpy_correct:
  assumes "0 < n" "s + nat n \<le> t \<or> t + nat n \<le> s"
  shows "cstr (safestrcpy m s t n) s (nat n) = cstr m t (nat n - 1) \<and>
    (\<exists>i < nat n. safestrcpy m s t n (s + i) = 0) \<and>
    (\<forall>x. x < s \<or> s + nat n \<le> x \<longrightarrow> safestrcpy m s t n x = m x)"
proof (intro conjI allI impI)
  obtain k where k: "nat n = Suc k" using assms(1) by (cases "nat n") auto
  have n: "nat (n - 1) = k" using k by simp
  let ?c = "cstr m t k"
  have d: "s + Suc k \<le> t \<or> t + Suc k \<le> s" using assms(2) by (simp add: k)
  have len: "length ?c \<le> k" by (rule length_cstr)
  note eq = safestrcpy_loop_eq [OF d, unfolded Let_def]
  have f: "safestrcpy m s t n = safestrcpy_loop m s t k" using assms(1) by (simp add: safestrcpy_def n)
  show "cstr (safestrcpy m s t n) s (nat n) = cstr m t (nat n - 1)"
    unfolding f k using len by (simp, intro cstr_eqI) (auto simp: eq cstr_nonzero)
  show "\<exists>i < nat n. safestrcpy m s t n (s + i) = 0"
    using len by (intro exI [of _ "length ?c"]) (auto simp: f k eq)
  show "safestrcpy m s t n x = m x" if "x < s \<or> s + nat n \<le> x" for x
    using that len by (auto simp: f k eq)
qed

lemma strlen_loop_eq: "\<lbrakk>n \<le> k; \<And>i. n \<le> i \<Longrightarrow> i < k \<Longrightarrow> m (s + i) \<noteq> 0; m (s + k) = 0\<rbrakk> \<Longrightarrow> strlen_loop m s n = Some k"
proof (induction "k - n" arbitrary: n)
  case 0
  then show ?case by (subst strlen_loop.simps) simp
next
  case (Suc d)
  then have "strlen_loop m s (Suc n) = Some k" "m (s + n) \<noteq> 0" by auto
  then show ?case by (subst strlen_loop.simps) simp
qed

text \<open>
  On a string with a NUL byte within its first \<open>n\<close> bytes \<open>strlen\<close> returns, and the result is the number of
  bytes before the first NUL.
\<close>

theorem strlen_correct:
  assumes "length (cstr m s n) < n"
  shows "strlen m s = Some (length (cstr m s n))"
  unfolding strlen_def
proof (rule strlen_loop_eq)
  let ?b = "bytes_at m s n"
  have len: "length (takeWhile (\<lambda>b. b \<noteq> 0) ?b) < length ?b" using assms by (simp add: cstr_def bytes_at_def)
  from nth_length_takeWhile [OF len] assms
  show "m (s + length (cstr m s n)) = 0" by (simp add: cstr_def [symmetric]) (simp add: bytes_at_def)
  show "m (s + i) \<noteq> 0" if "i < length (cstr m s n)" for i
    using cstr_nonzero [OF that] that takeWhile_nth [of i "\<lambda>b. b \<noteq> 0" ?b] assms
    unfolding cstr_def by (simp add: bytes_at_def cstr_def)
qed simp

definition str_demo :: mem where
  "str_demo a = (if a = 10 then 104 else if a = 11 then 105 else 0)"

lemma str_demo_cstr: "cstr str_demo 10 4 = [104, 105]" "cstr str_demo 10 3 = [104, 105]"
  by (simp_all add: cstr_def bytes_at_def str_demo_def upt_rec)

theorem strncpy_correct_witness:
  "bytes_at (strncpy str_demo 20 10 4) 20 4 = [104, 105, 0, 0] \<and> strncpy str_demo 20 10 4 24 = 0"
  using strncpy_correct [of 20 4 10 str_demo]
  by (simp add: str_demo_cstr numeral_2_eq_2) (simp add: str_demo_def)

theorem safestrcpy_correct_witness:
  "cstr (safestrcpy str_demo 20 10 4) 20 4 = [104, 105] \<and> safestrcpy str_demo 20 10 4 24 = 0"
  using safestrcpy_correct [of 4 20 10 str_demo]
  by (simp add: str_demo_cstr) (simp add: str_demo_def)

theorem strlen_correct_witness: "strlen str_demo 10 = Some 2"
  using strlen_correct [of str_demo 10 4] by (simp add: str_demo_cstr)

end
