(* ===== verification/Xk_Dir.thy ===== *)
theory Xk_Dir
  imports Xk_Inode Xk_String
begin

text \<open>
  Directories and path names of \<open>kernel/fs.c\<close>: \<open>namecmp\<close>, \<open>dirlookup\<close>, \<open>rootlookup\<close>, \<open>skipelem\<close>, \<open>namex\<close> with its
  two front ends, and \<open>fileunlink\<close>. A path is the list of its bytes before the terminating NUL; the \<open>name\<close> buffer
  of \<open>DIRSIZ\<close> bytes that \<open>skipelem\<close> fills is passed in and returned. A null \<open>struct inode *\<close> is \<open>None\<close>
  inside the result.
\<close>

section \<open>Names\<close>

definition slash :: u8 where "slash = 47"

text \<open>
  Two byte strings laid out in memory, each read up to \<open>DIRSIZ\<close> bytes and NUL behind its end, for the call
  of \<open>strncmp\<close>.
\<close>

definition name_pad :: "u8 list \<Rightarrow> u8 list" where
  "name_pad s = take DIRSIZ (s @ replicate DIRSIZ 0)"

definition name_mem :: "u8 list \<Rightarrow> u8 list \<Rightarrow> mem" where
  "name_mem s t a = (if a < DIRSIZ + DIRSIZ then (name_pad s @ name_pad t) ! a else 0)"

definition namecmp :: "u8 list \<Rightarrow> u8 list \<Rightarrow> int" where
  "namecmp s t = strncmp (name_mem s t) 0 DIRSIZ DIRSIZ"

section \<open>Looking up an entry\<close>

text \<open>
  The loop of \<open>dirlookup\<close> over the offsets of the entries. The result is the inode of the
  matching entry with the offset that goes to \<open>poff\<close>. An offset that wraps around never comes up: \<open>readi\<close>
  fails on it.
\<close>

fun dirlookup_loop :: "int \<Rightarrow> devsw \<Rightarrow> iptr \<Rightarrow> u8 list \<Rightarrow> nat list \<Rightarrow> fs \<Rightarrow> ((iptr \<times> nat) option \<times> fs) option" where
  "dirlookup_loop p dv dp name [] s = Some (None, s)"
| "dirlookup_loop p dv dp name (off # offs) s = do {
     (r, bytes, s) \<leftarrow> readi p dv dp (of_nat off) (of_nat sizeof_dirent) s;
     (if r \<noteq> int sizeof_dirent then None
      else let de = dec_dirent bytes in
        if de_inum de = 0 then dirlookup_loop p dv dp name offs s
        else if namecmp name (de_name de) = 0 then do {
          (ip, s) \<leftarrow> iget (i_dev (inodep s dp)) (ucast (de_inum de)) s;
          Some (Some (ip, off), s) }
        else dirlookup_loop p dv dp name offs s) }"

definition entry_offs :: "u32 \<Rightarrow> nat list" where
  "entry_offs sz = map (\<lambda>k. k * sizeof_dirent) [0..<(unat sz + sizeof_dirent - 1) div sizeof_dirent]"

definition dirlookup :: "int \<Rightarrow> devsw \<Rightarrow> iptr \<Rightarrow> u8 list \<Rightarrow> fs \<Rightarrow> ((iptr \<times> nat) option \<times> fs) option" where
  "dirlookup p dv dp name s =
     (if i_type (inodep s dp) \<noteq> T_DIR then None
      else dirlookup_loop p dv dp name (entry_offs (i_size (inodep s dp))) s)"

section \<open>Paths\<close>

definition skipelem :: "u8 list \<Rightarrow> u8 list \<Rightarrow> (u8 list \<times> u8 list) option" where
  "skipelem path name =
     (let path = dropWhile (\<lambda>c. c = slash) path in
      if path = [] then None
      else let s = takeWhile (\<lambda>c. c \<noteq> slash) path;
               path = dropWhile (\<lambda>c. c \<noteq> slash) path;
               name = (if length s \<ge> DIRSIZ then put_at name 0 (take DIRSIZ s) else put_at name 0 (s @ [0]))
           in Some (dropWhile (\<lambda>c. c = slash) path, name))"

lemma skipelem_shorter: "skipelem path name = Some (rest, name') \<Longrightarrow> length rest < length path"
proof -
  assume a: "skipelem path name = Some (rest, name')"
  let ?p = "dropWhile (\<lambda>c. c = slash) path"
  have ne: "?p \<noteq> []" using a by (auto simp: skipelem_def Let_def split: if_splits)
  then have h: "hd ?p \<noteq> slash" by (metis (mono_tags) hd_dropWhile)
  have "length rest \<le> length (dropWhile (\<lambda>c. c \<noteq> slash) ?p)"
    using a by (auto simp: skipelem_def Let_def length_dropWhile_le split: if_splits)
  also have "\<dots> < length ?p"
    using ne h by (cases ?p) (auto simp: length_dropWhile_le less_Suc_eq_le)
  also have "\<dots> \<le> length path" by (rule length_dropWhile_le)
  finally show ?thesis .
qed

text \<open>The walk down the path from \<open>ip\<close>; it returns the inode, or null, and the name buffer.\<close>

function namex_loop :: "int \<Rightarrow> devsw \<Rightarrow> bool \<Rightarrow> iptr \<Rightarrow> u8 list \<Rightarrow> u8 list \<Rightarrow> fs \<Rightarrow> (iptr option \<times> u8 list \<times> fs) option" where
  "namex_loop p dv parent ip path name s =
     (case skipelem path name of
        None \<Rightarrow>
          if parent then do { s \<leftarrow> irelease ip s; Some (None, name, s) }
          else Some (Some ip, name, s)
      | Some (path', name) \<Rightarrow> do {
          s \<leftarrow> locki p dv ip s;
          (if i_type (inodep s ip) \<noteq> T_DIR then do {
             s \<leftarrow> unlocki p ip s;
             s \<leftarrow> irelease ip s;
             Some (None, name, s) }
           else if parent \<and> path' = [] then do {
             s \<leftarrow> unlocki p ip s;
             Some (Some ip, name, s) }
           else do {
             (r, s) \<leftarrow> dirlookup p dv ip name s;
             (case r of
                None \<Rightarrow> do {
                  s \<leftarrow> unlocki p ip s;
                  s \<leftarrow> irelease ip s;
                  Some (None, name, s) }
              | Some (next, off) \<Rightarrow> do {
                  s \<leftarrow> unlocki p ip s;
                  s \<leftarrow> irelease ip s;
                  namex_loop p dv parent next path' name s }) }) })"
  by pat_completeness auto
termination
  by (relation "measure (\<lambda>(p, dv, parent, ip, path, name, s). length path)") (auto dest: skipelem_shorter)

declare namex_loop.simps [simp del]

text \<open>\<open>namei("/")\<close>, which \<open>namex\<close> calls for a relative path: there is no element to skip, and the root inode is returned.\<close>

definition namei_root :: "fs \<Rightarrow> (iptr \<times> fs) option" where
  "namei_root s = iget ROOTDEV ROOTINO s"

definition namex :: "int \<Rightarrow> devsw \<Rightarrow> u8 list \<Rightarrow> bool \<Rightarrow> u8 list \<Rightarrow> fs \<Rightarrow> (iptr option \<times> u8 list \<times> fs) option" where
  "namex p dv path parent name s = do {
     (ip, s) \<leftarrow> (if path \<noteq> [] \<and> hd path = slash then iget ROOTDEV ROOTINO s
                  else do { (ip, s) \<leftarrow> namei_root s; idup ip s });
     namex_loop p dv parent ip path name s }"

definition namei :: "int \<Rightarrow> devsw \<Rightarrow> u8 list \<Rightarrow> fs \<Rightarrow> (iptr option \<times> fs) option" where
  "namei p dv path s = do {
     (r, name, s) \<leftarrow> namex p dv path False (replicate DIRSIZ 0) s;
     Some (r, s) }"

definition nameiparent :: "int \<Rightarrow> devsw \<Rightarrow> u8 list \<Rightarrow> u8 list \<Rightarrow> fs \<Rightarrow> (iptr option \<times> u8 list \<times> fs) option" where
  "nameiparent p dv path name s = namex p dv path True name s"

definition rootlookup :: "int \<Rightarrow> devsw \<Rightarrow> u8 list \<Rightarrow> fs \<Rightarrow> (iptr option \<times> fs) option" where
  "rootlookup p dv name s = do {
     (r, s) \<leftarrow> namei p dv [slash] s;
     (case r of
        None \<Rightarrow> None
      | Some dp \<Rightarrow> do {
          (r, s) \<leftarrow> dirlookup p dv dp name s;
          Some (map_option fst r, s) }) }"

section \<open>Removing a file\<close>

fun unlink_free :: "int \<Rightarrow> u32 \<Rightarrow> extent list \<Rightarrow> fs \<Rightarrow> fs option" where
  "unlink_free p dev [] s = Some s"
| "unlink_free p dev (e # es) s =
     (if nblocks e = 0 then Some s
      else do {
        s \<leftarrow> bfree p dev (startblkno e) (nblocks e) s;
        unlink_free p dev es s })"

definition dinode_free :: dinode where
  "dinode_free = \<lparr>d_type = 0, d_devid = 0, d_size = 0,
     d_data = replicate MAXEXTENT \<lparr>startblkno = 0, nblocks = 0\<rparr>, d_pad = replicate 8 0\<rparr>"

text \<open>
  The loop over the entries of the directory. \<open>de\<close> holds the bytes of the local \<open>struct dirent\<close>
  that are initialised so far. The new name is copied from address 0, so what is mapped there,
  the first bytes of the running program, is a parameter.
\<close>

partial_function (option) unlink_loop :: "int \<Rightarrow> devsw \<Rightarrow> u8 list \<Rightarrow> u32 \<Rightarrow> int \<Rightarrow> u8 list \<Rightarrow> fs \<Rightarrow> fs option" where
  "unlink_loop p dv null_bytes inum off de s =
     (if word_of_int off < i_size (inodep s (Cached 0)) then do {
        (r, bytes, s) \<leftarrow> concurrent_readi p dv (Cached 0) (word_of_int off) (of_nat sizeof_dirent) s;
        let de = bytes @ drop (length bytes) de;
        (if length de < sizeof_dirent then None
         else if ucast (de_inum (dec_dirent de)) = inum then do {
           let de = enc_dirent \<lparr>de_inum = 0, de_name = take DIRSIZ null_bytes\<rparr>;
           (r, s) \<leftarrow> concurrent_writei p dv (Cached 0) de (word_of_int off) s;
           unlink_loop p dv null_bytes inum (c_int (off + int sizeof_dirent)) de s }
         else unlink_loop p dv null_bytes inum (c_int (off + int sizeof_dirent)) de s) }
      else Some s)"

definition fileunlink :: "int \<Rightarrow> devsw \<Rightarrow> u8 list \<Rightarrow> u8 list \<Rightarrow> fs \<Rightarrow> (int \<times> fs) option" where
  "fileunlink p dv null_bytes path s = do {
     (r, s) \<leftarrow> namei p dv path s;
     (case r of
        None \<Rightarrow> Some (-1, s)
      | Some ip \<Rightarrow>
          if i_type (inodep s ip) = T_DEV \<or> i_type (inodep s ip) = T_DIR then
            Some (-1, upd_inode ip (i_ref_update (\<lambda>r. c_int (r - 1))) s)
          else do {
            let s = upd_inode ip (i_ref_update (\<lambda>r. c_int (r - 1))) s;
            (if i_ref (inodep s ip) > 0 then Some (-1, s)
             else do {
               let s = upd_inode ip (i_ref_update (\<lambda>r. c_int (r + 1))) s;
               s \<leftarrow> locki p dv ip s;
               s \<leftarrow> unlink_free p (i_dev (inodep s ip)) (i_data (inodep s ip)) s;
               (r, s) \<leftarrow> concurrent_writei p dv InodeFile (enc_dinode dinode_free) (INODEOFF (i_inum (inodep s ip))) s;
               s \<leftarrow> unlink_loop p dv null_bytes (i_inum (inodep s ip)) 0 [] s;
               s \<leftarrow> unlocki p ip s;
               Some (0, upd_inode ip (i_ref_update (\<lambda>r. c_int (r - 1))) s) }) }) }"

section \<open>Names and path elements\<close>

text \<open>The string a name of at most \<open>DIRSIZ\<close> bytes stands for, and the elements of a path.\<close>

definition cname :: "u8 list \<Rightarrow> u8 list" where
  "cname s = takeWhile (\<lambda>c. c \<noteq> 0) (take DIRSIZ s)"

function path_elems :: "u8 list \<Rightarrow> u8 list list" where
  "path_elems [] = []"
| "path_elems (c # cs) =
     (if c = slash then path_elems cs
      else takeWhile (\<lambda>c. c \<noteq> slash) (c # cs) # path_elems (dropWhile (\<lambda>c. c \<noteq> slash) cs))"
  by pat_completeness auto
termination
  by (relation "measure length") (auto simp: length_dropWhile_le less_Suc_eq_le)

lemma takeWhile_pad: "takeWhile (\<lambda>c. c \<noteq> 0) (xs @ replicate n (0 :: u8)) = takeWhile (\<lambda>c. c \<noteq> 0) xs"
  by (induction xs) (auto simp: takeWhile_replicate)

lemma cstr_name_mem:
  "cstr (name_mem s t) 0 DIRSIZ = cname s" "cstr (name_mem s t) DIRSIZ DIRSIZ = cname t"
proof -
  have len: "length (name_pad x) = DIRSIZ" for x by (simp add: name_pad_def)
  have pad: "takeWhile (\<lambda>c. c \<noteq> 0) (name_pad x) = cname x" for x
    by (simp add: name_pad_def cname_def takeWhile_pad)
  have "bytes_at (name_mem s t) 0 DIRSIZ = name_pad s" "bytes_at (name_mem s t) DIRSIZ DIRSIZ = name_pad t"
    by (auto simp: bytes_at_def name_mem_def len nth_append intro!: nth_equalityI)
  then show "cstr (name_mem s t) 0 DIRSIZ = cname s" "cstr (name_mem s t) DIRSIZ DIRSIZ = cname t"
    by (simp_all add: cstr_def pad)
qed

lemma namecmp_zero: "namecmp s t = 0 \<longleftrightarrow> cname s = cname t"
  using strncmp_correct [of "name_mem s t" 0 DIRSIZ DIRSIZ] by (simp add: namecmp_def cstr_name_mem)

lemma path_elems_slashes: "path_elems (dropWhile (\<lambda>c. c = slash) path) = path_elems path"
  by (induction path) auto

definition fill_name :: "u8 list \<Rightarrow> u8 list \<Rightarrow> u8 list" where
  "fill_name name s = (if length s \<ge> DIRSIZ then put_at name 0 (take DIRSIZ s) else put_at name 0 (s @ [0]))"

lemma fill_name:
  assumes "length name = DIRSIZ" "0 \<notin> set s"
  shows "cname (fill_name name s) = take DIRSIZ s" and "length (fill_name name s) = DIRSIZ"
proof -
  show "length (fill_name name s) = DIRSIZ"
    using assms(1) by (simp add: fill_name_def put_at_def)
  show "cname (fill_name name s) = take DIRSIZ s"
  proof (cases "length s \<ge> DIRSIZ")
    case True
    have "0 \<notin> set (take DIRSIZ s)" using assms(2) by (meson in_set_takeD)
    then have "takeWhile (\<lambda>c. c \<noteq> 0) (take DIRSIZ s) = take DIRSIZ s" by (simp add: takeWhile_eq_all_conv) metis
    then show ?thesis using True by (simp add: fill_name_def cname_def put_at_def)
  next
    case False
    have t: "takeWhile (\<lambda>c. c \<noteq> 0) (xs @ 0 # ys) = xs" if "0 \<notin> set xs" for xs ys :: "u8 list"
      using that by (induction xs) auto
    have "take DIRSIZ (put_at name 0 (s @ [0])) = s @ 0 # drop (length s + 1) name"
      using False assms(1) by (simp add: put_at_def)
    then show ?thesis using False t [OF assms(2)] by (simp add: fill_name_def cname_def)
  qed
qed

text \<open>
  C21. \<open>skipelem\<close> takes a path apart: it returns null exactly when the path has no element left, and otherwise the
  name buffer holds the first element cut to \<open>DIRSIZ\<close> bytes, and the rest of the path, which starts with no slash,
  has the remaining elements.
\<close>

theorem skipelem_correct:
  assumes "0 \<notin> set path" "length name = DIRSIZ"
  shows "case skipelem path name of
      None \<Rightarrow> path_elems path = []
    | Some (rest, name') \<Rightarrow> length name' = DIRSIZ \<and> (rest = [] \<or> hd rest \<noteq> slash) \<and>
        (\<exists>e. path_elems path = e # path_elems rest \<and> cname name' = take DIRSIZ e)"
proof -
  let ?p = "dropWhile (\<lambda>c. c = slash) path"
  let ?e = "takeWhile (\<lambda>c. c \<noteq> slash) ?p" and ?r = "dropWhile (\<lambda>c. c \<noteq> slash) ?p"
  show ?thesis
  proof (cases "?p = []")
    case True
    have "path_elems path = []" using path_elems_slashes [of path] unfolding True by simp
    moreover have "skipelem path name = None" using True by (simp add: skipelem_def)
    ultimately show ?thesis by simp
  next
    case False
    then have h: "hd ?p \<noteq> slash" by (metis (mono_tags) hd_dropWhile)
    have e: "path_elems path = ?e # path_elems (dropWhile (\<lambda>c. c = slash) ?r)"
      using False h path_elems_slashes [of path] path_elems_slashes [of ?r]
      by (cases ?p) auto
    have z: "0 \<notin> set ?e" using assms(1) by (meson set_dropWhileD set_takeWhileD)
    have r: "dropWhile (\<lambda>c. c = slash) ?r = [] \<or> hd (dropWhile (\<lambda>c. c = slash) ?r) \<noteq> slash"
      by (metis (mono_tags) hd_dropWhile)
    have "skipelem path name = Some (dropWhile (\<lambda>c. c = slash) ?r, fill_name name ?e)"
      using False by (simp add: skipelem_def Let_def fill_name_def)
    then show ?thesis using e r fill_name [OF assms(2) z] by simp
  qed
qed

theorem skipelem_correct_witness:
  "path_elems [slash, 97, slash, slash, 98, 98] = [[97], [98, 98]] \<and>
   (\<exists>name'. skipelem [slash, 97, slash, slash, 98, 98] (replicate DIRSIZ 0) = Some ([98, 98], name') \<and> cname name' = [97])"
  using skipelem_correct [of "[slash, 97, slash, slash, 98, 98]" "replicate DIRSIZ 0"]
  by (auto simp: skipelem_def Let_def slash_def DIRSIZ_def)

section \<open>What dirlookup finds\<close>

definition dir_entry :: "fs \<Rightarrow> inode \<Rightarrow> nat \<Rightarrow> dirent" where
  "dir_entry s i k = dec_dirent (get_at (file_bytes s i) (k * sizeof_dirent) sizeof_dirent)"

definition entry_matches :: "u8 list \<Rightarrow> dirent \<Rightarrow> bool" where
  "entry_matches name de \<longleftrightarrow> de_inum de \<noteq> 0 \<and> cname name = cname (de_name de)"

definition dir_ok :: "int \<Rightarrow> iptr \<Rightarrow> fs \<Rightarrow> bool" where
  "dir_ok p dp s \<longleftrightarrow> quiet p (fbc s) \<and> sl_held p (i_lock (inodep s dp)) \<and> file_ok s (inodep s dp) \<and>
     sizeof_dirent dvd unat (i_size (inodep s dp))"

lemma fbc_only_inodep: "s'\<lparr>fbc := fbc s\<rparr> = s \<Longrightarrow> inodep s' ip = inodep s ip"
  by (cases ip; cases s; cases s') auto

lemma readi_entry:
  assumes ok: "dir_ok p dp s" and k: "k < unat (i_size (inodep s dp)) div sizeof_dirent"
  shows "\<exists>s' bytes. readi p dv dp (of_nat (k * sizeof_dirent)) (of_nat sizeof_dirent) s = Some (int sizeof_dirent, bytes, s') \<and>
     dec_dirent bytes = dir_entry s (inodep s dp) k \<and> fview s' = fview s \<and> dir_ok p dp s' \<and> s'\<lparr>fbc := fbc s\<rparr> = s"
proof -
  let ?i = "inodep s dp" and ?off = "of_nat (k * sizeof_dirent) :: u32"
  have a: "quiet p (fbc s)" "sl_held p (i_lock ?i)" "file_ok s ?i" "sizeof_dirent dvd unat (i_size ?i)"
    using ok by (auto simp: dir_ok_def)
  have "Suc k \<le> unat (i_size ?i) div sizeof_dirent" using k by simp
  then have "Suc k * sizeof_dirent \<le> unat (i_size ?i) div sizeof_dirent * sizeof_dirent" by (rule mult_le_mono1)
  then have le: "k * sizeof_dirent + sizeof_dirent \<le> unat (i_size ?i)" using a(4) by simp
  moreover have lt: "unat (i_size ?i) < 2 ^ 32" by (rule unat_u32_less)
  ultimately have "k * sizeof_dirent < 2 ^ 32" by simp
  then have off: "unat ?off = k * sizeof_dirent" by (simp add: unat_of_nat del: of_nat_mult)
  have n: "unat (of_nat sizeof_dirent :: u32) = 16" by (simp add: sizeof_dirent_def)
  have sum: "unat (?off + of_nat sizeof_dirent) = k * sizeof_dirent + 16"
    using le lt off n by (simp add: unat_word_ariths sizeof_dirent_def)
  have "\<not> (?off > i_size ?i \<or> ?off + of_nat sizeof_dirent < ?off)"
    using le off sum by (simp add: word_less_nat_alt sizeof_dirent_def)
  then obtain s' where s': "readi p dv dp ?off (of_nat sizeof_dirent) s =
       Some (c_int (int (min 16 (unat (i_size ?i) - k * sizeof_dirent))), take 16 (drop (k * sizeof_dirent) (file_bytes s ?i)), s')"
      "fview s' = fview s" "quiet p (fbc s')" "\<forall>b. on_disk b (fbc s) \<longrightarrow> on_disk b (fbc s')" "s'\<lparr>fbc := fbc s\<rparr> = s"
    using readi_ok [OF a(1-3), of ?off "of_nat sizeof_dirent" dv] off n by auto
  have "min 16 (unat (i_size ?i) - k * sizeof_dirent) = 16" using le by (simp add: sizeof_dirent_def)
  moreover have "dir_ok p dp s'"
    using a s'(3,4) fbc_only_inodep [OF s'(5), of dp] by (auto simp: dir_ok_def file_ok_def)
  ultimately show ?thesis
    using s' by (intro exI conjI) (auto simp: sizeof_dirent_def c_int_def dir_entry_def get_at_def)
qed

definition found_entry :: "fs \<Rightarrow> inode \<Rightarrow> nat option \<Rightarrow> fs \<Rightarrow> ((iptr \<times> nat) option \<times> fs) option" where
  "found_entry s i r s' = (case r of
      None \<Rightarrow> Some (None, s')
    | Some k \<Rightarrow> do {
        (ip, s'') \<leftarrow> iget (i_dev i) (ucast (de_inum (dir_entry s i k))) s';
        Some (Some (ip, k * sizeof_dirent), s'') })"

lemma dirlookup_loop_ok:
  assumes "dir_ok p dp s" "n = unat (i_size (inodep s dp)) div sizeof_dirent"
  shows "\<exists>s'. fview s' = fview s \<and> dir_ok p dp s' \<and> s'\<lparr>fbc := fbc s\<rparr> = s \<and>
    dirlookup_loop p dv dp name (map (\<lambda>k. k * sizeof_dirent) [a..<n]) s =
      found_entry s (inodep s dp) (for_first (\<lambda>k. entry_matches name (dir_entry s (inodep s dp) k)) a n) s'"
  using assms
proof (induction "n - a" arbitrary: a s)
  case 0
  then have "for_first (\<lambda>k. entry_matches name (dir_entry s (inodep s dp) k)) a n = None"
    by (auto simp: for_first_None)
  then show ?case using 0 by (intro exI [of _ s]) (simp add: found_entry_def)
next
  case (Suc d)
  then have a: "a < n" by simp
  obtain s1 bytes where r: "readi p dv dp (of_nat (a * sizeof_dirent)) (of_nat sizeof_dirent) s = Some (int sizeof_dirent, bytes, s1)"
     "dec_dirent bytes = dir_entry s (inodep s dp) a" "fview s1 = fview s" "dir_ok p dp s1" "s1\<lparr>fbc := fbc s\<rparr> = s"
    using readi_entry [OF Suc.prems(1), of a dv] a Suc.prems(2) by blast
  have ip: "inodep s1 dp = inodep s dp" by (rule fbc_only_inodep [OF r(5)])
  have de: "dir_entry s1 i = dir_entry s i" for i
    by (rule ext) (simp add: dir_entry_def file_bytes_def r(3))
  have fe: "found_entry s1 = found_entry s"
    by (intro ext) (simp add: found_entry_def de split: option.split)
  have up: "map (\<lambda>k. k * sizeof_dirent) [a..<n] = a * sizeof_dirent # map (\<lambda>k. k * sizeof_dirent) [Suc a..<n]"
    using a by (simp add: upt_conv_Cons)
  show ?case
  proof (cases "entry_matches name (dir_entry s (inodep s dp) a)")
    case True
    then have "for_first (\<lambda>k. entry_matches name (dir_entry s (inodep s dp) k)) a n = Some a"
      using a by (simp add: for_first.simps [of _ a])
    then show ?thesis using True r ip
      by (intro exI [of _ s1]) (auto simp: up found_entry_def entry_matches_def namecmp_zero Let_def)
  next
    case False
    then have ff: "for_first (\<lambda>k. entry_matches name (dir_entry s (inodep s dp) k)) a n =
        for_first (\<lambda>k. entry_matches name (dir_entry s (inodep s dp) k)) (Suc a) n"
      using a by (simp add: for_first.simps [of _ a])
    obtain s2 where s2: "fview s2 = fview s1" "dir_ok p dp s2" "s2\<lparr>fbc := fbc s1\<rparr> = s1"
      "dirlookup_loop p dv dp name (map (\<lambda>k. k * sizeof_dirent) [Suc a..<n]) s1 =
       found_entry s1 (inodep s1 dp) (for_first (\<lambda>k. entry_matches name (dir_entry s1 (inodep s1 dp) k)) (Suc a) n) s2"
      using Suc.hyps(1) [of "Suc a" s1, OF _ r(4)] Suc.hyps(2) Suc.prems(2) unfolding ip by (metis Suc_diff_Suc a diff_Suc_1)
    have "s2\<lparr>fbc := fbc s\<rparr> = s" using s2(3) r(5) by (cases s; cases s1; cases s2) auto
    moreover have "dirlookup_loop p dv dp name (map (\<lambda>k. k * sizeof_dirent) [a..<n]) s =
        dirlookup_loop p dv dp name (map (\<lambda>k. k * sizeof_dirent) [Suc a..<n]) s1"
      using r(1,2) False unfolding up by (auto simp: entry_matches_def namecmp_zero Let_def)
    ultimately show ?thesis using s2 r(3) by (intro exI [of _ s2]) (simp add: ff ip de fe)
  qed
qed

text \<open>
  C20. \<open>dirlookup\<close> on a locked directory: it takes a reference to the inode of the first used entry whose name agrees
  with \<open>name\<close> on the \<open>DIRSIZ\<close> bytes that count, with the offset of the entry, and returns null
  when there is none; no block and no inode changes on the way.
\<close>

theorem dirlookup_correct:
  assumes "dir_ok p dp s" "i_type (inodep s dp) = T_DIR"
  defines "i \<equiv> inodep s dp"
  shows "\<exists>s'. fview s' = fview s \<and> quiet p (fbc s') \<and> s'\<lparr>fbc := fbc s\<rparr> = s \<and>
    dirlookup p dv dp name s =
      (case for_first (\<lambda>k. de_inum (dir_entry s i k) \<noteq> 0 \<and> cname name = cname (de_name (dir_entry s i k)))
              0 (unat (i_size i) div sizeof_dirent) of
         None \<Rightarrow> Some (None, s')
       | Some k \<Rightarrow> do {
           (ip, s'') \<leftarrow> iget (i_dev i) (ucast (de_inum (dir_entry s i k))) s';
           Some (Some (ip, k * sizeof_dirent), s'') })"
proof -
  have "sizeof_dirent dvd unat (i_size i)" using assms(1) by (simp add: dir_ok_def i_def)
  then have "(unat (i_size i) + sizeof_dirent - 1) div sizeof_dirent = unat (i_size i) div sizeof_dirent"
    by (auto simp: sizeof_dirent_def)
  then show ?thesis
    using dirlookup_loop_ok [OF assms(1) refl, of dv name 0] assms(2)
    unfolding dirlookup_def entry_offs_def i_def found_entry_def entry_matches_def dir_ok_def by auto
qed

text \<open>A directory of one block whose second entry, inode 7, is named \<open>b\<close>.\<close>

definition dir_bytes_demo :: "u8 list" where
  "dir_bytes_demo = enc_dirent \<lparr>de_inum = 0, de_name = 98 # replicate 13 0\<rparr> @ enc_dirent \<lparr>de_inum = 7, de_name = 98 # replicate 13 0\<rparr>"

definition dir_inode_demo :: inode where
  "dir_inode_demo = inode_demo\<lparr>i_type := T_DIR, i_size := 32\<rparr>"

definition dir_demo :: fs where
  "dir_demo = (fs_demo (blocks_demo[36 := dir_bytes_demo @ replicate 480 0]))
     \<lparr>ic_inode := (replicate NINODE inode_zero)[0 := dir_inode_demo]\<rparr>"


lemma dir_blocks_demo: "\<forall>d \<in> set (blocks_demo[36 := dir_bytes_demo @ replicate 480 0]). length d = BSIZE"
  using blocks_demo_ok(1)
  by (auto simp: dir_bytes_demo_def enc_dirent_def le16_def BSIZE_def dest!: set_update_subset_insert [THEN subsetD])

lemma dir_demo_ok: "inodep dir_demo (Cached 0) = dir_inode_demo" "dir_ok 1 (Cached 0) dir_demo"
proof -
  show i: "inodep dir_demo (Cached 0) = dir_inode_demo" by (simp add: dir_demo_def NINODE_def)
  have fb: "file_blocks (i_data dir_inode_demo) = [36, 38]" using inode_demo_blocks by (simp add: dir_inode_demo_def)
  have "disk (fbc dir_demo) = blocks_demo[36 := dir_bytes_demo @ replicate 480 0]" by (simp add: dir_demo_def fs_demo_fields)
  then have "on_disk 36 (fbc dir_demo)" "on_disk 38 (fbc dir_demo)" by (simp_all add: on_disk_def blocks_demo_ok)
  moreover have "quiet 1 (fbc dir_demo)"
    using bcache_boot_quiet [OF dir_blocks_demo] by (simp add: dir_demo_def fs_demo_def)
  moreover have "packed (i_data dir_inode_demo)" using inode_demo_packed by (simp add: dir_inode_demo_def)
  moreover have "sl_held 1 (i_lock dir_inode_demo)"
    by (simp add: dir_inode_demo_def inode_demo_def sl_held_def initsleeplock_def lk_free_def initlock_def)
  ultimately show "dir_ok 1 (Cached 0) dir_demo"
    unfolding dir_ok_def i file_ok_def fb
    by (simp add: dir_inode_demo_def inode_demo_def T_DIR_def T_DEV_def BSIZE_def sizeof_dirent_def)
qed

lemma dir_entry_demo:
  "dir_entry dir_demo dir_inode_demo 0 = \<lparr>de_inum = 0, de_name = 98 # replicate 13 0\<rparr>"
  "dir_entry dir_demo dir_inode_demo 1 = \<lparr>de_inum = 7, de_name = 98 # replicate 13 0\<rparr>"
proof -
  have fb: "file_blocks (i_data dir_inode_demo) = [36, 38]" using inode_demo_blocks by (simp add: dir_inode_demo_def)
  have "fview dir_demo 36 = dir_bytes_demo @ replicate 480 0"
    using view_uncached [of 36 "fbc dir_demo"] boot_uncached
    by (simp add: dir_demo_def fs_demo_def bcache_boot_core blocks_demo_ok)
  then have b: "file_bytes dir_demo dir_inode_demo = dir_bytes_demo"
    unfolding file_bytes_def fb by (simp add: dir_inode_demo_def dir_bytes_demo_def enc_dirent_def le16_def)
  show "dir_entry dir_demo dir_inode_demo 0 = \<lparr>de_inum = 0, de_name = 98 # replicate 13 0\<rparr>"
    "dir_entry dir_demo dir_inode_demo 1 = \<lparr>de_inum = 7, de_name = 98 # replicate 13 0\<rparr>"
    unfolding dir_entry_def b
    by (simp_all add: dir_bytes_demo_def get_at_def sizeof_dirent_def enc_dirent_def le16_def dec_dirent_def get16_def DIRSIZ_def)
qed

theorem dirlookup_correct_witness:
  "\<exists>s'. fview s' = fview dir_demo \<and>
     dirlookup 1 dv_none (Cached 0) [98] dir_demo = do { (ip, s'') \<leftarrow> iget ROOTDEV 7 s'; Some (Some (ip, 16), s'') }"
proof -
  have t: "i_type (inodep dir_demo (Cached 0)) = T_DIR" unfolding dir_demo_ok(1) by (simp add: dir_inode_demo_def)
  have "for_first (\<lambda>k. de_inum (dir_entry dir_demo dir_inode_demo k) \<noteq> 0 \<and>
      cname [98] = cname (de_name (dir_entry dir_demo dir_inode_demo k))) 0 (unat (i_size dir_inode_demo) div sizeof_dirent) = Some 1"
    unfolding for_first_Some
    by (auto simp: dir_entry_demo [simplified] less_Suc_eq cname_def DIRSIZ_def) (simp add: dir_inode_demo_def sizeof_dirent_def)
  then show ?thesis
    using dirlookup_correct [OF dir_demo_ok(2) t, of dv_none "[98]"]
    unfolding dir_demo_ok(1)
    by (auto simp: dir_entry_demo [simplified] sizeof_dirent_def) (auto simp: dir_inode_demo_def inode_demo_def)
qed

end
