(* ===== verification/Xk_Mem.thy ===== *)
theory Xk_Mem
  imports Xk_Prelude
begin

text \<open>
  Addresses and page frames: the constants and macros of \<open>inc/mmu.h\<close>, \<open>inc/memlayout.h\<close> and
  \<open>inc/param.h\<close> on 64-bit words, and the contents a physical page can have. The kernel maps all
  physical memory at \<open>KERNBASE\<close>, so a kernel pointer to a page and its page number determine each
  other.
\<close>

section \<open>Address arithmetic (inc/mmu.h, inc/memlayout.h)\<close>

definition PGSIZE :: u64 where "PGSIZE = 4096"

definition PT_SHIFT :: nat where "PT_SHIFT = 12"

definition KERNBASE :: u64 where "KERNBASE = 0xFFFFFFFF80000000"

definition EXTMEM :: u64 where "EXTMEM = 0x100000"

definition SZ_2G :: u64 where "SZ_2G = 0x80000000"

definition SZ_4G :: u64 where "SZ_4G = 0x100000000"

definition V2P :: "u64 \<Rightarrow> u64" where "V2P a = a - KERNBASE"

definition P2V :: "u64 \<Rightarrow> u64" where "P2V a = a + KERNBASE"

definition PGNUM :: "u64 \<Rightarrow> u64" where "PGNUM la = drop_bit PT_SHIFT la"

definition PGROUNDUP :: "u64 \<Rightarrow> u64" where
  "PGROUNDUP sz = (sz + PGSIZE - 1) AND NOT (PGSIZE - 1)"

definition PGROUNDDOWN :: "u64 \<Rightarrow> u64" where
  "PGROUNDDOWN a = a AND NOT (PGSIZE - 1)"

lemmas addr_defs = PGSIZE_def PT_SHIFT_def KERNBASE_def V2P_def P2V_def PGNUM_def

lemma V2P_P2V [simp]: "V2P (P2V a) = a" and P2V_V2P [simp]: "P2V (V2P a) = a"
  by (simp_all add: addr_defs)

lemma and_not_mask_eq: "x AND NOT (mask n) = push_bit n (drop_bit n (x :: 'a :: len word))"
  by (rule bit_word_eqI) (auto simp: bit_simps)

lemma PGROUNDDOWN_eq: "PGROUNDDOWN a = push_bit 12 (drop_bit 12 a)"
proof -
  have "(PGSIZE - 1) = mask 12" by (simp add: PGSIZE_def mask_eq_exp_minus_1)
  then show ?thesis by (simp add: PGROUNDDOWN_def and_not_mask_eq)
qed

lemma unat_PGROUNDDOWN: "unat (PGROUNDDOWN a) = unat a div 4096 * 4096"
proof -
  have "unat a div 4096 * 4096 < 2 ^ 64"
    using unat_u64_less [of a] by (simp add: le_less_trans [OF div_times_less_eq_dividend])
  then have "unat a div 4096 * 4096 mod 2 ^ 64 = unat a div 4096 * 4096" by (rule mod_less)
  then show ?thesis
    by (simp add: PGROUNDDOWN_eq push_bit_eq_mult drop_bit_eq_div unat_word_ariths unat_div)
qed

lemma PGROUNDUP_eq: "PGROUNDUP a = PGROUNDDOWN (a + 4095)"
  by (simp add: PGROUNDUP_def PGROUNDDOWN_def PGSIZE_def add.commute)

lemma unat_PGROUNDUP:
  "unat a + 4095 < 2 ^ 64 \<Longrightarrow> unat (PGROUNDUP a) = (unat a + 4095) div 4096 * 4096"
  by (simp add: PGROUNDUP_eq unat_PGROUNDDOWN unat_word_ariths)

lemma unat_PGNUM: "unat (PGNUM a) = unat a div 4096"
  by (simp add: PGNUM_def PT_SHIFT_def drop_bit_eq_div unat_div)

section \<open>Page frames\<close>

text \<open>
  A page is used as plain bytes (kernel stacks, user memory, pipe buffers), as one level of a page table
  (512 entries) or as a \<open>struct vpi_page\<close> of \<open>inc/vspace.h\<close>: \<open>VPIPPAGE\<close> page descriptors and the address of
  the next one (0 at the end). \<open>memset(page, 0, PGSIZE)\<close> yields the zero content of the kind the page is
  then used as.
\<close>

record vpage_info =
  vused :: int
  ppn :: u64
  vpresent :: int
  writable :: int
  copy_on_write :: int

text \<open>\<open>sizeof(struct vpage_info)\<close> is 24, so a page holds \<open>4096/24 - 1\<close> of them.\<close>

definition VPIPPAGE :: nat where "VPIPPAGE = 169"

definition vpi_zero :: vpage_info where
  "vpi_zero = \<lparr>vused = 0, ppn = 0, vpresent = 0, writable = 0, copy_on_write = 0\<rparr>"

datatype frame =
    Bytes "nat \<Rightarrow> u8"
  | Table "nat \<Rightarrow> u64"
  | VpiPage "vpage_info list" u64

definition zero_bytes :: frame where "zero_bytes = Bytes (\<lambda>_. 0)"

definition zero_table :: frame where "zero_table = Table (\<lambda>_. 0)"

definition zero_vpis :: frame where "zero_vpis = VpiPage (replicate VPIPPAGE vpi_zero) 0"

end
