(* ===== verification/Xk_Kalloc.thy ===== *)
theory Xk_Kalloc
  imports Xk_Mem Xk_Locks
begin

text \<open>
  The physical page allocator, \<open>kernel/kalloc.c\<close>: the core map with one entry per physical page, reference
  counts shared by copy-on-write mappings, the page counters and the boot-time initialisation.
  A \<open>struct core_map_entry *\<close> is an index into \<open>core_map\<close>; a page handed out by \<open>kalloc\<close> is its kernel
  virtual address, 0 on failure.
\<close>

section \<open>State (struct core_map_entry, kmem and the counters)\<close>

record core_map_entry =
  available :: int
  cuser :: int
  cva :: u64
  cref :: int

record kmem =
  npages :: nat
  pages_in_use :: int
  pages_in_swap :: int
  free_pages :: int
  core_map :: "core_map_entry list"
  frames :: "nat \<Rightarrow> frame"
  klock :: spinlock
  use_lock :: bool
  kend :: u64
  rnext :: u64

definition cme_zero :: core_map_entry where
  "cme_zero = \<lparr>available = 0, cuser = 0, cva = 0, cref = 0\<rparr>"

text \<open>\<open>(uint64_t)(npages * PGSIZE)\<close>: the product is computed in \<open>int\<close> and then widened.\<close>

definition mem_limit :: "nat \<Rightarrow> u64" where
  "mem_limit n = word_of_int (c_int (int n * 4096))"

section \<open>Operations\<close>

definition pa2page :: "u64 \<Rightarrow> kmem \<Rightarrow> nat option" where
  "pa2page pa s = (if npages s \<le> unat (PGNUM pa) then None else Some (unat (PGNUM pa)))"

definition page2pa :: "nat \<Rightarrow> u64" where
  "page2pa pp = push_bit PT_SHIFT (word_of_nat pp)"

definition lock_kmem :: "kmem \<Rightarrow> kmem option" where
  "lock_kmem s = (if use_lock s then do { l \<leftarrow> acquire_lk (klock s); Some (s\<lparr>klock := l\<rparr>) } else Some s)"

definition unlock_kmem :: "kmem \<Rightarrow> kmem option" where
  "unlock_kmem s = (if use_lock s then do { l \<leftarrow> release_lk (klock s); Some (s\<lparr>klock := l\<rparr>) } else Some s)"

definition set_cme :: "nat \<Rightarrow> core_map_entry \<Rightarrow> kmem \<Rightarrow> kmem" where
  "set_cme i e s = s\<lparr>core_map := (core_map s)[i := e]\<rparr>"

definition kfree :: "u64 \<Rightarrow> kmem \<Rightarrow> kmem option" where
  "kfree v s =
     (if v mod PGSIZE \<noteq> 0 \<or> v < kend s \<or> mem_limit (npages s) \<le> V2P v then None
      else do {
        s \<leftarrow> lock_kmem s;
        i \<leftarrow> pa2page (V2P v) s;
        let r = core_map s ! i;
        let r = r\<lparr>cref := c_short (cref r - 1)\<rparr>;
        let s = (if cref r \<le> 0
                 then (set_cme i (r\<lparr>available := 1, cuser := 0, cva := 0, cref := 0\<rparr>) s)
                        \<lparr>pages_in_use := pages_in_use s - 1, free_pages := free_pages s + 1,
                         frames := (frames s)(i := Bytes (\<lambda>_. 2))\<rparr>
                 else set_cme i r s);
        unlock_kmem s })"

definition kalloc :: "kmem \<Rightarrow> (u64 \<times> kmem) option" where
  "kalloc s = do {
     s \<leftarrow> lock_kmem s;
     (case for_first (\<lambda>i. available (core_map s ! i) = 1) 0 (npages s) of
        Some i \<Rightarrow> do {
          let s = (set_cme i ((core_map s ! i)\<lparr>available := 0, cref := 1\<rparr>) s)
                    \<lparr>pages_in_use := pages_in_use s + 1, free_pages := free_pages s - 1\<rparr>;
          s \<leftarrow> unlock_kmem s;
          Some (P2V (page2pa i), s) }
      | None \<Rightarrow> do { s \<leftarrow> unlock_kmem s; Some (0, s) }) }"

definition mark_user_mem :: "u64 \<Rightarrow> u64 \<Rightarrow> kmem \<Rightarrow> kmem option" where
  "mark_user_mem pa uva s = do {
     i \<leftarrow> pa2page pa s;
     Some (set_cme i ((core_map s ! i)\<lparr>cuser := 1, cva := uva\<rparr>) s) }"

definition mark_kernel_mem :: "u64 \<Rightarrow> kmem \<Rightarrow> kmem option" where
  "mark_kernel_mem pa s = do {
     i \<leftarrow> pa2page pa s;
     Some (set_cme i ((core_map s ! i)\<lparr>cuser := 0, cva := 0\<rparr>) s) }"

text \<open>
  \<open>freerange\<close> frees page after page; a range at the very top of the address space would never end, hence
  the partial definition.
\<close>

partial_function (option) freerange_loop :: "u64 \<Rightarrow> u64 \<Rightarrow> kmem \<Rightarrow> kmem option" where
  "freerange_loop p vend s =
     (if p + PGSIZE \<le> vend then Option.bind (kfree p s) (\<lambda>s. freerange_loop (p + PGSIZE) vend s)
      else Some s)"

definition freerange :: "u64 \<Rightarrow> u64 \<Rightarrow> kmem \<Rightarrow> kmem option" where
  "freerange vstart vend s = freerange_loop (PGROUNDUP vstart) vend s"

definition setrand :: "u32 \<Rightarrow> kmem \<Rightarrow> kmem" where
  "setrand seed s = s\<lparr>rnext := ucast seed\<rparr>"

text \<open>
  \<open>sizeof(struct core_map_entry)\<close> is 24. \<open>vend - vstart\<close> is a signed difference of pointers, shifted arithmetically and stored in an \<open>int\<close>.
\<close>

definition mem_init :: "u64 \<Rightarrow> kmem \<Rightarrow> kmem option" where
  "mem_init vstart s = do {
     let s = s\<lparr>core_map := replicate (npages s) cme_zero\<rparr>;
     let vstart = vstart + PGROUNDUP (word_of_nat (npages s) * 24);
     let s = s\<lparr>klock := initlock ''kmem'', use_lock := False\<rparr>;
     let vend = P2V (mem_limit (npages s));
     s \<leftarrow> freerange vstart vend s;
     let s = s\<lparr>free_pages := c_int (drop_bit PT_SHIFT (sint (vend - vstart))),
              pages_in_use := 0, pages_in_swap := 0, use_lock := True\<rparr>;
     Some (setrand 1 s) }"

text \<open>\<open>rand(limit)\<close>: an unsigned remainder of the middle bits of the 64-bit state.\<close>

definition rand :: "nat \<Rightarrow> kmem \<Rightarrow> (nat \<times> kmem) option" where
  "rand limit s =
     (let s = s\<lparr>rnext := rnext s * 1103515245 + 12345\<rparr>
      in if limit = 0 then None
         else Some (unat (ucast (rnext s div 65536) :: u32) mod limit, s))"

fun random_user_page_loop :: "nat \<Rightarrow> kmem \<Rightarrow> (nat \<times> kmem) option" where
  "random_user_page_loop 0 s = None"
| "random_user_page_loop (Suc x) s = do {
     (i, s) \<leftarrow> rand (npages s) s;
     (if cva (core_map s ! i) \<noteq> 0 then Some (i, s) else random_user_page_loop x s) }"

definition get_random_user_page :: "kmem \<Rightarrow> (nat \<times> kmem) option" where
  "get_random_user_page s = random_user_page_loop 100 s"

text \<open>\<open>detect_memory\<close> reads the E820 map; entries that start above the mapped range are skipped.\<close>

record e820_entry =
  eaddr :: u64
  elen :: u64
  etype :: u32

fun detect_loop :: "e820_entry list \<Rightarrow> u64 \<Rightarrow> u64 \<Rightarrow> u64" where
  "detect_loop [] mem_max mem = mem"
| "detect_loop (e # es) mem_max mem =
     (if mem_max \<le> eaddr e then detect_loop es mem_max mem
      else detect_loop es mem_max (max mem (eaddr e + elen e)))"

definition detect_memory :: "e820_entry list \<Rightarrow> kmem \<Rightarrow> kmem" where
  "detect_memory es s =
     (let mem_max = - KERNBASE; mem = min (detect_loop es mem_max 0) mem_max
      in s\<lparr>npages := unat (mem div PGSIZE)\<rparr>)"


section \<open>Page addresses\<close>

abbreviation page_va :: "nat \<Rightarrow> u64" where "page_va i \<equiv> P2V (page2pa i)"

definition max_pages :: nat where "max_pages = 2 ^ 19"

lemma unat_page2pa: "i < max_pages \<Longrightarrow> unat (page2pa i) = i * 4096"
  by (simp add: page2pa_def PT_SHIFT_def push_bit_eq_mult unat_word_ariths unsigned_of_nat
      max_pages_def take_bit_nat_eq_self)

lemma unat_PGNUM_page2pa [simp]: "i < max_pages \<Longrightarrow> unat (PGNUM (page2pa i)) = i"
  by (simp add: unat_PGNUM unat_page2pa)

lemma unat_page_va: "i < max_pages \<Longrightarrow> unat (page_va i) = unat KERNBASE + i * 4096"
  by (simp add: P2V_def unat_word_ariths unat_page2pa KERNBASE_def max_pages_def)

lemma page_va_inj: "i < max_pages \<Longrightarrow> j < max_pages \<Longrightarrow> page_va i = page_va j \<longleftrightarrow> i = j"
  by (metis V2P_P2V unat_PGNUM_page2pa)

lemma page_va_nonzero [simp]: "i < max_pages \<Longrightarrow> page_va i \<noteq> 0"
proof
  assume "i < max_pages" and "page_va i = 0"
  then have "unat KERNBASE + i * 4096 = 0" using unat_page_va [of i] by simp
  then show False by (simp add: KERNBASE_def)
qed

lemma page_va_aligned [simp]: "i < max_pages \<Longrightarrow> page_va i mod PGSIZE = 0"
proof -
  assume "i < max_pages"
  then have "unat (page_va i mod PGSIZE) = 0"
    by (simp add: unat_mod unat_page_va PGSIZE_def KERNBASE_def mod_add_eq [symmetric])
  then show ?thesis by (simp add: unat_eq_0)
qed

lemma unat_mem_limit: "n < max_pages \<Longrightarrow> unat (mem_limit n) = n * 4096"
proof -
  assume n: "n < max_pages"
  then have "c_int (int n * 4096) = int (n * 4096)" by (simp add: max_pages_def)
  then have "mem_limit n = word_of_nat (n * 4096)" by (simp add: mem_limit_def)
  then show ?thesis using n
    by (simp add: max_pages_def unat_word_ariths unsigned_of_nat take_bit_nat_eq_self)
qed

section \<open>The allocator invariant\<close>

text \<open>
  A page is \<open>avail\<close> (on the free list, so to speak), \<open>live\<close> (handed out, with a positive reference count)
  or neither (the kernel image and the core map itself, which the allocator never manages).
  The counters that \<open>sysinfo\<close> reports count exactly the live and the available pages.
\<close>

definition avail :: "core_map_entry \<Rightarrow> bool" where
  "avail e \<longleftrightarrow> available e = 1"

definition live :: "core_map_entry \<Rightarrow> bool" where
  "live e \<longleftrightarrow> 0 < cref e"

definition entry_ok :: "core_map_entry \<Rightarrow> bool" where
  "entry_ok e \<longleftrightarrow> available e \<in> {0, 1} \<and> 0 \<le> cref e \<and> cref e < 2 ^ 15 \<and>
     (available e = 1 \<longrightarrow> cref e = 0 \<and> cuser e = 0 \<and> cva e = 0)"

definition map_ok :: "nat \<Rightarrow> u64 \<Rightarrow> core_map_entry list \<Rightarrow> bool" where
  "map_ok n e cm \<longleftrightarrow> length cm = n \<and> (\<forall>i < n. entry_ok (cm ! i) \<and>
     (avail (cm ! i) \<or> live (cm ! i) \<longrightarrow> e \<le> page_va i))"

definition kmem_ok :: "kmem \<Rightarrow> bool" where
  "kmem_ok s \<longleftrightarrow> npages s < max_pages \<and> lk_free (klock s) \<and>
     map_ok (npages s) (kend s) (core_map s) \<and>
     free_pages s = count_if avail (core_map s) \<and> pages_in_use s = count_if live (core_map s)"

definition page_live :: "kmem \<Rightarrow> nat \<Rightarrow> bool" where
  "page_live s i \<longleftrightarrow> i < npages s \<and> live (core_map s ! i)"

definition page_avail :: "kmem \<Rightarrow> nat \<Rightarrow> bool" where
  "page_avail s i \<longleftrightarrow> i < npages s \<and> avail (core_map s ! i)"

definition page_ref :: "kmem \<Rightarrow> nat \<Rightarrow> int" where
  "page_ref s i = cref (core_map s ! i)"

lemma lock_kmem_ok: "kmem_ok s \<Longrightarrow> \<exists>s'. lock_kmem s = Some s' \<and> unlock_kmem s' = Some s \<and>
    s' = s\<lparr>klock := klock s'\<rparr> \<and> (use_lock s \<longrightarrow> lk_held (klock s'))"
  by (cases s) (auto simp: kmem_ok_def lock_kmem_def unlock_kmem_def)

text \<open>
  Under the invariant the lock brackets vanish: \<open>kalloc\<close> and \<open>kfree\<close> compute these pure functions.
\<close>

definition take_page :: "nat \<Rightarrow> kmem \<Rightarrow> kmem" where
  "take_page i s = (set_cme i ((core_map s ! i)\<lparr>available := 0, cref := 1\<rparr>) s)
     \<lparr>pages_in_use := pages_in_use s + 1, free_pages := free_pages s - 1\<rparr>"

definition drop_ref :: "nat \<Rightarrow> kmem \<Rightarrow> kmem" where
  "drop_ref i s =
     (if cref (core_map s ! i) \<le> 1
      then (set_cme i ((core_map s ! i)\<lparr>available := 1, cuser := 0, cva := 0, cref := 0\<rparr>) s)
             \<lparr>pages_in_use := pages_in_use s - 1, free_pages := free_pages s + 1,
              frames := (frames s)(i := Bytes (\<lambda>_. 2))\<rparr>
      else set_cme i ((core_map s ! i)\<lparr>cref := cref (core_map s ! i) - 1\<rparr>) s)"

lemma kalloc_eq:
  assumes "kmem_ok s"
  shows "kalloc s = Some (case for_first (\<lambda>i. available (core_map s ! i) = 1) 0 (npages s) of
     Some i \<Rightarrow> (page_va i, take_page i s) | None \<Rightarrow> (0, s))"
proof -
  have "lk_free (klock s)" using assms by (simp add: kmem_ok_def)
  then show ?thesis
    by (cases s)
      (auto simp: kalloc_def lock_kmem_def unlock_kmem_def set_cme_def take_page_def split: option.split)
qed


lemma map_ok_entry: "map_ok n e cm \<Longrightarrow> i < n \<Longrightarrow> entry_ok (cm ! i)"
  by (simp add: map_ok_def)

lemma kmem_ok_entry: "kmem_ok s \<Longrightarrow> i < npages s \<Longrightarrow> entry_ok (core_map s ! i)"
  by (simp add: kmem_ok_def map_ok_def)

lemma kmem_ok_length: "kmem_ok s \<Longrightarrow> length (core_map s) = npages s"
  by (simp add: kmem_ok_def map_ok_def)

lemma kmem_ok_max: "kmem_ok s \<Longrightarrow> i < npages s \<Longrightarrow> i < max_pages"
  by (simp add: kmem_ok_def)

lemma page_check_passes:
  assumes "kmem_ok s" and "i < npages s"
  shows "\<not> mem_limit (npages s) \<le> V2P (page_va i)"
proof -
  have m: "npages s < max_pages" "i < max_pages" using assms by (auto simp: kmem_ok_def)
  then have "unat (page2pa i) < unat (mem_limit (npages s))"
    using assms(2) by (simp add: unat_page2pa unat_mem_limit)
  then show ?thesis by (simp add: word_less_nat_alt word_le_nat_alt not_le)
qed

lemma pa2page_page2pa [simp]: "i < npages s \<Longrightarrow> i < max_pages \<Longrightarrow> pa2page (page2pa i) s = Some i"
  by (simp add: pa2page_def)

lemma kfree_eq:
  assumes ok: "kmem_ok s" and i: "i < npages s" and e: "kend s \<le> page_va i"
  shows "kfree (page_va i) s = Some (drop_ref i s)"
proof -
  have l: "lk_free (klock s)" using ok by (simp add: kmem_ok_def)
  have m: "i < max_pages" using kmem_ok_max [OF ok i] .
  have r: "entry_ok (core_map s ! i)" using kmem_ok_entry [OF ok i] .
  have c: "c_short (cref (core_map s ! i) - 1) = cref (core_map s ! i) - 1"
    using r by (simp add: entry_ok_def)
  have chk: "\<not> (page_va i mod PGSIZE \<noteq> 0 \<or> page_va i < kend s \<or> mem_limit (npages s) \<le> V2P (page_va i))"
    using page_check_passes [OF ok i] m e by auto
  show ?thesis
    unfolding kfree_def if_not_P [OF chk]
    using l i m c
    by (cases s)
      (auto simp: lock_kmem_def unlock_kmem_def set_cme_def drop_ref_def pa2page_page2pa Let_def)
qed

text \<open>Every operation keeps the invariant.\<close>

lemma map_ok_update:
  assumes m: "map_ok n e cm" and x: "entry_ok x" and b: "avail x \<or> live x \<longrightarrow> e \<le> page_va i"
  shows "map_ok n e (cm[i := x])"
  unfolding map_ok_def
proof (intro conjI allI impI)
  show "length (cm[i := x]) = n" using m by (simp add: map_ok_def)
next
  fix j assume j: "j < n"
  show "entry_ok (cm[i := x] ! j)" using m x j by (simp add: map_ok_def nth_upd)
  assume "avail (cm[i := x] ! j) \<or> live (cm[i := x] ! j)"
  then show "e \<le> page_va j" using m b j by (auto simp: map_ok_def nth_upd split: if_splits)
qed

lemma kmem_okD:
  assumes "kmem_ok s" and "i < npages s"
  shows "entry_ok (core_map s ! i)" and "avail (core_map s ! i) \<or> live (core_map s ! i) \<Longrightarrow> kend s \<le> page_va i"
    and "i < length (core_map s)"
  using assms by (auto simp: kmem_ok_def map_ok_def)

lemma kmem_ok_update:
  assumes ok: "kmem_ok s" and i: "i < npages s" and x: "entry_ok x"
    and b: "avail x \<or> live x \<longrightarrow> kend s \<le> page_va i"
    and f: "fp = free_pages s - (if avail (core_map s ! i) then 1 else 0) + (if avail x then 1 else 0)"
    and u: "pu = pages_in_use s - (if live (core_map s ! i) then 1 else 0) + (if live x then 1 else 0)"
  shows "kmem_ok (s\<lparr>core_map := (core_map s)[i := x], pages_in_use := pu, free_pages := fp, frames := fr\<rparr>)"
  using ok i kmem_okD(3) [OF ok i] map_ok_update [OF _ x b, of "npages s" "core_map s"]
  unfolding f u by (simp add: kmem_ok_def count_if_update)

lemma take_page_ok:
  assumes ok: "kmem_ok s" and i: "page_avail s i"
  shows "kmem_ok (take_page i s)"
proof -
  have n: "i < npages s" and a: "avail (core_map s ! i)" using i by (simp_all add: page_avail_def)
  have l: "\<not> live (core_map s ! i)" using kmem_okD(1) [OF ok n] a
    by (simp add: avail_def live_def entry_ok_def)
  have "kmem_ok (s\<lparr>core_map := (core_map s)[i := (core_map s ! i)\<lparr>available := 0, cref := 1\<rparr>],
     pages_in_use := pages_in_use s + 1, free_pages := free_pages s - 1, frames := frames s\<rparr>)"
    by (rule kmem_ok_update [OF ok n]) (use a l kmem_okD [OF ok n] in \<open>simp_all add: entry_ok_def avail_def live_def\<close>)
  then show ?thesis by (simp add: take_page_def set_cme_def)
qed

lemma drop_ref_ok:
  assumes ok: "kmem_ok s" and i: "page_live s i"
  shows "kmem_ok (drop_ref i s)"
proof -
  have n: "i < npages s" and l: "live (core_map s ! i)" using i by (simp_all add: page_live_def)
  have a: "\<not> avail (core_map s ! i)" using kmem_okD(1) [OF ok n] l
    by (auto simp: avail_def live_def entry_ok_def)
  show ?thesis
  proof (cases "cref (core_map s ! i) \<le> 1")
    case True
    have "kmem_ok (s\<lparr>core_map := (core_map s)[i := (core_map s ! i)\<lparr>available := 1, cuser := 0, cva := 0, cref := 0\<rparr>],
       pages_in_use := pages_in_use s - 1, free_pages := free_pages s + 1,
       frames := (frames s)(i := Bytes (\<lambda>_. 2))\<rparr>)"
      by (rule kmem_ok_update [OF ok n]) (use a l kmem_okD [OF ok n] in \<open>simp_all add: entry_ok_def avail_def live_def\<close>)
    with True show ?thesis by (simp add: drop_ref_def set_cme_def)
  next
    case False
    have "kmem_ok (s\<lparr>core_map := (core_map s)[i := (core_map s ! i)\<lparr>cref := cref (core_map s ! i) - 1\<rparr>],
       pages_in_use := pages_in_use s, free_pages := free_pages s, frames := frames s\<rparr>)"
      by (rule kmem_ok_update [OF ok n]) (use False a l kmem_okD [OF ok n] in \<open>simp_all add: entry_ok_def avail_def live_def\<close>)
    with False show ?thesis by (simp add: drop_ref_def set_cme_def)
  qed
qed


lemma take_page_fields [simp]:
  "npages (take_page i s) = npages s" "kend (take_page i s) = kend s"
  "frames (take_page i s) = frames s" "use_lock (take_page i s) = use_lock s" "klock (take_page i s) = klock s"
  "core_map (take_page i s) = (core_map s)[i := (core_map s ! i)\<lparr>available := 0, cref := 1\<rparr>]"
  by (simp_all add: take_page_def set_cme_def)

lemma drop_ref_fields [simp]:
  "npages (drop_ref i s) = npages s" "kend (drop_ref i s) = kend s"
  "use_lock (drop_ref i s) = use_lock s" "klock (drop_ref i s) = klock s"
  by (simp_all add: drop_ref_def set_cme_def)

lemma kalloc_cases:
  assumes ok: "kmem_ok s"
  obtains (null) "kalloc s = Some (0, s)" "\<And>i. \<not> page_avail s i"
  | (page) i where "kalloc s = Some (page_va i, take_page i s)" "page_avail s i" "\<And>j. j < i \<Longrightarrow> \<not> page_avail s j"
proof (cases "for_first (\<lambda>i. available (core_map s ! i) = 1) 0 (npages s)")
  case None
  then have "kalloc s = Some (0, s)" using kalloc_eq [OF ok] by simp
  with None show ?thesis using null by (simp add: for_first_None page_avail_def avail_def)
next
  case (Some i)
  then have "kalloc s = Some (page_va i, take_page i s)" using kalloc_eq [OF ok] by simp
  with Some show ?thesis using page by (simp add: for_first_Some page_avail_def avail_def)
qed

section \<open>The interface the rest of the kernel relies on\<close>

text \<open>
  What a user of the allocator needs: \<open>refs s i\<close> is the number of references to page \<open>i\<close>; an allocated
  page had none and has one, a free takes one away, nothing else changes, and a null result changes
  nothing at all.
\<close>

fun allocs :: "('s \<Rightarrow> (u64 \<times> 's) option) \<Rightarrow> nat \<Rightarrow> 's \<Rightarrow> (u64 list \<times> 's) option" where
  "allocs f 0 s = Some ([], s)"
| "allocs f (Suc n) s = do {
     (v, s) \<leftarrow> f s;
     (if v = 0 then Some ([], s) else do { (vs, s) \<leftarrow> allocs f n s; Some (v # vs, s) }) }"

fun deallocs :: "(u64 \<Rightarrow> 's \<Rightarrow> 's option) \<Rightarrow> u64 list \<Rightarrow> 's \<Rightarrow> 's option" where
  "deallocs f [] s = Some s"
| "deallocs f (v # vs) s = do { s \<leftarrow> f v s; deallocs f vs s }"

locale page_allocator =
  fixes alloc :: "'s \<Rightarrow> (u64 \<times> 's) option"
    and dealloc :: "u64 \<Rightarrow> 's \<Rightarrow> 's option"
    and inv :: "'s \<Rightarrow> bool"
    and refs :: "'s \<Rightarrow> nat \<Rightarrow> int"
    and addr :: "nat \<Rightarrow> u64"
  assumes alloc_returns: "inv s \<Longrightarrow> \<exists>v s'. alloc s = Some (v, s') \<and> inv s'"
    and alloc_null: "inv s \<Longrightarrow> alloc s = Some (0, s') \<Longrightarrow> s' = s"
    and alloc_page: "inv s \<Longrightarrow> alloc s = Some (v, s') \<Longrightarrow> v \<noteq> 0 \<Longrightarrow>
      \<exists>i. v = addr i \<and> refs s i = 0 \<and> refs s' = (refs s)(i := 1)"
    and dealloc_page: "inv s \<Longrightarrow> 0 < refs s i \<Longrightarrow>
      \<exists>s'. dealloc (addr i) s = Some s' \<and> inv s' \<and> refs s' = (refs s)(i := refs s i - 1)"
begin

lemma alloc_dealloc:
  assumes "inv s" and "alloc s = Some (v, s1)" and "v \<noteq> 0"
  shows "\<exists>s2. dealloc v s1 = Some s2 \<and> inv s2 \<and> refs s2 = refs s"
proof -
  obtain i where v: "v = addr i" and z: "refs s i = 0" and r: "refs s1 = (refs s)(i := 1)"
    using alloc_page [OF assms] by blast
  have "inv s1" using alloc_returns [OF assms(1)] assms(2) by auto
  from dealloc_page [OF this, of i] r obtain s2 where
    "dealloc (addr i) s1 = Some s2" "inv s2" "refs s2 = (refs s1)(i := refs s1 i - 1)" by auto
  with v z r show ?thesis by (auto simp: fun_eq_iff)
qed

text \<open>
  A run of allocations (as \<open>vregionaddmap\<close> or \<open>setupkvm\<close> make) yields pages that were all unused and that
  differ from one another; freeing them in any order gives back the counts from before the run.
\<close>

lemma allocs_fresh:
  assumes "inv s" and "allocs alloc n s = Some (vs, s')"
  shows "\<exists>is. vs = map addr is \<and> distinct is \<and> (\<forall>i \<in> set is. refs s i = 0) \<and> inv s' \<and>
     refs s' = (\<lambda>i. if i \<in> set is then 1 else refs s i)"
  using assms
proof (induction n arbitrary: s vs)
  case 0
  then show ?case by auto
next
  case (Suc n)
  obtain v s1 where a: "alloc s = Some (v, s1)" and i1: "inv s1"
    using alloc_returns [OF Suc.prems(1)] by blast
  show ?case
  proof (cases "v = 0")
    case True
    with a Suc.prems alloc_null [of s s1] show ?thesis by auto
  next
    case False
    from alloc_page [OF Suc.prems(1) a False] obtain i where i: "v = addr i" "refs s i = 0"
      "refs s1 = (refs s)(i := 1)" by blast
    from a False Suc.prems(2) obtain ws where w: "allocs alloc n s1 = Some (ws, s')" "vs = v # ws"
      by (auto simp: bind_simps)
    from Suc.IH [OF i1 w(1)] obtain js where js: "ws = map addr js" "distinct js"
      "\<forall>i \<in> set js. refs s1 i = 0" "inv s'" "refs s' = (\<lambda>i. if i \<in> set js then 1 else refs s1 i)" by blast
    have n: "i \<notin> set js" using js(3) i(3) by force
    have z: "\<forall>k \<in> set js. refs s k = 0" using js(3) i(3) n by (metis fun_upd_other)
    from n have "distinct (i # js) \<and> vs = map addr (i # js) \<and> (\<forall>k \<in> set (i # js). refs s k = 0) \<and>
        refs s' = (\<lambda>k. if k \<in> set (i # js) then 1 else refs s k)"
      using js i w(2) z by auto
    with js(4) show ?thesis by blast
  qed
qed

lemma deallocs_refs:
  assumes "inv s" and "distinct is" and "\<forall>i \<in> set is. 0 < refs s i"
  shows "\<exists>s'. deallocs dealloc (map addr is) s = Some s' \<and> inv s' \<and>
     refs s' = (\<lambda>i. if i \<in> set is then refs s i - 1 else refs s i)"
  using assms
proof (induction "is" arbitrary: s)
  case Nil
  then show ?case by simp
next
  case (Cons i js)
  have p: "0 < refs s i" and d: "i \<notin> set js" "distinct js" using Cons.prems by auto
  from dealloc_page [OF Cons.prems(1) p] obtain s1 where s1: "dealloc (addr i) s = Some s1" "inv s1"
    "refs s1 = (refs s)(i := refs s i - 1)" by blast
  have "\<forall>k \<in> set js. 0 < refs s1 k" using Cons.prems(3) s1(3) d by auto
  from Cons.IH [OF s1(2) d(2) this] obtain s' where s': "deallocs dealloc (map addr js) s1 = Some s'"
    "inv s'" "refs s' = (\<lambda>k. if k \<in> set js then refs s1 k - 1 else refs s1 k)" by blast
  have "refs s' = (\<lambda>k. if k \<in> set (i # js) then refs s k - 1 else refs s k)"
    using s'(3) s1(3) d by auto
  with s' s1 show ?case by auto
qed

end

definition page_refs :: "kmem \<Rightarrow> nat \<Rightarrow> int" where
  "page_refs s i = (if i < npages s then cref (core_map s ! i) else 0)"

lemma page_refs_take:
  assumes "kmem_ok s" and "page_avail s i"
  shows "page_refs s i = 0" and "page_refs (take_page i s) = (page_refs s)(i := 1)"
  using assms kmem_okD(1,3) [OF assms(1), of i]
  by (auto simp: page_refs_def page_avail_def nth_upd entry_ok_def avail_def fun_eq_iff)

lemma page_refs_drop:
  assumes "kmem_ok s" and "page_live s i"
  shows "page_refs (drop_ref i s) = (page_refs s)(i := page_refs s i - 1)"
  using assms kmem_okD(1,3) [OF assms(1), of i]
  by (auto simp: page_refs_def page_live_def nth_upd entry_ok_def live_def fun_eq_iff drop_ref_def set_cme_def)

lemma kfree_live:
  assumes ok: "kmem_ok s" and l: "page_live s i"
  shows "kfree (page_va i) s = Some (drop_ref i s)"
  using kfree_eq [OF ok] kmem_okD(2) [OF ok, of i] l by (auto simp: page_live_def)

interpretation km: page_allocator kalloc kfree kmem_ok page_refs page_va
proof unfold_locales
  fix s assume ok: "kmem_ok s"
  show "\<exists>v s'. kalloc s = Some (v, s') \<and> kmem_ok s'"
    by (rule kalloc_cases [OF ok]) (auto simp: ok intro: take_page_ok [OF ok])
next
  fix s s' assume ok: "kmem_ok s" and k: "kalloc s = Some (0, s')"
  show "s' = s" using k kmem_ok_max [OF ok]
    by (rule_tac kalloc_cases [OF ok]) (auto simp: page_avail_def)
next
  fix s v s' assume ok: "kmem_ok s" and k: "kalloc s = Some (v, s')" and v: "v \<noteq> 0"
  show "\<exists>i. v = page_va i \<and> page_refs s i = 0 \<and> page_refs s' = (page_refs s)(i := 1)"
    using k v page_refs_take [OF ok] by (rule_tac kalloc_cases [OF ok]) auto
next
  fix s i assume ok: "kmem_ok s" and r: "0 < page_refs s i"
  then have l: "page_live s i" by (auto simp: page_refs_def page_live_def live_def split: if_splits)
  show "\<exists>s'. kfree (page_va i) s = Some s' \<and> kmem_ok s' \<and> page_refs s' = (page_refs s)(i := page_refs s i - 1)"
    using kfree_live [OF ok l] drop_ref_ok [OF ok l] page_refs_drop [OF ok l] by simp
qed


section \<open>Boot-time initialisation\<close>

definition cme_free :: core_map_entry where
  "cme_free = \<lparr>available = 1, cuser = 0, cva = 0, cref = 0\<rparr>"

lemma page_va_Suc: "page_va i + PGSIZE = page_va (Suc i)"
  by (simp add: page2pa_def PT_SHIFT_def PGSIZE_def P2V_def push_bit_eq_mult algebra_simps)

lemma page_va_le: "i < max_pages \<Longrightarrow> j < max_pages \<Longrightarrow> page_va i \<le> page_va j \<longleftrightarrow> i \<le> j"
  by (simp add: word_le_nat_alt unat_page_va)

lemma P2V_mem_limit: "n < max_pages \<Longrightarrow> P2V (mem_limit n) = page_va n"
  by (metis unat_mem_limit unat_page2pa word_unat_eq_iff)

lemma kfree_fresh:
  assumes "\<not> use_lock s" and "npages s < max_pages" and "i < npages s" and "kend s \<le> page_va i"
    and "core_map s ! i = cme_zero"
  shows "kfree (page_va i) s = Some ((set_cme i cme_free s)
     \<lparr>pages_in_use := pages_in_use s - 1, free_pages := free_pages s + 1,
      frames := (frames s)(i := Bytes (\<lambda>_. 2))\<rparr>)"
proof -
  have m: "i < max_pages" using assms(2,3) by simp
  have "unat (page2pa i) < unat (mem_limit (npages s))"
    using assms(2,3) m by (simp add: unat_page2pa unat_mem_limit)
  then have chk: "\<not> (page_va i mod PGSIZE \<noteq> 0 \<or> page_va i < kend s \<or> mem_limit (npages s) \<le> V2P (page_va i))"
    using assms(4) m by (auto simp: word_le_nat_alt word_less_nat_alt)
  show ?thesis
    unfolding kfree_def if_not_P [OF chk] using assms m
    by (simp add: lock_kmem_def unlock_kmem_def Let_def set_cme_def cme_zero_def cme_free_def)
qed

definition freed_from :: "nat \<Rightarrow> kmem \<Rightarrow> kmem \<Rightarrow> bool" where
  "freed_from a s s' \<longleftrightarrow> npages s' = npages s \<and> kend s' = kend s \<and> klock s' = klock s \<and>
     length (core_map s') = length (core_map s) \<and>
     (\<forall>j < npages s. core_map s' ! j = (if a \<le> j then cme_free else core_map s ! j))"

lemma freerange_loop_run:
  assumes "\<not> use_lock s" and "Suc (npages s) < max_pages" and "a \<le> npages s" and "kend s \<le> page_va a"
    and "length (core_map s) = npages s" and "\<forall>j < npages s. a \<le> j \<longrightarrow> core_map s ! j = cme_zero"
  shows "\<exists>s'. freerange_loop (page_va a) (page_va (npages s)) s = Some s' \<and> freed_from a s s'"
  using assms
proof (induction "npages s - a" arbitrary: a s)
  case 0
  then have "a = npages s" by simp
  moreover have "\<not> page_va a + PGSIZE \<le> page_va (npages s)"
    using 0 by (simp add: page_va_Suc page_va_le)
  ultimately show ?case
    by (subst freerange_loop.simps) (simp add: freed_from_def)
next
  case (Suc d)
  then have a: "a < npages s" "a < max_pages" "Suc a < max_pages" by simp_all
  let ?s = "(set_cme a cme_free s)\<lparr>pages_in_use := pages_in_use s - 1, free_pages := free_pages s + 1,
      frames := (frames s)(a := Bytes (\<lambda>_. 2))\<rparr>"
  have k: "kfree (page_va a) s = Some ?s"
    using Suc.prems a by (intro kfree_fresh) auto
  have le: "page_va a \<le> page_va (Suc a)" using a by (simp add: page_va_le)
  have "\<exists>s'. freerange_loop (page_va (Suc a)) (page_va (npages ?s)) ?s = Some s' \<and> freed_from (Suc a) ?s s'"
    by (rule Suc.hyps(1)) (use Suc.hyps(2) Suc.prems a order_trans [OF _ le] in
        \<open>auto simp: set_cme_def nth_upd\<close>)
  then obtain s' where s': "freerange_loop (page_va (Suc a)) (page_va (npages s)) ?s = Some s'"
    "freed_from (Suc a) ?s s'" by (auto simp: set_cme_def)
  have "page_va a + PGSIZE \<le> page_va (npages s)"
    using a Suc.prems by (simp add: page_va_Suc page_va_le)
  then have "freerange_loop (page_va a) (page_va (npages s)) s = Some s'"
    using k s'(1) by (subst freerange_loop.simps) (simp add: page_va_Suc)
  moreover have "freed_from a s s'"
    using s'(2) a Suc.prems by (auto simp: freed_from_def set_cme_def nth_upd Suc_le_eq)
  ultimately show ?case by blast
qed


text \<open>The first page the allocator manages: the first page boundary after the kernel image and the core map.\<close>

definition core_map_bytes :: "nat \<Rightarrow> nat" where
  "core_map_bytes n = (24 * n + 4095) div 4096 * 4096"

definition first_page :: "u64 \<Rightarrow> nat \<Rightarrow> nat" where
  "first_page e n = (unat e + core_map_bytes n - unat KERNBASE + 4095) div 4096"

definition boot_ok :: "kmem \<Rightarrow> bool" where
  "boot_ok s \<longleftrightarrow> Suc (npages s) < max_pages \<and> KERNBASE \<le> kend s \<and>
     unat (kend s) + core_map_bytes (npages s) \<le> unat KERNBASE + npages s * 4096"

lemma unat_core_map_bytes:
  assumes "n < max_pages" shows "unat (PGROUNDUP (word_of_nat n * 24)) = core_map_bytes n"
proof -
  have "unat (word_of_nat n * 24 :: u64) = 24 * n"
    using assms by (simp add: unat_word_ariths unsigned_of_nat max_pages_def take_bit_nat_eq_self)
  then show ?thesis using assms by (simp add: unat_PGROUNDUP core_map_bytes_def max_pages_def)
qed

lemma boot_addresses:
  assumes b: "boot_ok s" and v: "v = kend s + PGROUNDUP (word_of_nat (npages s) * 24)"
  shows "PGROUNDUP v = page_va (first_page (kend s) (npages s))"
    and "first_page (kend s) (npages s) \<le> npages s"
    and "c_int (drop_bit PT_SHIFT (sint (P2V (mem_limit (npages s)) - v))) = int (npages s - first_page (kend s) (npages s))"
    and "kend s \<le> PGROUNDUP v"
proof -
  let ?n = "npages s" and ?K = "unat KERNBASE"
  have K: "?K = 18446744071562067968" by (simp add: KERNBASE_def)
  have n: "?n < max_pages" "Suc ?n < 524288" "KERNBASE \<le> kend s"
    and fit: "unat (kend s) + core_map_bytes ?n \<le> ?K + ?n * 4096"
    using b by (auto simp: boot_ok_def max_pages_def)
  have ke: "?K \<le> unat (kend s)" using n(3) by (simp add: word_le_nat_alt)
  have uv: "unat v = unat (kend s) + core_map_bytes ?n"
    using fit n K by (simp add: v unat_word_ariths unat_core_map_bytes)
  define x where "x = unat v - ?K"
  have x: "unat v = ?K + x" "x \<le> ?n * 4096" using uv fit ke unfolding x_def by linarith+
  let ?a = "first_page (kend s) ?n"
  have a: "?a = (x + 4095) div 4096" using x(1) uv by (simp add: first_page_def)
  have an: "?a \<le> ?n" using x(2) a by simp
  then have am: "?a < max_pages" using n by simp
  have "unat (PGROUNDUP v) = (?K + x + 4095) div 4096 * 4096"
    using x n K by (simp add: unat_PGROUNDUP)
  also have "?K + x + 4095 = (x + 4095) + 4503599626846208 * 4096" using K by simp
  also have "\<dots> div 4096 * 4096 = ?K + ?a * 4096" unfolding div_mult_self1 [OF numeral_neq_zero] a using K by simp
  finally have up: "unat (PGROUNDUP v) = unat (page_va ?a)" using unat_page_va [OF am] by simp
  then show "PGROUNDUP v = page_va ?a" by (simp add: word_unat_eq_iff)
  show "?a \<le> ?n" by (rule an)
  have "unat (P2V (mem_limit ?n) - v) = ?n * 4096 - x"
    using n x K by (simp add: P2V_mem_limit unat_sub word_le_nat_alt unat_page_va)
  then have d: "uint (P2V (mem_limit ?n) - v) = int (?n * 4096 - x)" by (metis of_nat_unat)
  moreover have "int (?n * 4096 - x) < 2 ^ 31" using n(2) by simp
  ultimately have "sint (P2V (mem_limit ?n) - v) = int (?n * 4096 - x)" by (simp add: sint_uint signed_take_bit_int_eq_self)
  then have "drop_bit PT_SHIFT (sint (P2V (mem_limit ?n) - v)) = int (?n * 4096 - x) div 4096"
    by (simp only: PT_SHIFT_def drop_bit_eq_div) simp
  also have "\<dots> = int ((?n * 4096 - x) div 4096)" by (simp only: zdiv_int) simp
  also have "(?n * 4096 - x) div 4096 = ?n - ?a" using x(2) a by simp
  finally show "c_int (drop_bit PT_SHIFT (sint (P2V (mem_limit ?n) - v))) = int (?n - ?a)" using n(2) by simp
  have "unat (kend s) \<le> unat (page_va ?a)"
    using uv x unat_page_va [OF am] a by simp
  then show "kend s \<le> PGROUNDUP v" using up by (simp add: word_le_nat_alt)
qed

lemma mem_init_run:
  assumes b: "boot_ok s"
  shows "\<exists>s'. mem_init (kend s) s = Some s' \<and> npages s' = npages s \<and> kend s' = kend s \<and> use_lock s' \<and>
     core_map s' = replicate (first_page (kend s) (npages s)) cme_zero @
       replicate (npages s - first_page (kend s) (npages s)) cme_free \<and>
     free_pages s' = int (npages s - first_page (kend s) (npages s)) \<and> pages_in_use s' = 0 \<and>
     klock s' = initlock ''kmem''"
proof -
  let ?n = "npages s"
  define a where "a = first_page (kend s) ?n"
  define v where "v = kend s + PGROUNDUP (word_of_nat ?n * 24)"
  note A = boot_addresses [OF b v_def, folded a_def]
  define s1 where "s1 = s\<lparr>core_map := replicate ?n cme_zero, klock := initlock ''kmem'', use_lock := False\<rparr>"
  have N: "Suc ?n < max_pages" using b by (simp add: boot_ok_def)
  then have ve: "P2V (mem_limit ?n) = page_va ?n" by (intro P2V_mem_limit) simp
  have "\<exists>s'. freerange_loop (page_va a) (page_va (npages s1)) s1 = Some s' \<and> freed_from a s1 s'"
    by (rule freerange_loop_run) (use N A in \<open>auto simp: s1_def\<close>)
  then obtain s2 where s2: "freerange v (page_va ?n) s1 = Some s2" "freed_from a s1 s2"
    using A(1) by (auto simp: s1_def freerange_def)
  have cm: "core_map s2 = replicate a cme_zero @ replicate (?n - a) cme_free"
    using s2(2) A(2) by (intro nth_equalityI) (auto simp: freed_from_def s1_def nth_append)
  show ?thesis
    using s2 cm A(3) ve
    by (auto simp: mem_init_def Let_def setrand_def freed_from_def s1_def [symmetric] v_def [symmetric] a_def [symmetric])
      (auto simp: s1_def)
qed

lemma mem_init_ok:
  assumes b: "boot_ok s" and i: "mem_init (kend s) s = Some s'"
  shows "kmem_ok s'"
proof -
  let ?a = "first_page (kend s) (npages s)"
  note F = mem_init_run [OF b]
  have le: "?a \<le> npages s" and e: "kend s \<le> page_va ?a"
    using boot_addresses [OF b refl] by simp_all
  have N: "npages s < max_pages" using b by (simp add: boot_ok_def)
  have "map_ok (npages s) (kend s) (replicate ?a cme_zero @ replicate (npages s - ?a) cme_free)"
    unfolding map_ok_def
  proof (intro conjI allI impI)
    fix j assume j: "j < npages s"
    let ?c = "(replicate ?a cme_zero @ replicate (npages s - ?a) cme_free) ! j"
    have c: "?c = (if j < ?a then cme_zero else cme_free)" using j le by (simp add: nth_append)
    show "entry_ok ?c" unfolding c by (simp add: entry_ok_def cme_zero_def cme_free_def)
    assume "avail ?c \<or> live ?c"
    then have "?a \<le> j" unfolding c by (simp add: avail_def live_def cme_zero_def split: if_splits)
    then have "page_va ?a \<le> page_va j" using j N by (simp add: page_va_le)
    with e show "kend s \<le> page_va j" by simp
  qed (use le in simp)
  with F i N show ?thesis
    by (auto simp: kmem_ok_def initlock_free avail_def live_def cme_zero_def cme_free_def)
qed

section \<open>Properties\<close>

text \<open>\<open>frame->ref++\<close> of \<open>copy_vpi_page\<close>: one more mapping shares the page.\<close>

definition share_page :: "u64 \<Rightarrow> kmem \<Rightarrow> kmem option" where
  "share_page pa s = do {
     i \<leftarrow> pa2page pa s;
     s \<leftarrow> lock_kmem s;
     let s = set_cme i ((core_map s ! i)\<lparr>cref := c_short (cref (core_map s ! i) + 1)\<rparr>) s;
     unlock_kmem s }"

lemma share_page_ok:
  assumes ok: "kmem_ok s" and l: "page_live s i" and m: "page_ref s i < 2 ^ 15 - 1"
  shows "share_page (page2pa i) s = Some (s\<lparr>core_map := (core_map s)[i := (core_map s ! i)\<lparr>cref := page_ref s i + 1\<rparr>]\<rparr>)"
    and "kmem_ok (s\<lparr>core_map := (core_map s)[i := (core_map s ! i)\<lparr>cref := page_ref s i + 1\<rparr>]\<rparr>)"
proof -
  have n: "i < npages s" and lv: "live (core_map s ! i)" using l by (simp_all add: page_live_def)
  have c: "c_short (cref (core_map s ! i) + 1) = page_ref s i + 1"
    using kmem_okD(1) [OF ok n] m by (simp add: entry_ok_def page_ref_def)
  have "lk_free (klock s)" using ok by (simp add: kmem_ok_def)
  then show "share_page (page2pa i) s = Some (s\<lparr>core_map := (core_map s)[i := (core_map s ! i)\<lparr>cref := page_ref s i + 1\<rparr>]\<rparr>)"
    using n kmem_ok_max [OF ok n] c
    by (cases s) (auto simp: share_page_def lock_kmem_def unlock_kmem_def set_cme_def Let_def)
  have "kmem_ok (s\<lparr>core_map := (core_map s)[i := (core_map s ! i)\<lparr>cref := page_ref s i + 1\<rparr>],
     pages_in_use := pages_in_use s, free_pages := free_pages s, frames := frames s\<rparr>)"
    by (rule kmem_ok_update [OF ok n])
      (use lv m kmem_okD [OF ok n] in \<open>auto simp: entry_ok_def avail_def live_def page_ref_def\<close>)
  then show "kmem_ok (s\<lparr>core_map := (core_map s)[i := (core_map s ! i)\<lparr>cref := page_ref s i + 1\<rparr>]\<rparr>)"
    by simp
qed

lemma mark_ok:
  assumes ok: "kmem_ok s" and l: "page_live s i"
  shows "mark_user_mem (page2pa i) u s = Some (set_cme i ((core_map s ! i)\<lparr>cuser := 1, cva := u\<rparr>) s)"
    and "mark_kernel_mem (page2pa i) s = Some (set_cme i ((core_map s ! i)\<lparr>cuser := 0, cva := 0\<rparr>) s)"
    and "kmem_ok (set_cme i ((core_map s ! i)\<lparr>cuser := x, cva := y\<rparr>) s)"
proof -
  have n: "i < npages s" and lv: "live (core_map s ! i)" using l by (simp_all add: page_live_def)
  show "mark_user_mem (page2pa i) u s = Some (set_cme i ((core_map s ! i)\<lparr>cuser := 1, cva := u\<rparr>) s)"
    "mark_kernel_mem (page2pa i) s = Some (set_cme i ((core_map s ! i)\<lparr>cuser := 0, cva := 0\<rparr>) s)"
    using n kmem_ok_max [OF ok n] by (simp_all add: mark_user_mem_def mark_kernel_mem_def)
  have "kmem_ok (s\<lparr>core_map := (core_map s)[i := (core_map s ! i)\<lparr>cuser := x, cva := y\<rparr>],
     pages_in_use := pages_in_use s, free_pages := free_pages s, frames := frames s\<rparr>)"
    by (rule kmem_ok_update [OF ok n])
      (use lv kmem_okD [OF ok n] in \<open>auto simp: entry_ok_def avail_def live_def\<close>)
  then show "kmem_ok (set_cme i ((core_map s ! i)\<lparr>cuser := x, cva := y\<rparr>) s)" by (simp add: set_cme_def)
qed

text \<open>
  The states the allocator can be in: booted, then any sequence of allocations, frees of pages that are in
  use, new shares of such pages (up to the 32767 a \<open>short\<close> can count) and user/kernel marks.
\<close>

inductive kmem_reach :: "kmem \<Rightarrow> bool" where
  boot: "boot_ok s \<Longrightarrow> mem_init (kend s) s = Some s' \<Longrightarrow> kmem_reach s'"
| alloc: "kmem_reach s \<Longrightarrow> kalloc s = Some (v, s') \<Longrightarrow> kmem_reach s'"
| free: "kmem_reach s \<Longrightarrow> page_live s i \<Longrightarrow> kfree (page_va i) s = Some s' \<Longrightarrow> kmem_reach s'"
| share: "kmem_reach s \<Longrightarrow> page_live s i \<Longrightarrow> page_ref s i < 2 ^ 15 - 1 \<Longrightarrow>
    share_page (page2pa i) s = Some s' \<Longrightarrow> kmem_reach s'"
| mark_user: "kmem_reach s \<Longrightarrow> page_live s i \<Longrightarrow> mark_user_mem (page2pa i) u s = Some s' \<Longrightarrow> kmem_reach s'"
| mark_kernel: "kmem_reach s \<Longrightarrow> page_live s i \<Longrightarrow> mark_kernel_mem (page2pa i) s = Some s' \<Longrightarrow> kmem_reach s'"

lemma kmem_reach_inv: "kmem_reach s \<Longrightarrow> kmem_ok s"
proof (induction rule: kmem_reach.induct)
  case (boot s s')
  then show ?case by (rule mem_init_ok)
next
  case (alloc s v s')
  then show ?case using km.alloc_returns [of s] by auto
next
  case (free s i s')
  then show ?case using kfree_live [of s i] drop_ref_ok [of s i] by simp
next
  case (share s i s')
  then show ?case using share_page_ok [of s i] by simp
next
  case (mark_user s i u s')
  then show ?case using mark_ok(1) [where s = s and i = i and u = u] mark_ok(3) [where s = s and i = i] by auto
next
  case (mark_kernel s i s')
  then show ?case using mark_ok(2) [where s = s and i = i] mark_ok(3) [where s = s and i = i] by auto
qed

lemma count_if_card: "count_if P xs = int (card {i. i < length xs \<and> P (xs ! i)})"
  by (simp add: count_if_def length_filter_conv_card)

text \<open>
  C1. In every state the page allocator can reach, \<open>free_pages\<close> is the number of available pages,
  \<open>pages_in_use\<close> is the number of pages with a positive reference count, and no page is both.
\<close>

theorem kmem_counters:
  assumes "kmem_reach s"
  shows "free_pages s = int (card {i. page_avail s i}) \<and> pages_in_use s = int (card {i. page_live s i}) \<and>
     {i. page_avail s i} \<inter> {i. page_live s i} = {}"
proof -
  have ok: "kmem_ok s" by (rule kmem_reach_inv [OF assms])
  have d: "\<not> (page_avail s i \<and> page_live s i)" for i
    using kmem_okD(1) [OF ok, of i] by (auto simp: page_avail_def page_live_def avail_def live_def entry_ok_def)
  have c: "free_pages s = count_if avail (core_map s)" "pages_in_use s = count_if live (core_map s)"
    using ok by (simp_all add: kmem_ok_def)
  have "free_pages s = int (card {i. page_avail s i})" "pages_in_use s = int (card {i. page_live s i})"
    unfolding c count_if_card kmem_ok_length [OF ok] page_avail_def page_live_def by simp_all
  with d show ?thesis by blast
qed

definition boot_demo :: kmem where
  "boot_demo = \<lparr>npages = 1024, pages_in_use = 0, pages_in_swap = 0, free_pages = 0, core_map = [],
     frames = (\<lambda>_. zero_bytes), klock = initlock '''', use_lock = False, kend = 0xFFFFFFFF80200000, rnext = 1\<rparr>"

lemma boot_demo_ok: "boot_ok boot_demo"
  by (simp add: boot_ok_def boot_demo_def max_pages_def KERNBASE_def core_map_bytes_def)

theorem kmem_counters_witness:
  "\<exists>s. mem_init (kend boot_demo) boot_demo = Some s \<and> kmem_reach s \<and>
     free_pages s = int (card {i. page_avail s i}) \<and> pages_in_use s = int (card {i. page_live s i})"
proof -
  obtain s where m: "mem_init (kend boot_demo) boot_demo = Some s"
    using mem_init_run [OF boot_demo_ok] by blast
  then have "kmem_reach s" by (rule kmem_reach.boot [OF boot_demo_ok])
  with m kmem_counters [OF this] show ?thesis by blast
qed

text \<open>
  C13. \<open>kalloc\<close> on an allocator in order always returns: it hands out the available page with the lowest
  number, that page then has exactly one reference, every other page keeps its core map entry; if no page
  is available it returns the null pointer and changes nothing.
\<close>

theorem kalloc_correct:
  assumes "kmem_ok s"
  shows "(\<exists>i s'. kalloc s = Some (page_va i, s') \<and> page_avail s i \<and> (\<forall>j < i. \<not> page_avail s j) \<and>
       kmem_ok s' \<and> page_live s' i \<and> page_ref s' i = 1 \<and>
       (\<forall>j. j \<noteq> i \<longrightarrow> core_map s' ! j = core_map s ! j) \<and> frames s' = frames s)
     \<or> (kalloc s = Some (0, s) \<and> (\<forall>i. \<not> page_avail s i))"
proof (rule kalloc_cases [OF assms])
  assume "kalloc s = Some (0, s)" and "\<And>i. \<not> page_avail s i"
  then show ?thesis by blast
next
  fix i
  assume k: "kalloc s = Some (page_va i, take_page i s)" and a: "page_avail s i"
    and l: "\<And>j. j < i \<Longrightarrow> \<not> page_avail s j"
  have n: "i < length (core_map s)" "i < npages s" using a kmem_okD(3) [OF assms, of i] by (auto simp: page_avail_def)
  then have "page_live (take_page i s) i \<and> page_ref (take_page i s) i = 1"
    by (simp add: page_live_def page_ref_def live_def nth_upd)
  moreover have "\<forall>j. j \<noteq> i \<longrightarrow> core_map (take_page i s) ! j = core_map s ! j" by (simp add: nth_upd)
  moreover have "kmem_ok (take_page i s)" by (rule take_page_ok [OF assms a])
  moreover have "frames (take_page i s) = frames s" by simp
  ultimately show ?thesis using k a l by blast
qed

definition kmem_demo :: kmem where
  "kmem_demo = \<lparr>npages = 3, pages_in_use = 1, pages_in_swap = 0, free_pages = 1,
     core_map = [cme_zero, \<lparr>available = 0, cuser = 0, cva = 0, cref = 2\<rparr>, cme_free],
     frames = (\<lambda>_. zero_bytes), klock = initlock ''kmem'', use_lock = True, kend = KERNBASE, rnext = 1\<rparr>"

lemma all_less_numeral3: "(\<forall>i < 3. P i) \<longleftrightarrow> P 0 \<and> P 1 \<and> P (2 :: nat)"
  by (auto simp: less_Suc_eq numeral_3_eq_3 numeral_2_eq_2)

lemma kmem_demo_ok: "kmem_ok kmem_demo"
proof -
  have "KERNBASE \<le> page_va 1" "KERNBASE \<le> page_va 2"
    by (simp_all add: page2pa_def P2V_def KERNBASE_def PT_SHIFT_def push_bit_eq_mult)
  then have "map_ok 3 KERNBASE (core_map kmem_demo)"
    unfolding map_ok_def all_less_numeral3
    by (simp add: kmem_demo_def entry_ok_def avail_def live_def cme_zero_def cme_free_def)
  then show ?thesis
    by (simp add: kmem_ok_def max_pages_def initlock_free)
      (simp add: kmem_demo_def avail_def live_def cme_zero_def cme_free_def initlock_free)
qed

theorem kalloc_correct_witness:
  "kmem_ok kmem_demo \<and> (\<exists>i s'. kalloc kmem_demo = Some (page_va i, s') \<and> page_avail kmem_demo i \<and>
     (\<forall>j < i. \<not> page_avail kmem_demo j) \<and> kmem_ok s' \<and> page_live s' i)"
proof -
  have "page_avail kmem_demo 2" by (simp add: page_avail_def kmem_demo_def avail_def cme_free_def)
  with kalloc_correct [OF kmem_demo_ok] show ?thesis using kmem_demo_ok by blast
qed


text \<open>
  C14. \<open>kfree\<close> of a page in use never panics: the last reference makes the page available and fills it with
  junk, an earlier one only lowers the count and leaves the contents to the remaining owners; no other
  page's entry changes.
\<close>

theorem kfree_correct:
  assumes ok: "kmem_ok s" and l: "page_live s i"
  shows "\<exists>s'. kfree (page_va i) s = Some s' \<and> kmem_ok s' \<and>
     (\<forall>j. j \<noteq> i \<longrightarrow> core_map s' ! j = core_map s ! j \<and> frames s' j = frames s j) \<and>
     (if page_ref s i = 1 then page_avail s' i \<and> frames s' i = Bytes (\<lambda>_. 2)
      else page_live s' i \<and> page_ref s' i = page_ref s i - 1 \<and> frames s' i = frames s i)"
proof -
  have n: "i < npages s" "i < length (core_map s)" and p: "0 < cref (core_map s ! i)"
    using l kmem_okD(3) [OF ok, of i] by (auto simp: page_live_def live_def)
  have "(\<forall>j. j \<noteq> i \<longrightarrow> core_map (drop_ref i s) ! j = core_map s ! j \<and> frames (drop_ref i s) j = frames s j)"
    by (simp add: drop_ref_def set_cme_def nth_upd)
  moreover have "if page_ref s i = 1 then page_avail (drop_ref i s) i \<and> frames (drop_ref i s) i = Bytes (\<lambda>_. 2)
      else page_live (drop_ref i s) i \<and> page_ref (drop_ref i s) i = page_ref s i - 1 \<and> frames (drop_ref i s) i = frames s i"
    using n p by (simp add: drop_ref_def set_cme_def nth_upd page_ref_def page_avail_def page_live_def avail_def live_def)
  ultimately show ?thesis using kfree_live [OF ok l] drop_ref_ok [OF ok l] by blast
qed

theorem kfree_correct_witness:
  "kmem_ok kmem_demo \<and> page_live kmem_demo 1 \<and>
   (\<exists>s'. kfree (page_va 1) kmem_demo = Some s' \<and> kmem_ok s' \<and> page_live s' 1 \<and> page_ref s' 1 = 1)"
proof -
  have l: "page_live kmem_demo 1" by (simp add: page_live_def kmem_demo_def live_def)
  have r: "page_ref kmem_demo 1 = 2" by (simp add: page_ref_def kmem_demo_def)
  show ?thesis using kfree_correct [OF kmem_demo_ok l] kmem_demo_ok l r by auto
qed

text \<open>
  C27. Freeing a page that was just allocated undoes the allocation: the core map and both counters are
  what they were.
\<close>

theorem kalloc_kfree_roundtrip:
  assumes ok: "kmem_ok s" and k: "kalloc s = Some (v, s1)" and v: "v \<noteq> 0"
  shows "\<exists>s2. kfree v s1 = Some s2 \<and> core_map s2 = core_map s \<and> free_pages s2 = free_pages s \<and>
     pages_in_use s2 = pages_in_use s"
proof (rule kalloc_cases [OF ok])
  fix i assume ki: "kalloc s = Some (page_va i, take_page i s)" and a: "page_avail s i"
  have n: "i < npages s" "i < length (core_map s)" using a kmem_okD(3) [OF ok, of i] by (auto simp: page_avail_def)
  have e: "core_map s ! i = cme_free"
    using a kmem_okD(1) [OF ok n(1)] by (cases "core_map s ! i") (simp add: page_avail_def avail_def entry_ok_def cme_free_def)
  have l: "page_live (take_page i s) i" using n by (simp add: page_live_def live_def nth_upd)
  have "(core_map s)[i := cme_free] = core_map s" using e by (metis list_update_id)
  then have "core_map (drop_ref i (take_page i s)) = core_map s" using n e
    by (simp add: drop_ref_def set_cme_def nth_upd cme_free_def)
  moreover have "free_pages (drop_ref i (take_page i s)) = free_pages s"
    "pages_in_use (drop_ref i (take_page i s)) = pages_in_use s"
    using n by (simp_all add: drop_ref_def set_cme_def nth_upd take_page_def)
  ultimately show ?thesis
    using kfree_live [OF take_page_ok [OF ok a] l] k ki by auto
qed (use k v in simp)

theorem kalloc_kfree_roundtrip_witness:
  "\<exists>v s1 s2. kmem_ok kmem_demo \<and> kalloc kmem_demo = Some (v, s1) \<and> v \<noteq> 0 \<and> kfree v s1 = Some s2 \<and>
     core_map s2 = core_map kmem_demo"
proof -
  have a: "page_avail kmem_demo 2" by (simp add: page_avail_def kmem_demo_def avail_def cme_free_def)
  obtain i where i: "kalloc kmem_demo = Some (page_va i, take_page i kmem_demo)" "page_avail kmem_demo i"
    using a by (rule_tac kalloc_cases [OF kmem_demo_ok]) auto
  then have z: "page_va i \<noteq> 0" by (intro page_va_nonzero) (simp add: page_avail_def kmem_demo_def max_pages_def)
  show ?thesis using kalloc_kfree_roundtrip [OF kmem_demo_ok i(1) z] i(1) z kmem_demo_ok by blast
qed

text \<open>
  C26. \<open>mem_init\<close> terminates at boot (for less than 2 GB of memory and a kernel whose core map fits) and leaves an
  allocator in order in which exactly the pages from the first boundary behind the kernel image and the
  core map up to the end of memory are available, none is in use, and \<open>free_pages\<close> counts them.
\<close>

theorem mem_init_correct:
  assumes b: "boot_ok s"
  shows "\<exists>s'. mem_init (kend s) s = Some s' \<and> kmem_ok s' \<and> use_lock s' \<and>
     (\<forall>i. page_avail s' i \<longleftrightarrow> first_page (kend s) (npages s) \<le> i \<and> i < npages s) \<and>
     (\<forall>i. \<not> page_live s' i) \<and> free_pages s' = int (npages s - first_page (kend s) (npages s))"
proof -
  let ?a = "first_page (kend s) (npages s)"
  have le: "?a \<le> npages s" by (rule boot_addresses [OF b refl])
  obtain s' where s': "mem_init (kend s) s = Some s'" "npages s' = npages s" "use_lock s'"
    "core_map s' = replicate ?a cme_zero @ replicate (npages s - ?a) cme_free" "free_pages s' = int (npages s - ?a)"
    using mem_init_run [OF b] by blast
  have c: "i < npages s \<Longrightarrow> core_map s' ! i = (if i < ?a then cme_zero else cme_free)" for i
    using s'(4) le by (simp add: nth_append)
  have "page_avail s' i \<longleftrightarrow> ?a \<le> i \<and> i < npages s" "\<not> page_live s' i" for i
    using c [of i] s'(2) by (auto simp: page_avail_def page_live_def avail_def live_def cme_zero_def cme_free_def split: if_splits)
  with s' mem_init_ok [OF b] show ?thesis by blast
qed

theorem mem_init_correct_witness:
  "boot_ok boot_demo \<and> (\<exists>s'. mem_init (kend boot_demo) boot_demo = Some s' \<and> kmem_ok s' \<and> free_pages s' = 506)"
  using mem_init_correct [OF boot_demo_ok] boot_demo_ok
  by (auto simp: first_page_def boot_demo_def core_map_bytes_def KERNBASE_def)

lemma neg_KERNBASE: "- KERNBASE = SZ_2G"
proof -
  have "KERNBASE + SZ_2G = 0" by (simp add: KERNBASE_def SZ_2G_def)
  then show ?thesis by (metis add.inverse_unique)
qed

text \<open>
  C38. A machine whose memory map reaches 2 GB: \<open>detect_memory\<close> finds 524288 pages, \<open>npages * PGSIZE\<close> overflows
  \<open>int\<close>, and \<open>mem_init\<close> frees no page at all, so the first \<open>kalloc\<close> fails.
\<close>

theorem mem_init_2G:
  assumes e: "eaddr e < SZ_2G" "SZ_2G \<le> eaddr e + elen e" and k: "KERNBASE \<le> kend s" "kend s < KERNBASE + 0x40000000"
  shows "npages (detect_memory [e] s) = 2 ^ 19 \<and>
     (\<exists>s'. mem_init (kend s) (detect_memory [e] s) = Some s' \<and> (\<forall>i. \<not> page_avail s' i))"
proof -
  have n: "npages (detect_memory [e] s) = 2 ^ 19" and ks: "kend (detect_memory [e] s) = kend s"
    using e by (simp_all add: detect_memory_def Let_def neg_KERNBASE max_def min_def not_le)
      (simp add: SZ_2G_def PGSIZE_def)
  have lim: "P2V (mem_limit (2 ^ 19)) = 0xFFFFFFFF00000000"
    by (simp add: mem_limit_def c_int_def P2V_def KERNBASE_def)
  have sz: "PGROUNDUP (word_of_nat (2 ^ 19) * 24) = 0xC00000"
    by (simp add: PGROUNDUP_def PGSIZE_def)
  let ?v = "kend s + 0xC00000"
  have uv: "unat ?v = unat (kend s) + 0xC00000"
    using k by (simp add: unat_word_ariths word_less_nat_alt word_le_nat_alt KERNBASE_def)
  have up: "unat KERNBASE \<le> unat (PGROUNDUP ?v) \<and> unat (PGROUNDUP ?v) < unat KERNBASE + 0x50000000"
  proof -
    let ?x = "unat (kend s) + 0xC00000 + 4095"
    have "unat (PGROUNDUP ?v) = ?x div 4096 * 4096"
      using uv k by (simp add: unat_PGROUNDUP word_less_nat_alt KERNBASE_def)
    moreover have "?x div 4096 * 4096 \<le> ?x" "?x < ?x div 4096 * 4096 + 4096"
      using div_mult_mod_eq [of ?x 4096] mod_less_divisor [of 4096 ?x] by linarith+
    moreover have "unat KERNBASE \<le> unat (kend s)" "unat (kend s) < unat KERNBASE + 0x40000000"
      using k by (simp_all add: word_less_nat_alt word_le_nat_alt KERNBASE_def)
    ultimately show ?thesis by linarith
  qed
  have "\<not> PGROUNDUP ?v + PGSIZE \<le> 0xFFFFFFFF00000000"
    using up by (simp add: word_le_nat_alt unat_word_ariths KERNBASE_def PGSIZE_def)
  then have f: "freerange ?v 0xFFFFFFFF00000000 t = Some t" for t
    by (simp add: freerange_def freerange_loop.simps [of "PGROUNDUP ?v"])
  have "\<exists>s'. mem_init (kend s) (detect_memory [e] s) = Some s' \<and> core_map s' = replicate (2 ^ 19) cme_zero \<and> npages s' = 2 ^ 19"
    unfolding mem_init_def Let_def using n lim sz f by (simp add: setrand_def)
  then show ?thesis
    using n by (auto simp: page_avail_def avail_def cme_zero_def)
qed

theorem mem_init_2G_witness:
  "npages (detect_memory [\<lparr>eaddr = 0x100000, elen = 0x7FF00000, etype = 1\<rparr>] boot_demo) = 2 ^ 19"
  using mem_init_2G [of "\<lparr>eaddr = 0x100000, elen = 0x7FF00000, etype = 1\<rparr>" boot_demo]
  by (simp add: SZ_2G_def boot_demo_def KERNBASE_def)

end
