(* ===== verification/Xk_File.thy ===== *)
theory Xk_File
  imports Xk_Dir Xk_Kalloc
begin

text \<open>
  Open files, \<open>kernel/file.c\<close>: the file table, the descriptors of the running process, opening and creating files, reading and
  writing through a descriptor, pipes, \<open>dup\<close>, \<open>stat\<close> and \<open>close\<close>. A \<open>struct file_info *\<close> is an index into \<open>file_table\<close>;
  a pipe lives in a page of its own and is looked up by the address of the page. A read from an
  empty pipe that still has writers goes to sleep; the outcome then says how much is still to be read. The channels
  passed to \<open>wakeup\<close> are collected in \<open>woken\<close>.
\<close>

section \<open>State (inc/file.h, inc/fcntl.h)\<close>


definition NFILE :: nat where "NFILE = 100"
definition NOFILE :: nat where "NOFILE = 16"

record file_info =
  f_lock :: sleeplock
  inode_ptr :: "iptr option"
  f_offset :: int
  f_mode :: int
  f_ref :: int
  is_pipe :: int
  f_pipe :: u64

record file_pipe =
  p_buffer :: "u8 list"
  p_lock :: spinlock
  offset_read :: int
  offset_write :: int
  p_reader :: int
  p_writer :: int
  p_full :: int
  p_empty :: int

datatype chan = ReaderChan u64 | WriterChan u64

record files =
  ffs :: fs
  fkm :: kmem
  file_table :: "file_info list"
  pipes :: "u64 \<Rightarrow> file_pipe option"
  fd_table :: "nat option list"
  woken :: "chan list"

definition upd_file :: "nat \<Rightarrow> (file_info \<Rightarrow> file_info) \<Rightarrow> files \<Rightarrow> files" where
  "upd_file i f s = s\<lparr>file_table := (file_table s)[i := f (file_table s ! i)]\<rparr>"

abbreviation filep :: "files \<Rightarrow> nat \<Rightarrow> file_info" where "filep s i \<equiv> file_table s ! i"

definition upd_pipe :: "u64 \<Rightarrow> file_pipe \<Rightarrow> files \<Rightarrow> files" where
  "upd_pipe a pp s = s\<lparr>pipes := (pipes s)(a \<mapsto> pp)\<rparr>"

definition lock_file :: "int \<Rightarrow> nat \<Rightarrow> files \<Rightarrow> files option" where
  "lock_file p i s = do { l \<leftarrow> acquiresleep p (f_lock (filep s i)); Some (upd_file i (f_lock_update (\<lambda>_. l)) s) }"

definition unlock_file :: "nat \<Rightarrow> files \<Rightarrow> files option" where
  "unlock_file i s = do { l \<leftarrow> releasesleep (f_lock (filep s i)); Some (upd_file i (f_lock_update (\<lambda>_. l)) s) }"

text \<open>The entry of a descriptor; \<open>fd\<close> has been checked against \<open>NOFILE\<close> by the caller.\<close>

definition fd_entry :: "nat \<Rightarrow> files \<Rightarrow> nat option option" where
  "fd_entry fd s = (if fd < length (fd_table s) then Some (fd_table s ! fd) else None)"

section \<open>Opening and creating\<close>

definition find_free_fd :: "nat \<Rightarrow> files \<Rightarrow> int \<times> files" where
  "find_free_fd i s = (case for_first (\<lambda>j. fd_table s ! j = None) 0 NOFILE of
      None \<Rightarrow> (-1, s)
    | Some j \<Rightarrow> (int j, s\<lparr>fd_table := (fd_table s)[j := Some i]\<rparr>))"

text \<open>
  The inner loop of \<open>createi\<close> over the offsets of the root directory: it writes the entry into the first unused slot, or
  at the end. \<open>de\<close> holds the initialised bytes of the local \<open>struct dirent\<close>; what is still uninitialised when a new entry is
  written lies behind the NUL of the name and is written as 0. A name of \<open>DIRSIZ\<close> bytes or
  more writes its NUL behind the struct and does not return.
\<close>

fun create_entry :: "int \<Rightarrow> devsw \<Rightarrow> u8 list \<Rightarrow> u32 \<Rightarrow> nat list \<Rightarrow> u8 list \<Rightarrow> fs \<Rightarrow> fs option" where
  "create_entry p dv path inum [] de s = Some s"
| "create_entry p dv path inum (off # offs) de s = do {
     let dsz = unat (i_size (inodep s (Cached 0)));
     (de, s) \<leftarrow> (if off \<noteq> dsz then do {
                    (r, bytes, s) \<leftarrow> readi p dv (Cached 0) (word_of_nat off) (word_of_nat sizeof_dirent) s;
                    Some (bytes @ drop (length bytes) de, s) }
                  else Some (de @ replicate (sizeof_dirent - length de) 0, s));
     (if length de < sizeof_dirent then None
      else if de_inum (dec_dirent de) = 0 \<or> off = dsz then
        (if length path \<ge> DIRSIZ then None
         else do {
           let d = \<lparr>de_inum = ucast inum, de_name = put_at (de_name (dec_dirent de)) 0 (path @ [0])\<rparr>;
           (r, s) \<leftarrow> writei p dv (Cached 0) (enc_dirent d) (word_of_nat off) s;
           Some s })
      else create_entry p dv path inum offs de s) }"

definition create_offs :: "u32 \<Rightarrow> nat list" where
  "create_offs sz = map (\<lambda>k. k * sizeof_dirent) [0..<unat sz div sizeof_dirent + 1]"

definition dinode_new :: dinode where
  "dinode_new = \<lparr>d_type = T_FILE, d_devid = int (unat ROOTDEV), d_size = 0,
     d_data = replicate MAXEXTENT \<lparr>startblkno = 0, nblocks = 0\<rparr>, d_pad = replicate 8 0\<rparr>"

text \<open>
  The outer loop of \<open>createi\<close> over the inode numbers: the first disk inode that is unused, or the one behind
  the end of the inode file, becomes an empty file.
\<close>

fun create_inode :: "int \<Rightarrow> devsw \<Rightarrow> u8 list \<Rightarrow> nat list \<Rightarrow> u8 list \<Rightarrow> fs \<Rightarrow> fs option" where
  "create_inode p dv path [] di s = Some s"
| "create_inode p dv path (inum # inums) di s = do {
     let isz = unat (i_size (ic_inodefile s));
     (di, s) \<leftarrow> (if inum * sizeof_dinode \<noteq> isz then do {
                    (r, bytes, s) \<leftarrow> readi p dv InodeFile (INODEOFF (word_of_nat inum)) (word_of_nat sizeof_dinode) s;
                    Some (bytes @ drop (length bytes) di, s) }
                  else Some (di @ replicate (sizeof_dinode - length di) 0, s));
     (if length di < sizeof_dinode then None
      else if (d_size (dec_dinode di) = 0 \<and> d_type (dec_dinode di) = 0) \<or> inum * sizeof_dinode = isz then do {
        (r, s) \<leftarrow> writei p dv InodeFile (enc_dinode dinode_new) (INODEOFF (word_of_nat inum)) s;
        create_entry p dv path (word_of_nat inum) (create_offs (i_size (inodep s (Cached 0)))) [] s }
      else create_inode p dv path inums di s) }"

definition createi :: "int \<Rightarrow> devsw \<Rightarrow> u8 list \<Rightarrow> fs \<Rightarrow> fs option" where
  "createi p dv path s = do {
     (r, s) \<leftarrow> namei p dv path s;
     (case r of
        Some ip \<Rightarrow> Some (upd_inode ip (i_ref_update (\<lambda>r. c_int (r - 1))) s)
      | None \<Rightarrow> do {
          s \<leftarrow> locki p dv InodeFile s;
          s \<leftarrow> locki p dv (Cached 0) s;
          s \<leftarrow> create_inode p dv path [2..<unat (i_size (ic_inodefile s)) div sizeof_dinode + 1] [] s;
          s \<leftarrow> unlocki p InodeFile s;
          unlocki p (Cached 0) s }) }"

text \<open>
  The scan of the file table in \<open>fileopen\<close>. Every entry that is passed over has its lock released, held or not.
  The result is the descriptor, \<open>None\<close> when the table is full.
\<close>

definition file_unused :: "file_info \<Rightarrow> bool" where
  "file_unused f \<longleftrightarrow> inode_ptr f = None \<and> f_mode f = 0 \<and> f_offset f = 0 \<and> f_ref f = 0"

fun open_scan :: "int \<Rightarrow> iptr \<Rightarrow> int \<Rightarrow> nat list \<Rightarrow> files \<Rightarrow> (int option \<times> files) option" where
  "open_scan p ip mode [] s = Some (None, s)"
| "open_scan p ip mode (i # is) s =
     (if file_unused (filep s i) then do {
        let s = upd_file i (f_lock_update (\<lambda>_. initsleeplock ''file'')) s;
        s \<leftarrow> lock_file p i s;
        let s = upd_file i (\<lambda>f. f\<lparr>inode_ptr := Some ip, f_mode := mode, f_offset := 0, f_ref := 1\<rparr>) s;
        let (fd, s) = find_free_fd i s;
        s \<leftarrow> unlock_file i s;
        Some (Some fd, s) }
      else do {
        s \<leftarrow> unlock_file i s;
        open_scan p ip mode is s })"

text \<open>
  \<open>fileopen\<close>. A path longer than \<open>DIRSIZ\<close> is cut to an array that has no room for a NUL, so the
  string goes on with what follows the array on the stack, the parameter \<open>behind\<close>.
\<close>

definition open_path :: "u8 list \<Rightarrow> u8 list \<Rightarrow> u8 list" where
  "open_path behind path = (if length path > DIRSIZ then take DIRSIZ path @ behind else path)"

definition fileopen :: "int \<Rightarrow> devsw \<Rightarrow> u8 list \<Rightarrow> u8 list \<Rightarrow> int \<Rightarrow> files \<Rightarrow> (int \<times> files) option" where
  "fileopen p dv behind path mode s = do {
     let path = open_path behind path;
     let create = (mode = O_CREATE + O_RDONLY \<or> mode = O_CREATE + O_RDWR \<or> mode = O_CREATE + O_WRONLY);
     let mode = (if create then mode - O_CREATE else mode);
     f \<leftarrow> (if create then createi p dv path (ffs s) else Some (ffs s));
     (r, f) \<leftarrow> namei p dv path f;
     let s = s\<lparr>ffs := f\<rparr>;
     (case r of
        None \<Rightarrow> Some (-1, s)
      | Some ip \<Rightarrow> do {
          f \<leftarrow> locki p dv ip (ffs s);
          let s = s\<lparr>ffs := f\<rparr>;
          (if i_type (inodep (ffs s) ip) \<noteq> T_DEV \<and> mode \<noteq> O_RDONLY \<and> mode \<noteq> O_RDWR \<and> mode \<noteq> O_WRONLY then do {
             f \<leftarrow> unlocki p ip (ffs s);
             Some (-1, s\<lparr>ffs := f\<rparr>) }
           else do {
             (fd, s) \<leftarrow> open_scan p ip mode [0..<NFILE] s;
             f \<leftarrow> unlocki p ip (ffs s);
             Some (case fd of None \<Rightarrow> -1 | Some fd \<Rightarrow> fd, s\<lparr>ffs := f\<rparr>) }) }) }"

section \<open>Pipes\<close>

definition PIPESIZE :: int where "PIPESIZE = 3500"

text \<open>The remainder of C, with the sign of the dividend.\<close>

definition c_rem :: "int \<Rightarrow> int \<Rightarrow> int" where
  "c_rem a b = (if a < 0 then - ((- a) mod b) else a mod b)"

text \<open>
  The loop of \<open>fileread\<close> on a pipe with \<open>n\<close> bytes to go. It ends with the bytes it delivered and, when it goes to sleep
  on an empty pipe with writers left, the number of bytes still to be read.
\<close>

datatype read_out = Returned int "u8 list" | Sleeping "u8 list" nat

fun pipe_read_loop :: "nat \<Rightarrow> file_pipe \<Rightarrow> (u8 list \<times> nat option \<times> file_pipe) option" where
  "pipe_read_loop 0 pp = Some ([], None, pp)"
| "pipe_read_loop (Suc n) pp =
     (if offset_write pp - offset_read pp = 0 then
        (if p_writer pp = 0 then Some ([], None, pp) else Some ([], Some (Suc n), pp))
      else
        let i = c_rem (offset_read pp) PIPESIZE in
        if i < 0 then None
        else do {
          (bs, r, pp') \<leftarrow> pipe_read_loop n (pp\<lparr>offset_read := c_int (offset_read pp + 1)\<rparr>);
          Some (p_buffer pp ! nat i # bs, r, pp') })"

text \<open>What a reader does from the moment it has the pipe to itself: the lock is free again when it returns or sleeps.\<close>

definition pipe_read :: "u64 \<Rightarrow> nat \<Rightarrow> files \<Rightarrow> (read_out \<times> files) option" where
  "pipe_read a n s = (case pipes s a of None \<Rightarrow> None | Some pp \<Rightarrow> do {
     l \<leftarrow> acquire_lk (p_lock pp);
     (bs, r, pp) \<leftarrow> pipe_read_loop n (pp\<lparr>p_lock := l\<rparr>);
     l \<leftarrow> release_lk (p_lock pp);
     let s = upd_pipe a (pp\<lparr>p_lock := l\<rparr>) s;
     (case r of
        None \<Rightarrow> Some (Returned (int (length bs)) bs, s)
      | Some k \<Rightarrow> Some (Sleeping bs k, s\<lparr>woken := woken s @ [WriterChan a]\<rparr>)) })"

text \<open>
  The loop of \<open>filewrite\<close> on a pipe. \<open>to_write\<close>, the space left, is computed from the two remainders; when it is 0 the writer
  would sleep with the rest still to be written. \<open>None\<close> as return value means it got through.
\<close>

definition to_write :: "file_pipe \<Rightarrow> int" where
  "to_write pp = PIPESIZE - c_rem (offset_write pp) PIPESIZE + c_rem (offset_read pp) PIPESIZE"

fun pipe_write_loop :: "u8 list \<Rightarrow> file_pipe \<Rightarrow> (int option \<times> u8 list \<times> file_pipe) option" where
  "pipe_write_loop [] pp = Some (None, [], pp)"
| "pipe_write_loop (c # cs) pp =
     (if to_write pp = 0 \<and> p_reader pp \<noteq> 0 then Some (None, c # cs, pp)
      else if p_reader pp = 0 then Some (Some (-1), c # cs, pp)
      else
        let i = c_rem (offset_write pp) PIPESIZE in
        if i < 0 then None
        else pipe_write_loop cs (pp\<lparr>p_buffer := (p_buffer pp)[nat i := c], offset_write := c_int (offset_write pp + 1)\<rparr>))"

text \<open>The result is the return value, or how many bytes are left when the writer sleeps (\<open>Inr\<close>).\<close>

definition pipe_write :: "u64 \<Rightarrow> u8 list \<Rightarrow> files \<Rightarrow> ((int + nat) \<times> files) option" where
  "pipe_write a bs s = (case pipes s a of None \<Rightarrow> None | Some pp \<Rightarrow> do {
     l \<leftarrow> acquire_lk (p_lock pp);
     (r, rest, pp) \<leftarrow> pipe_write_loop bs (pp\<lparr>p_lock := l\<rparr>);
     l \<leftarrow> release_lk (p_lock pp);
     let s = upd_pipe a (pp\<lparr>p_lock := l\<rparr>) s;
     (case r of
        Some v \<Rightarrow> Some (Inl v, s)
      | None \<Rightarrow> if rest = [] then Some (Inl (int (length bs)), s)
                else Some (Inr (length rest), s\<lparr>woken := woken s @ [ReaderChan a]\<rparr>)) })"

section \<open>Reading and writing through a descriptor\<close>

definition fileread :: "int \<Rightarrow> devsw \<Rightarrow> nat \<Rightarrow> int \<Rightarrow> files \<Rightarrow> (read_out \<times> files) option" where
  "fileread p dv fd n s = do {
     e \<leftarrow> fd_entry fd s;
     (case e of
        None \<Rightarrow> Some (Returned (-1) [], s)
      | Some i \<Rightarrow>
          if f_mode (filep s i) = O_WRONLY then Some (Returned (-1) [], s)
          else if is_pipe (filep s i) = 1 then pipe_read (f_pipe (filep s i)) (nat n) s
          else do {
            s \<leftarrow> lock_file p i s;
            (case inode_ptr (filep s i) of
               None \<Rightarrow> do { s \<leftarrow> unlock_file i s; Some (Returned (-1) [], s) }
             | Some ip \<Rightarrow> do {
                 (r, bytes, f) \<leftarrow> concurrent_readi p dv ip (word_of_int (f_offset (filep s i))) (word_of_int n) (ffs s);
                 let s = s\<lparr>ffs := f\<rparr>;
                 let s = upd_file i (f_offset_update (\<lambda>k. c_int (k + r))) s;
                 s \<leftarrow> unlock_file i s;
                 Some (Returned r bytes, s) }) }) }"

definition filewrite :: "int \<Rightarrow> devsw \<Rightarrow> u8 list \<Rightarrow> nat \<Rightarrow> files \<Rightarrow> ((int + nat) \<times> files) option" where
  "filewrite p dv src fd s = do {
     e \<leftarrow> fd_entry fd s;
     (case e of
        None \<Rightarrow> Some (Inl (-1), s)
      | Some i \<Rightarrow>
          if f_mode (filep s i) = O_RDONLY then Some (Inl (-1), s)
          else if is_pipe (filep s i) = 1 then pipe_write (f_pipe (filep s i)) src s
          else do {
            s \<leftarrow> lock_file p i s;
            (case inode_ptr (filep s i) of
               None \<Rightarrow> do { s \<leftarrow> unlock_file i s; Some (Inl (-1), s) }
             | Some ip \<Rightarrow> do {
                 (r, f) \<leftarrow> concurrent_writei p dv ip src (word_of_int (f_offset (filep s i))) (ffs s);
                 let s = s\<lparr>ffs := f\<rparr>;
                 let s = upd_file i (f_offset_update (\<lambda>k. c_int (k + r))) s;
                 s \<leftarrow> unlock_file i s;
                 Some (Inl r, s) }) }) }"

section \<open>Closing, duplicating, stat\<close>

text \<open>
  The part of \<open>fileclose\<close> and of \<open>filedup\<close> that copies the reference count of the file into the pipe's count of readers or
  writers.
\<close>

definition count_end :: "file_info \<Rightarrow> file_pipe \<Rightarrow> file_pipe" where
  "count_end f pp = (if f_mode f = O_WRONLY then pp\<lparr>p_writer := f_ref f\<rparr> else pp\<lparr>p_reader := f_ref f\<rparr>)"

definition close_pipe :: "nat \<Rightarrow> files \<Rightarrow> files option" where
  "close_pipe i s = (case pipes s (f_pipe (filep s i)) of None \<Rightarrow> None | Some pp \<Rightarrow> do {
     let a = f_pipe (filep s i);
     l \<leftarrow> acquire_lk (p_lock pp);
     let pp = count_end (filep s i) (pp\<lparr>p_lock := l\<rparr>);
     l \<leftarrow> release_lk (p_lock pp);
     (if p_reader pp = 0 \<and> p_writer pp = 0 then do {
        k \<leftarrow> kfree a (fkm s);
        let s = s\<lparr>fkm := k, pipes := (pipes s)(a := None)\<rparr>;
        Some (upd_file i (f_pipe_update (\<lambda>_. 0)) s) }
      else do {
        let s = (if p_writer pp = 0 then s\<lparr>woken := woken s @ [ReaderChan a]\<rparr> else s);
        let s = (if p_reader pp = 0 then s\<lparr>woken := woken s @ [WriterChan a]\<rparr> else s);
        Some (upd_pipe a (pp\<lparr>p_lock := l\<rparr>) s) }) })"

definition fileclose :: "int \<Rightarrow> nat \<Rightarrow> files \<Rightarrow> (int \<times> files) option" where
  "fileclose p fd s = do {
     e \<leftarrow> fd_entry fd s;
     (case e of
        None \<Rightarrow> Some (-1, s)
      | Some i \<Rightarrow>
          if f_ref (filep s i) = 0 then Some (-1, s)
          else do {
            s \<leftarrow> lock_file p i s;
            let s = upd_file i (f_ref_update (\<lambda>r. c_int (r - 1))) s;
            s \<leftarrow> (if is_pipe (filep s i) = 1 then close_pipe i s else Some s);
            s \<leftarrow> (if f_ref (filep s i) \<le> 0 then do {
                    s \<leftarrow> (if is_pipe (filep s i) \<noteq> 1 then
                            (case inode_ptr (filep s i) of None \<Rightarrow> None | Some ip \<Rightarrow> do {
                               f \<leftarrow> irelease ip (ffs s);
                               Some (s\<lparr>ffs := f\<rparr>) })
                          else Some (upd_file i (\<lambda>f. f\<lparr>f_pipe := 0, is_pipe := 0\<rparr>) s));
                    Some (upd_file i (\<lambda>f. f\<lparr>inode_ptr := None, f_mode := 0, f_offset := 0\<rparr>) s) }
                  else Some s);
            s \<leftarrow> unlock_file i s;
            Some (0, s\<lparr>fd_table := (fd_table s)[fd := None]\<rparr>) }) }"

definition filedup :: "int \<Rightarrow> nat \<Rightarrow> files \<Rightarrow> (int \<times> files) option" where
  "filedup p fd s = do {
     e \<leftarrow> fd_entry fd s;
     (case e of
        None \<Rightarrow> Some (-1, s)
      | Some k \<Rightarrow> do {
          s \<leftarrow> lock_file p k s;
          (ret, s) \<leftarrow> (case for_first (\<lambda>i. fd_table s ! i = None) 0 NOFILE of
             None \<Rightarrow> Some (-1, s)
           | Some i \<Rightarrow> do {
               let s = s\<lparr>fd_table := (fd_table s)[i := Some k]\<rparr>;
               let s = upd_file k (f_ref_update (\<lambda>r. c_int (r + 1))) s;
               s \<leftarrow> (if is_pipe (filep s k) = 1 then
                       (case pipes s (f_pipe (filep s k)) of None \<Rightarrow> None | Some pp \<Rightarrow> do {
                          l \<leftarrow> acquire_lk (p_lock pp);
                          let pp = count_end (filep s k) (pp\<lparr>p_lock := l\<rparr>);
                          l \<leftarrow> release_lk (p_lock pp);
                          Some (upd_pipe (f_pipe (filep s k)) (pp\<lparr>p_lock := l\<rparr>) s) })
                     else Some s);
               Some (int i, s) });
          s \<leftarrow> unlock_file k s;
          Some (ret, s) }) }"

text \<open>\<open>filestat\<close> reads the \<open>inode_ptr\<close> of the file before it checks the pointer for null.\<close>

definition filestat :: "int \<Rightarrow> devsw \<Rightarrow> nat \<Rightarrow> files \<Rightarrow> (int \<times> stat option \<times> files) option" where
  "filestat p dv fd s = do {
     e \<leftarrow> fd_entry fd s;
     (case e of
        None \<Rightarrow> None
      | Some i \<Rightarrow>
          (case inode_ptr (filep s i) of
             None \<Rightarrow> Some (-1, None, s)
           | Some ip \<Rightarrow> do {
               s \<leftarrow> lock_file p i s;
               (st, f) \<leftarrow> concurrent_stati p dv ip (ffs s);
               let s = s\<lparr>ffs := f\<rparr>;
               s \<leftarrow> unlock_file i s;
               Some (0, Some st, s) })) }"

section \<open>Creating a pipe\<close>

text \<open>The first two free descriptors; the first two unreferenced entries of the file table, each locked when it is found.\<close>

definition two_fds :: "files \<Rightarrow> nat list" where
  "two_fds s = take 2 (filter (\<lambda>i. fd_table s ! i = None) [0..<NOFILE])"

fun pipe_scan :: "int \<Rightarrow> nat list \<Rightarrow> nat option \<Rightarrow> files \<Rightarrow> (nat option \<times> nat option \<times> files) option" where
  "pipe_scan p [] rd s = Some (rd, None, s)"
| "pipe_scan p (i # is) rd s =
     (if f_ref (filep s i) = 0 then do {
        s \<leftarrow> lock_file p i s;
        (case rd of None \<Rightarrow> pipe_scan p is (Some i) s | Some r \<Rightarrow> Some (Some r, Some i, s)) }
      else pipe_scan p is rd s)"

definition pipe_new :: "u8 list \<Rightarrow> file_pipe" where
  "pipe_new junk = \<lparr>p_buffer = junk, p_lock = initlock ''pipe'', offset_read = 0, offset_write = 0, p_reader = 1, p_writer = 1,
     p_full = 0, p_empty = 1\<rparr>"

definition pipe_end :: "int \<Rightarrow> u64 \<Rightarrow> file_info \<Rightarrow> file_info" where
  "pipe_end mode a f = f\<lparr>is_pipe := 1, f_mode := mode, f_ref := 1, f_pipe := a\<rparr>"

text \<open>
  \<open>filepipe\<close>: the return value and the descriptors stored through \<open>fds\<close>. The buffer of a fresh pipe has the contents of the
  page \<open>kalloc\<close> returned, the parameter \<open>junk\<close>.
\<close>

definition filepipe :: "int \<Rightarrow> u8 list \<Rightarrow> files \<Rightarrow> (int \<times> nat list \<times> files) option" where
  "filepipe p junk s = do {
     let fds = two_fds s;
     (if length fds \<le> 1 then Some (-1, fds, s)
      else do {
        (rd, wr, s) \<leftarrow> pipe_scan p [0..<NFILE] None s;
        (case (rd, wr) of
           (Some r, Some w) \<Rightarrow> do {
             (a, k) \<leftarrow> kalloc (fkm s);
             let s = s\<lparr>fkm := k\<rparr>;
             (if a = 0 then do {
                s \<leftarrow> unlock_file r s;
                s \<leftarrow> unlock_file w s;
                Some (-1, fds, s) }
              else do {
                let s = upd_pipe a (pipe_new junk) s;
                let s = s\<lparr>fd_table := (fd_table s)[fds ! 0 := Some r]\<rparr>;
                let s = upd_file r (pipe_end O_RDONLY a) s;
                let s = s\<lparr>fd_table := (fd_table s)[fds ! 1 := Some w]\<rparr>;
                let s = upd_file w (pipe_end O_WRONLY a) s;
                s \<leftarrow> unlock_file r s;
                s \<leftarrow> unlock_file w s;
                Some (0, fds, s) }) }
         | (Some r, None) \<Rightarrow> do { s \<leftarrow> unlock_file r s; Some (-1, fds, s) }
         | _ \<Rightarrow> Some (-1, fds, s)) }) }"

section \<open>A pipe is a queue while no more than its size is unread\<close>

text \<open>
  The abstract pipe is the queue of the bytes that are written and not yet read. The concrete one stands for it as long as
  the offsets are in range and at most \<open>PIPESIZE\<close> bytes are unread.
\<close>

definition pipe_ok :: "file_pipe \<Rightarrow> bool" where
  "pipe_ok pp \<longleftrightarrow> length (p_buffer pp) = nat PIPESIZE \<and> 0 \<le> offset_read pp \<and> offset_read pp \<le> offset_write pp \<and>
     offset_write pp - offset_read pp \<le> PIPESIZE"

definition unread :: "file_pipe \<Rightarrow> u8 list" where
  "unread pp = map (\<lambda>k. p_buffer pp ! nat ((offset_read pp + int k) mod PIPESIZE)) [0..<nat (offset_write pp - offset_read pp)]"

lemma unread_read:
  assumes "pipe_ok pp" "offset_read pp \<noteq> offset_write pp"
  shows "unread pp = p_buffer pp ! nat (offset_read pp mod PIPESIZE) # unread (pp\<lparr>offset_read := offset_read pp + 1\<rparr>)"
    and "pipe_ok (pp\<lparr>offset_read := offset_read pp + 1\<rparr>)"
proof -
  have "nat (offset_write pp - offset_read pp) = Suc (nat (offset_write pp - (offset_read pp + 1)))"
    using assms unfolding pipe_ok_def by linarith
  then show "unread pp = p_buffer pp ! nat (offset_read pp mod PIPESIZE) # unread (pp\<lparr>offset_read := offset_read pp + 1\<rparr>)"
    by (simp add: unread_def upt_conv_Cons map_Suc_upt [symmetric] add.assoc del: upt_Suc)
  show "pipe_ok (pp\<lparr>offset_read := offset_read pp + 1\<rparr>)" using assms by (auto simp: pipe_ok_def)
qed

definition push_byte :: "u8 \<Rightarrow> file_pipe \<Rightarrow> file_pipe" where
  "push_byte c pp = pp\<lparr>p_buffer := (p_buffer pp)[nat (offset_write pp mod PIPESIZE) := c], offset_write := offset_write pp + 1\<rparr>"

lemma slot_neq:
  assumes "a < b" "b - a < PIPESIZE"
  shows "nat (a mod PIPESIZE) \<noteq> nat (b mod PIPESIZE)"
proof
  assume "nat (a mod PIPESIZE) = nat (b mod PIPESIZE)"
  then have "a mod PIPESIZE = b mod PIPESIZE"
    using pos_mod_sign [of PIPESIZE a] pos_mod_sign [of PIPESIZE b] by (simp add: PIPESIZE_def)
  then have "PIPESIZE dvd b - a" by (metis mod_eq_dvd_iff)
  then show False using assms zdvd_imp_le [of PIPESIZE "b - a"] by simp
qed

lemma unread_write:
  assumes ok: "pipe_ok pp" and room: "offset_write pp - offset_read pp < PIPESIZE"
  shows "unread (push_byte c pp) = unread pp @ [c]" and "pipe_ok (push_byte c pp)"
proof -
  let ?n = "nat (offset_write pp - offset_read pp)" and ?w = "nat (offset_write pp mod PIPESIZE)"
  have P: "0 < PIPESIZE" by (simp add: PIPESIZE_def)
  have w: "?w < length (p_buffer pp)" using ok P by (simp add: pipe_ok_def nat_less_iff)
  have ne: "nat ((offset_read pp + int k) mod PIPESIZE) \<noteq> ?w" if "k < ?n" for k
    by (rule slot_neq) (use that room ok in \<open>auto simp: pipe_ok_def\<close>)
  have n: "nat (offset_write pp + 1 - offset_read pp) = Suc ?n" using ok unfolding pipe_ok_def by linarith
  have e: "offset_read pp + int ?n = offset_write pp" using ok by (simp add: pipe_ok_def)
  show "unread (push_byte c pp) = unread pp @ [c]"
    unfolding push_byte_def unread_def using w ok
    by (auto simp: n pipe_ok_def intro!: nth_list_update_neq dest: ne [THEN not_sym])
  show "pipe_ok (push_byte c pp)" using ok room by (auto simp: push_byte_def pipe_ok_def)
qed

lemma c_rem_nonneg: "0 \<le> a \<Longrightarrow> c_rem a PIPESIZE = a mod PIPESIZE" "0 \<le> a \<Longrightarrow> \<not> c_rem a PIPESIZE < 0"
  using pos_mod_sign [of PIPESIZE a] by (simp_all add: c_rem_def PIPESIZE_def)

lemma to_write_pos: "0 \<le> offset_write pp \<Longrightarrow> 0 \<le> offset_read pp \<Longrightarrow> 0 < to_write pp"
  using pos_mod_bound [of PIPESIZE "offset_write pp"] pos_mod_sign [of PIPESIZE "offset_read pp"]
  by (simp add: to_write_def c_rem_nonneg) (simp add: PIPESIZE_def)

lemma length_unread: "pipe_ok pp \<Longrightarrow> int (length (unread pp)) = offset_write pp - offset_read pp"
  by (simp add: unread_def pipe_ok_def)

lemma pipe_write_byte:
  assumes "0 \<le> offset_write pp" "0 \<le> offset_read pp" "p_reader pp \<noteq> 0" "offset_write pp + 1 < 2 ^ 31"
  shows "pipe_write_loop (c # cs) pp = pipe_write_loop cs (push_byte c pp)"
  using to_write_pos [OF assms(1,2)] assms c_rem_nonneg(2) [OF assms(1)] by (simp add: c_rem_nonneg(1) push_byte_def Let_def)

lemma push_byte_fields [simp]: "offset_write (push_byte c pp) = offset_write pp + 1" "offset_read (push_byte c pp) = offset_read pp"
  "p_reader (push_byte c pp) = p_reader pp" "p_writer (push_byte c pp) = p_writer pp" "p_lock (push_byte c pp) = p_lock pp"
  "p_buffer (push_byte c pp) = (p_buffer pp)[nat (offset_write pp mod PIPESIZE) := c]"
  by (simp_all add: push_byte_def)

text \<open>The loop of a writer stores every byte, whatever is unread.\<close>

lemma pipe_write_loop_fold:
  assumes "0 \<le> offset_write pp" "0 \<le> offset_read pp" "p_reader pp \<noteq> 0" "offset_write pp + int (length bs) < 2 ^ 31"
  shows "pipe_write_loop bs pp = Some (None, [], fold push_byte bs pp)"
  using assms
proof (induction bs arbitrary: pp)
  case (Cons c cs)
  have "pipe_write_loop (c # cs) pp = pipe_write_loop cs (push_byte c pp)"
    by (rule pipe_write_byte) (use Cons.prems in auto)
  then show ?case using Cons.IH [of "push_byte c pp"] Cons.prems by auto
qed simp

lemma fold_push_fields [simp]:
  "offset_write (fold push_byte bs pp) = offset_write pp + int (length bs)" "offset_read (fold push_byte bs pp) = offset_read pp"
  "p_reader (fold push_byte bs pp) = p_reader pp" "p_writer (fold push_byte bs pp) = p_writer pp"
  "p_lock (fold push_byte bs pp) = p_lock pp" "length (p_buffer (fold push_byte bs pp)) = length (p_buffer pp)"
  by (induction bs arbitrary: pp) simp_all

lemma push_byte_lock: "push_byte c (pp\<lparr>p_lock := l\<rparr>) = (push_byte c pp)\<lparr>p_lock := l\<rparr>"
  by (simp add: push_byte_def)

lemma fold_push_lock: "(fold push_byte bs (pp\<lparr>p_lock := l\<rparr>))\<lparr>p_lock := l'\<rparr> = (fold push_byte bs pp)\<lparr>p_lock := l'\<rparr>"
  by (induction bs arbitrary: pp) (simp_all add: push_byte_lock)

lemma unread_fold:
  assumes "pipe_ok pp" "int (length (unread pp) + length bs) \<le> PIPESIZE"
  shows "unread (fold push_byte bs pp) = unread pp @ bs \<and> pipe_ok (fold push_byte bs pp)"
  using assms
proof (induction bs arbitrary: pp)
  case (Cons c cs)
  have "offset_write pp - offset_read pp < PIPESIZE" using Cons.prems length_unread [of pp] by simp
  from unread_write [OF Cons.prems(1) this, of c] show ?case using Cons.IH [of "push_byte c pp"] Cons.prems(2) by simp
qed simp



lemma pipe_read_loop_ok:
  assumes "pipe_ok pp" "offset_write pp < 2 ^ 31"
  shows "\<exists>pp'. pipe_read_loop n pp = Some (take n (unread pp),
      if n \<le> length (unread pp) \<or> p_writer pp = 0 then None else Some (n - length (unread pp)), pp') \<and>
    pipe_ok pp' \<and> unread pp' = drop n (unread pp) \<and> offset_write pp' = offset_write pp \<and>
    p_reader pp' = p_reader pp \<and> p_writer pp' = p_writer pp \<and> p_lock pp' = p_lock pp"
  using assms
proof (induction n arbitrary: pp)
  case (Suc n)
  show ?case
  proof (cases "offset_read pp = offset_write pp")
    case True
    then have "unread pp = []" by (simp add: unread_def)
    then show ?thesis using True Suc.prems by auto
  next
    case False
    let ?q = "pp\<lparr>offset_read := offset_read pp + 1\<rparr>"
    note u = unread_read [OF Suc.prems(1) False]
    have c: "c_int (offset_read pp + 1) = offset_read pp + 1"
      using Suc.prems False by (intro c_int_id) (auto simp: pipe_ok_def)
    have "\<exists>pp'. pipe_read_loop n ?q = Some (take n (unread ?q),
        if n \<le> length (unread ?q) \<or> p_writer ?q = 0 then None else Some (n - length (unread ?q)), pp') \<and>
      pipe_ok pp' \<and> unread pp' = drop n (unread ?q) \<and> offset_write pp' = offset_write ?q \<and>
      p_reader pp' = p_reader ?q \<and> p_writer pp' = p_writer ?q \<and> p_lock pp' = p_lock ?q"
      by (rule Suc.IH) (use u(2) Suc.prems(2) in simp_all)
    then show ?thesis
      using False c Suc.prems(1) c_rem_nonneg [of "offset_read pp"] by (auto simp: u(1) pipe_ok_def Let_def)
  qed
qed (auto simp: pipe_ok_def)

section \<open>First in, first out\<close>

text \<open>
  The contract of a byte channel: \<open>put\<close> appends to the queue while there is room, \<open>get\<close> takes from its front what is
  there, up to the number asked for. Over any sequence of operations what comes out is what went in.
\<close>

datatype chan_op = Put "u8 list" | Get nat

fun run_ops :: "(u8 list \<Rightarrow> 's \<Rightarrow> 's option) \<Rightarrow> (nat \<Rightarrow> 's \<Rightarrow> (u8 list \<times> 's) option) \<Rightarrow> chan_op list \<Rightarrow> 's \<Rightarrow> (u8 list \<times> 's) option" where
  "run_ops put get [] s = Some ([], s)"
| "run_ops put get (Put bs # ops) s = do { s \<leftarrow> put bs s; run_ops put get ops s }"
| "run_ops put get (Get n # ops) s = do { (xs, s) \<leftarrow> get n s; (ys, s) \<leftarrow> run_ops put get ops s; Some (xs @ ys, s) }"

fun written :: "chan_op list \<Rightarrow> u8 list" where
  "written [] = []"
| "written (Put bs # ops) = bs @ written ops"
| "written (Get n # ops) = written ops"

text \<open>No write of the sequence finds fewer than its length in free places; \<open>k\<close> bytes are queued now.\<close>

fun no_overrun :: "nat \<Rightarrow> nat \<Rightarrow> chan_op list \<Rightarrow> bool" where
  "no_overrun cap k [] \<longleftrightarrow> True"
| "no_overrun cap k (Put bs # ops) \<longleftrightarrow> k + length bs \<le> cap \<and> no_overrun cap (k + length bs) ops"
| "no_overrun cap k (Get n # ops) \<longleftrightarrow> no_overrun cap (k - n) ops"

locale byte_channel =
  fixes put :: "u8 list \<Rightarrow> 's \<Rightarrow> 's option"
    and get :: "nat \<Rightarrow> 's \<Rightarrow> (u8 list \<times> 's) option"
    and queue :: "'s \<Rightarrow> u8 list"
    and ready :: "nat \<Rightarrow> 's \<Rightarrow> bool"
    and cap :: nat
  assumes put_ok: "ready (length bs + m) s \<Longrightarrow> length (queue s) + length bs \<le> cap \<Longrightarrow>
      \<exists>s'. put bs s = Some s' \<and> ready m s' \<and> queue s' = queue s @ bs"
    and get_ok: "ready m s \<Longrightarrow> \<exists>s'. get n s = Some (take n (queue s), s') \<and> ready m s' \<and> queue s' = drop n (queue s)"
begin

lemma run_fifo:
  assumes "ready (length (written ops)) s" "no_overrun cap (length (queue s)) ops"
  shows "\<exists>out s'. run_ops put get ops s = Some (out, s') \<and> out @ queue s' = queue s @ written ops"
  using assms
proof (induction ops arbitrary: s)
  case Nil
  then show ?case by simp
next
  case (Cons a ops)
  show ?case
  proof (cases a)
    case (Put bs)
    then obtain s1 where s1: "put bs s = Some s1" "ready (length (written ops)) s1" "queue s1 = queue s @ bs"
      using put_ok [of bs "length (written ops)" s] Cons.prems by auto
    then show ?thesis using Cons.IH [of s1] Cons.prems Put by auto
  next
    case (Get n)
    then obtain s1 where s1: "get n s = Some (take n (queue s), s1)" "ready (length (written ops)) s1" "queue s1 = drop n (queue s)"
      using get_ok [of "length (written ops)" s n] Cons.prems by auto
    then obtain out s' where "run_ops put get ops s1 = Some (out, s')" "out @ queue s' = drop n (queue s) @ written ops"
      using Cons.IH [of s1] Cons.prems Get by auto
    then show ?thesis using s1(1) Get by simp
  qed
qed

end

text \<open>An open descriptor of the pipe at \<open>a\<close> whose mode is not \<open>bad\<close>, the mode in which the operation is refused.\<close>

definition pipe_fd :: "int \<Rightarrow> nat \<Rightarrow> u64 \<Rightarrow> files \<Rightarrow> bool" where
  "pipe_fd bad fd a s = (case fd_entry fd s of
     Some (Some i) \<Rightarrow> f_mode (filep s i) \<noteq> bad \<and> is_pipe (filep s i) = 1 \<and> f_pipe (filep s i) = a
   | _ \<Rightarrow> False)"

lemma pipe_fd_upd [simp]: "pipe_fd bad fd a (upd_pipe b pp s) = pipe_fd bad fd a s" "pipe_fd bad fd a (s\<lparr>woken := ws\<rparr>) = pipe_fd bad fd a s"
  "pipes (upd_pipe b pp s) = (pipes s)(b \<mapsto> pp)"
  by (simp_all add: pipe_fd_def fd_entry_def upd_pipe_def split: option.split)

lemma pipe_fd_write: "pipe_fd O_RDONLY fd a s \<Longrightarrow> filewrite p dv bs fd s = pipe_write a bs s"
  by (auto simp: pipe_fd_def filewrite_def split: option.splits)

lemma pipe_fd_read: "pipe_fd O_WRONLY fd a s \<Longrightarrow> fileread p dv fd n s = pipe_read a (nat n) s"
  by (auto simp: pipe_fd_def fileread_def split: option.splits)

text \<open>
  A writer that gets all its bytes in through descriptor \<open>w\<close>, and a reader on descriptor \<open>r\<close> (returning, or falling asleep after the
  bytes it was given).
\<close>

definition pipe_put :: "int \<Rightarrow> devsw \<Rightarrow> nat \<Rightarrow> u8 list \<Rightarrow> files \<Rightarrow> files option" where
  "pipe_put p dv w bs s = (case filewrite p dv bs w s of
     Some (Inl k, s') \<Rightarrow> if k = int (length bs) then Some s' else None
   | _ \<Rightarrow> None)"

definition pipe_get :: "int \<Rightarrow> devsw \<Rightarrow> nat \<Rightarrow> nat \<Rightarrow> files \<Rightarrow> (u8 list \<times> files) option" where
  "pipe_get p dv r n s = (case fileread p dv r (int n) s of
     None \<Rightarrow> None
   | Some (Returned k bs, s') \<Rightarrow> if k = int (length bs) then Some (bs, s') else None
   | Some (Sleeping bs k, s') \<Rightarrow> Some (bs, s'))"

definition pipe_queue :: "u64 \<Rightarrow> files \<Rightarrow> u8 list" where
  "pipe_queue a s = (case pipes s a of None \<Rightarrow> [] | Some pp \<Rightarrow> unread pp)"

text \<open>Both ends are open and \<open>m\<close> more bytes can be written before an offset leaves the range of \<open>int\<close>.\<close>

definition pipe_ready :: "nat \<Rightarrow> nat \<Rightarrow> u64 \<Rightarrow> nat \<Rightarrow> files \<Rightarrow> bool" where
  "pipe_ready r w a m s \<longleftrightarrow> pipe_fd O_WRONLY r a s \<and> pipe_fd O_RDONLY w a s \<and> (case pipes s a of None \<Rightarrow> False
   | Some pp \<Rightarrow> pipe_ok pp \<and> lk_free (p_lock pp) \<and> p_reader pp \<noteq> 0 \<and> offset_write pp + int m < 2 ^ 31)"

lemma pipe_lock_fields [simp]: "pipe_ok (pp\<lparr>p_lock := l\<rparr>) = pipe_ok pp" "unread (pp\<lparr>p_lock := l\<rparr>) = unread pp"
  by (simp_all add: pipe_ok_def unread_def)

lemma pipe_write_eq:
  assumes "pipes s a = Some pp" "lk_free (p_lock pp)" "0 \<le> offset_write pp" "0 \<le> offset_read pp" "p_reader pp \<noteq> 0"
    "offset_write pp + int (length bs) < 2 ^ 31"
  shows "pipe_write a bs s = Some (Inl (int (length bs)), upd_pipe a (fold push_byte bs pp) s)"
proof -
  let ?l = "(p_lock pp)\<lparr>locked := 1, lkcpu := mycpu\<rparr>"
  have "(fold push_byte bs (pp\<lparr>p_lock := ?l\<rparr>))\<lparr>p_lock := p_lock pp\<rparr> = fold push_byte bs pp"
    unfolding fold_push_lock by (rule file_pipe.equality) simp_all
  moreover have "release_lk ?l = Some (p_lock pp)" using lock_bracket [OF assms(2)] assms(2) by simp
  ultimately show ?thesis
    using assms pipe_write_loop_fold [of "pp\<lparr>p_lock := ?l\<rparr>" bs] by (simp add: pipe_write_def)
qed

lemma pipe_read_ok:
  assumes "pipes s a = Some pp" "lk_free (p_lock pp)" "pipe_ok pp" "offset_write pp < 2 ^ 31"
  shows "\<exists>r pp' ws. pipe_read a n s = Some (r, (upd_pipe a pp' s)\<lparr>woken := ws\<rparr>) \<and>
    r = (if n \<le> length (unread pp) \<or> p_writer pp = 0 then Returned (int (length (take n (unread pp)))) (take n (unread pp))
         else Sleeping (unread pp) (n - length (unread pp))) \<and>
    pipe_ok pp' \<and> unread pp' = drop n (unread pp) \<and> offset_write pp' = offset_write pp \<and> p_reader pp' = p_reader pp \<and> lk_free (p_lock pp')"
proof -
  let ?l = "(p_lock pp)\<lparr>locked := 1, lkcpu := mycpu\<rparr>" and ?u = "unread pp"
  have l: "release_lk ?l = Some (p_lock pp)" using lock_bracket [OF assms(2)] assms(2) by simp
  obtain q where q: "pipe_read_loop n (pp\<lparr>p_lock := ?l\<rparr>) =
      Some (take n ?u, if n \<le> length ?u \<or> p_writer pp = 0 then None else Some (n - length ?u), q)"
      "pipe_ok q" "unread q = drop n ?u" "offset_write q = offset_write pp" "p_reader q = p_reader pp" "p_lock q = ?l"
    using pipe_read_loop_ok [of "pp\<lparr>p_lock := ?l\<rparr>" n] assms(3,4) by auto
  let ?q = "q\<lparr>p_lock := p_lock pp\<rparr>"
  have u: "upd_pipe a ?q s = (upd_pipe a ?q s)\<lparr>woken := woken s\<rparr>" by (simp add: upd_pipe_def)
  show ?thesis
  proof (cases "n \<le> length ?u \<or> p_writer pp = 0")
    case True
    then have "pipe_read a n s = Some (Returned (int (length (take n ?u))) (take n ?u), upd_pipe a ?q s)"
      using assms(1,2) l q(1,6) by (simp add: pipe_read_def)
    with True u q assms(2) show ?thesis
      by (intro exI [of _ "Returned (int (length (take n ?u))) (take n ?u)"] exI [of _ ?q] exI [of _ "woken s"]) auto
  next
    case False
    then have "pipe_read a n s = Some (Sleeping ?u (n - length ?u), (upd_pipe a ?q s)\<lparr>woken := woken s @ [WriterChan a]\<rparr>)"
      using assms(1,2) l q(1,6) by (simp add: pipe_read_def) (simp add: upd_pipe_def)
    with False q assms(2) show ?thesis
      by (intro exI [of _ "Sleeping ?u (n - length ?u)"] exI [of _ ?q] exI [of _ "woken s @ [WriterChan a]"]) auto
  qed
qed

interpretation pc: byte_channel "pipe_put p dv w" "pipe_get p dv r" "pipe_queue a" "pipe_ready r w a" "nat PIPESIZE" for p dv r w a
proof
  fix bs :: "u8 list" and m s
  assume r: "pipe_ready r w a (length bs + m) s" and l: "length (pipe_queue a s) + length bs \<le> nat PIPESIZE"
  then obtain pp where pp: "pipes s a = Some pp" "pipe_ok pp" "lk_free (p_lock pp)" "p_reader pp \<noteq> 0"
      "offset_write pp + int (length bs + m) < 2 ^ 31" "pipe_fd O_RDONLY w a s"
    by (auto simp: pipe_ready_def split: option.splits)
  have "pipe_put p dv w bs s = Some (upd_pipe a (fold push_byte bs pp) s)"
    using pipe_write_eq [OF pp(1,3), of bs] pp by (simp add: pipe_put_def pipe_fd_write [OF pp(6)] pipe_ok_def)
  moreover have "unread (fold push_byte bs pp) = unread pp @ bs \<and> pipe_ok (fold push_byte bs pp)"
    using l by (intro unread_fold [OF pp(2)]) (simp add: pipe_queue_def pp(1) PIPESIZE_def)
  ultimately show "\<exists>s'. pipe_put p dv w bs s = Some s' \<and> pipe_ready r w a m s' \<and> pipe_queue a s' = pipe_queue a s @ bs"
    using r pp by (simp add: pipe_ready_def pipe_queue_def)
next
  fix m s n
  assume r: "pipe_ready r w a m s"
  then obtain pp where pp: "pipes s a = Some pp" "pipe_ok pp" "lk_free (p_lock pp)" "p_reader pp \<noteq> 0"
      "offset_write pp + int m < 2 ^ 31" "pipe_fd O_WRONLY r a s"
    by (auto simp: pipe_ready_def split: option.splits)
  then show "\<exists>s'. pipe_get p dv r n s = Some (take n (pipe_queue a s), s') \<and> pipe_ready r w a m s' \<and> pipe_queue a s' = drop n (pipe_queue a s)"
    using pipe_read_ok [OF pp(1,3,2), of n] r
    by (auto simp: pipe_get_def pipe_fd_read [OF pp(6)] pipe_ready_def pipe_queue_def)
qed

text \<open>
  C7. A pipe delivers the bytes in the order they were written, none lost and none twice, over any sequence of \<open>filewrite\<close> on one of its
  descriptors and \<open>fileread\<close> on another in which no write exceeds the free space of the buffer, a condition that \<open>filewrite\<close> does not check.
\<close>

theorem pipe_fifo:
  assumes "pipe_ready r w a (length (written ops)) s" "no_overrun (nat PIPESIZE) (length (pipe_queue a s)) ops"
  shows "\<exists>out s'. run_ops (pipe_put p dv w) (pipe_get p dv r) ops s = Some (out, s') \<and> out @ pipe_queue a s' = pipe_queue a s @ written ops"
  by (rule pc.run_fifo [OF assms])


section \<open>Concrete instances\<close>

text \<open>A process with the two ends of one pipe as its descriptors 0 and 1.\<close>

definition file_zero :: file_info where
  "file_zero = \<lparr>f_lock = initsleeplock ''file'', inode_ptr = None, f_offset = 0, f_mode = 0, f_ref = 0, is_pipe = 0, f_pipe = 0\<rparr>"

definition files_demo :: "file_pipe \<Rightarrow> files" where
  "files_demo pp = \<lparr>ffs = fs_demo blocks_demo, fkm = kmem_demo, file_table = [pipe_end O_RDONLY 4096 file_zero, pipe_end O_WRONLY 4096 file_zero],
     pipes = [4096 \<mapsto> pp], fd_table = [Some 0, Some 1], woken = []\<rparr>"

lemma files_demo_pipe: "pipe_fd O_WRONLY 0 4096 (files_demo pp)" "pipe_fd O_RDONLY 1 4096 (files_demo pp)" "pipes (files_demo pp) 4096 = Some pp"
  by (simp_all add: pipe_fd_def files_demo_def fd_entry_def pipe_end_def O_RDONLY_def O_WRONLY_def)

lemma pipe_new_ok:
  "length junk = 3500 \<Longrightarrow> pipe_ok (pipe_new junk)" "unread (pipe_new junk) = []" "lk_free (p_lock (pipe_new junk))"
  by (simp_all add: pipe_new_def pipe_ok_def PIPESIZE_def unread_def initlock_free)

definition pipe_demo :: "files" where "pipe_demo = files_demo (pipe_new (replicate 3500 0))"

lemma pipe_demo_ready: "int m < 2 ^ 31 \<Longrightarrow> pipe_ready 0 1 4096 m pipe_demo" "pipe_queue 4096 pipe_demo = []"
  using files_demo_pipe [of "pipe_new (replicate 3500 0)"] pipe_new_ok [of "replicate 3500 0"]
  by (simp_all add: pipe_ready_def pipe_queue_def pipe_demo_def) (simp add: pipe_new_def)

theorem pipe_fifo_witness:
  "\<exists>out s'. run_ops (pipe_put 1 dv_none 1) (pipe_get 1 dv_none 0) [Put [1, 2, 3], Get 2, Put [4], Get 5] pipe_demo = Some (out, s') \<and>
     out @ pipe_queue 4096 s' = [1, 2, 3, 4]"
proof -
  have "\<exists>out s'. run_ops (pipe_put 1 dv_none 1) (pipe_get 1 dv_none 0) [Put [1, 2, 3], Get 2, Put [4], Get 5] pipe_demo = Some (out, s') \<and>
     out @ pipe_queue 4096 s' = pipe_queue 4096 pipe_demo @ written [Put [1, 2, 3], Get 2, Put [4], Get 5]"
    by (rule pipe_fifo [OF pipe_demo_ready(1)]) (simp_all add: pipe_demo_ready(2) PIPESIZE_def)
  then show ?thesis unfolding pipe_demo_ready(2) written.simps append.simps .
qed



end
