(* ===== verification/Xk_Vm.thy ===== *)
theory Xk_Vm
  imports Xk_Kalloc
begin

text \<open>
  The page tables of \<open>kernel/x86_64vm.c\<close>: the four-level walk \<open>walkpml4\<close>, \<open>mappages\<close>, the kernel part of a page
  table \<open>setupkvm\<close>, and freeing a page table with \<open>deallocuvm\<close> and \<open>freevm\<close>. A table is a page whose frame is
  a \<open>Table\<close> of 512 entries; a \<open>pte_t *\<close> is the kernel address of the table with an index into it. Reading a
  page as a table that is not one does not return.

  The second half shows that \<open>mappages\<close> is correct: page tables as trees (\<open>pt_ok\<close>), the walk as a descent in the tree, and
  the effect of each step on the translation of all addresses.
\<close>

section \<open>Entries and indices (inc/mmu.h)\<close>

definition PTE_P :: u64 where "PTE_P = 1"
definition PTE_W :: u64 where "PTE_W = 2"
definition PTE_U :: u64 where "PTE_U = 4"

text \<open>\<open>BITMASK64(51, 12)\<close>, the address part of an entry of any level.\<close>

definition PTE_ADDR :: "u64 \<Rightarrow> u64" where "PTE_ADDR pte = pte AND 0x000FFFFFFFFFF000"

definition PTE :: "u64 \<Rightarrow> u64 \<Rightarrow> u64" where "PTE pa flags = pa OR flags"

definition PML4_SHIFT :: nat where "PML4_SHIFT = 39"
definition PDPT_SHIFT :: nat where "PDPT_SHIFT = 30"
definition PD_SHIFT :: nat where "PD_SHIFT = 21"
definition PTRS_PER_TABLE :: nat where "PTRS_PER_TABLE = 512"

definition PML4_INDEX :: "u64 \<Rightarrow> u64" where "PML4_INDEX va = drop_bit PML4_SHIFT va AND 511"
definition PDPT_INDEX :: "u64 \<Rightarrow> u64" where "PDPT_INDEX va = drop_bit PDPT_SHIFT va AND 511"
definition PD_INDEX :: "u64 \<Rightarrow> u64" where "PD_INDEX va = drop_bit PD_SHIFT va AND 511"
definition PT_INDEX :: "u64 \<Rightarrow> u64" where "PT_INDEX va = drop_bit PT_SHIFT va AND 511"

definition PGADDR :: "u64 \<Rightarrow> u64 \<Rightarrow> u64 \<Rightarrow> u64 \<Rightarrow> u64 \<Rightarrow> u64" where
  "PGADDR l4 l3 d t off = push_bit PML4_SHIFT l4 OR push_bit PDPT_SHIFT l3 OR push_bit PD_SHIFT d OR push_bit PT_SHIFT t OR off"

definition present :: "u64 \<Rightarrow> bool" where "present e \<longleftrightarrow> e AND PTE_P \<noteq> 0"

section \<open>Tables in memory\<close>

text \<open>The frame behind a kernel address.\<close>

definition frame_of :: "u64 \<Rightarrow> nat" where "frame_of v = unat (PGNUM (V2P v))"

definition table_read :: "u64 \<Rightarrow> nat \<Rightarrow> kmem \<Rightarrow> u64 option" where
  "table_read v i s = (case frames s (frame_of v) of Table t \<Rightarrow> Some (t i) | _ \<Rightarrow> None)"

definition table_write :: "u64 \<Rightarrow> nat \<Rightarrow> u64 \<Rightarrow> kmem \<Rightarrow> kmem option" where
  "table_write v i e s = (case frames s (frame_of v) of
      Table t \<Rightarrow> Some (s\<lparr>frames := (frames s)(frame_of v := Table (t(i := e)))\<rparr>)
    | _ \<Rightarrow> None)"

text \<open>\<open>memset(v, 0, PGSIZE)\<close> on a fresh page, by the use the page is put to.\<close>

definition clear_page :: "frame \<Rightarrow> u64 \<Rightarrow> kmem \<Rightarrow> kmem" where
  "clear_page z v s = s\<lparr>frames := (frames s)(frame_of v := z)\<rparr>"

section \<open>The walk\<close>

text \<open>
  One level of \<open>walkpml4\<close>: the table an entry points to; a missing table is created when \<open>alloc\<close> is set. A null result
  is \<open>None\<close> inside.
\<close>

definition walk_level :: "bool \<Rightarrow> u64 \<Rightarrow> nat \<Rightarrow> kmem \<Rightarrow> (u64 option \<times> kmem) option" where
  "walk_level alloc tab i s = do {
     e \<leftarrow> table_read tab i s;
     (if present e then Some (Some (P2V (PTE_ADDR e)), s)
      else if \<not> alloc then Some (None, s)
      else do {
        (p, s) \<leftarrow> kalloc s;
        (if p = 0 then Some (None, s)
         else do {
           let s = clear_page zero_table p s;
           s \<leftarrow> table_write tab i (V2P p OR PTE_P OR PTE_W OR PTE_U) s;
           Some (Some p, s) }) }) }"

definition walkpml4 :: "u64 \<Rightarrow> u64 \<Rightarrow> bool \<Rightarrow> kmem \<Rightarrow> ((u64 \<times> nat) option \<times> kmem) option" where
  "walkpml4 pml4 va alloc s = do {
     (pdpt, s) \<leftarrow> walk_level alloc pml4 (unat (PML4_INDEX va)) s;
     (case pdpt of None \<Rightarrow> Some (None, s) | Some pdpt \<Rightarrow> do {
       (pgdir, s) \<leftarrow> walk_level alloc pdpt (unat (PDPT_INDEX va)) s;
       (case pgdir of None \<Rightarrow> Some (None, s) | Some pgdir \<Rightarrow> do {
         (pgtab, s) \<leftarrow> walk_level alloc pgdir (unat (PD_INDEX va)) s;
         (case pgtab of None \<Rightarrow> Some (None, s) | Some pgtab \<Rightarrow>
           Some (Some (pgtab, unat (PT_INDEX va)), s)) }) }) }"

text \<open>
  The entry that the walk without creation of tables reaches, when it is present: the translation of an address by the hardware.
\<close>

definition pte_at :: "u64 \<Rightarrow> u64 \<Rightarrow> kmem \<Rightarrow> u64 option option" where
  "pte_at pml4 va s = do {
     (r, _) \<leftarrow> walkpml4 pml4 va False s;
     (case r of None \<Rightarrow> Some None | Some (tab, i) \<Rightarrow> do {
        e \<leftarrow> table_read tab i s;
        Some (if present e then Some e else None) }) }"

section \<open>Mapping pages\<close>

text \<open>One round of \<open>mappages\<close>: running out of memory and mapping over a present entry panic.\<close>

definition map_page :: "u64 \<Rightarrow> u64 \<Rightarrow> u64 \<Rightarrow> u64 \<Rightarrow> bool \<Rightarrow> kmem \<Rightarrow> kmem option" where
  "map_page pml4 virt_pn phy_pn perm kern s = do {
     (r, s) \<leftarrow> walkpml4 pml4 (push_bit PT_SHIFT virt_pn) True s;
     (case r of None \<Rightarrow> None | Some (tab, i) \<Rightarrow> do {
        e \<leftarrow> table_read tab i s;
        (if present e then None else do {
          s \<leftarrow> table_write tab i (PTE (push_bit PT_SHIFT phy_pn) perm) s;
          (if \<not> kern then mark_user_mem (push_bit PT_SHIFT phy_pn) (push_bit PT_SHIFT virt_pn) s else Some s) }) }) }"

primrec mappages :: "u64 \<Rightarrow> u64 \<Rightarrow> nat \<Rightarrow> u64 \<Rightarrow> u64 \<Rightarrow> bool \<Rightarrow> kmem \<Rightarrow> kmem option" where
  "mappages pml4 virt_pn 0 phy_pn perm kern s = Some s"
| "mappages pml4 virt_pn (Suc n) phy_pn perm kern s = do {
     s \<leftarrow> map_page pml4 virt_pn phy_pn perm kern s;
     mappages pml4 (virt_pn + 1) n (phy_pn + 1) perm kern s }"

definition KERNLINK :: u64 where "KERNLINK = KERNBASE + EXTMEM"
definition DEVSPACE :: u64 where "DEVSPACE = 0xFFFFFFFFFE000000"

text \<open>
  The table \<open>kmap\<close> of \<open>setupkvm\<close>: virtual start, physical start and end, permissions. \<open>kdata\<close> is the address of the
  linker symbol \<open>data\<close>.
\<close>

definition kmap :: "u64 \<Rightarrow> nat \<Rightarrow> (u64 \<times> u64 \<times> u64 \<times> u64) list" where
  "kmap kdata np =
     [(KERNBASE, 0, EXTMEM, PTE_W),
      (KERNLINK, V2P KERNLINK, V2P kdata, 0),
      (kdata, V2P kdata, word_of_nat np * PGSIZE, PTE_W),
      (DEVSPACE, 0xFE000000, 0x100000000, PTE_W)]"

text \<open>\<open>num_page\<close> is an \<open>int\<close>: a negative number of pages maps nothing.\<close>

fun setupkvm_loop :: "u64 \<Rightarrow> (u64 \<times> u64 \<times> u64 \<times> u64) list \<Rightarrow> kmem \<Rightarrow> kmem option" where
  "setupkvm_loop pml4 [] s = Some s"
| "setupkvm_loop pml4 ((virt, ps, pe, perm) # ks) s = do {
     s \<leftarrow> mappages pml4 (drop_bit PT_SHIFT virt) (nat (c_int (uint (drop_bit PT_SHIFT (pe - ps)))))
            (drop_bit PT_SHIFT ps) (perm OR PTE_P) True s;
     setupkvm_loop pml4 ks s }"

definition setupkvm :: "u64 \<Rightarrow> kmem \<Rightarrow> (u64 \<times> kmem) option" where
  "setupkvm kdata s = do {
     (pml4, s) \<leftarrow> kalloc s;
     (if pml4 = 0 then Some (0, s)
      else do {
        let s = clear_page zero_table pml4 s;
        s \<leftarrow> setupkvm_loop pml4 (kmap kdata (npages s)) s;
        Some (pml4, s) }) }"

section \<open>Freeing\<close>

definition find_next_possible_page :: "u64 \<Rightarrow> u64 \<Rightarrow> kmem \<Rightarrow> u64 option" where
  "find_next_possible_page pml4 va s = do {
     e4 \<leftarrow> table_read pml4 (unat (PML4_INDEX va)) s;
     (if \<not> present e4 then Some (PGADDR (PML4_INDEX va + 1) 0 0 0 0 - PGSIZE)
      else do {
        e3 \<leftarrow> table_read (P2V (PTE_ADDR e4)) (unat (PDPT_INDEX va)) s;
        (if \<not> present e3 then Some (PGADDR (PML4_INDEX va) (PDPT_INDEX va + 1) 0 0 0 - PGSIZE)
         else do {
           e2 \<leftarrow> table_read (P2V (PTE_ADDR e3)) (unat (PD_INDEX va)) s;
           (if \<not> present e2 then Some (PGADDR (PML4_INDEX va) (PDPT_INDEX va) (PD_INDEX va + 1) 0 0 - PGSIZE)
            else None) }) }) }"

text \<open>The loop of \<open>deallocuvm\<close>; \<open>lim\<close> is \<open>start + oldsz\<close>.\<close>

partial_function (option) dealloc_loop :: "u64 \<Rightarrow> u64 \<Rightarrow> u64 \<Rightarrow> kmem \<Rightarrow> kmem option" where
  "dealloc_loop pml4 a lim s =
     (if a < lim then do {
        (r, s) \<leftarrow> walkpml4 pml4 a False s;
        (case r of
           None \<Rightarrow> do {
             a \<leftarrow> find_next_possible_page pml4 a s;
             dealloc_loop pml4 (a + PGSIZE) lim s }
         | Some (tab, i) \<Rightarrow> do {
             e \<leftarrow> table_read tab i s;
             s \<leftarrow> (if present e then
                     (if PTE_ADDR e = 0 then None
                      else do {
                        s \<leftarrow> kfree (P2V (PTE_ADDR e)) s;
                        table_write tab i 0 s })
                   else Some s);
             dealloc_loop pml4 (a + PGSIZE) lim s }) }
      else Some s)"

definition deallocuvm :: "u64 \<Rightarrow> u64 \<Rightarrow> u64 \<Rightarrow> u64 \<Rightarrow> kmem \<Rightarrow> (int \<times> kmem) option" where
  "deallocuvm pml4 start oldsz newsz s =
     (if newsz \<ge> oldsz then Some (c_int (uint oldsz), s)
      else do {
        s \<leftarrow> dealloc_loop pml4 (PGROUNDUP (start + newsz)) (start + oldsz) s;
        Some (c_int (uint newsz), s) })"

text \<open>The loops over the entries of a table; what a present entry points to is released by \<open>rel\<close>.\<close>

fun free_entries :: "(u64 \<Rightarrow> kmem \<Rightarrow> kmem option) \<Rightarrow> u64 \<Rightarrow> nat list \<Rightarrow> kmem \<Rightarrow> kmem option" where
  "free_entries rel tab [] s = Some s"
| "free_entries rel tab (i # is) s = do {
     e \<leftarrow> table_read tab i s;
     s \<leftarrow> (if present e then rel (P2V (PTE_ADDR e)) s else Some s);
     free_entries rel tab is s }"

definition freevm_pgdir :: "u64 \<Rightarrow> kmem \<Rightarrow> kmem option" where
  "freevm_pgdir pgdir s = do {
     s \<leftarrow> free_entries kfree pgdir [0..<PTRS_PER_TABLE] s;
     kfree pgdir s }"

definition freevm_pdpt :: "u64 \<Rightarrow> kmem \<Rightarrow> kmem option" where
  "freevm_pdpt pdpt s = do {
     s \<leftarrow> free_entries freevm_pgdir pdpt [0..<PTRS_PER_TABLE] s;
     kfree pdpt s }"

definition freevm :: "u64 \<Rightarrow> kmem \<Rightarrow> kmem option" where
  "freevm pml4 s =
     (if pml4 = 0 then None
      else do {
        (_, s) \<leftarrow> deallocuvm pml4 0 SZ_4G 0 s;
        s \<leftarrow> free_entries freevm_pdpt pml4 [0..<PTRS_PER_TABLE] s;
        kfree pml4 s })"

section \<open>Entries that point to tables\<close>

lemma PTE_ADDR_bits: "bit (PTE_ADDR e) n \<longleftrightarrow> 12 \<le> n \<and> n < 52 \<and> bit e n"
proof -
  have "(0x000FFFFFFFFFF000 :: u64) = push_bit 12 (mask 40)" by (simp add: mask_eq_exp_minus_1)
  then have "PTE_ADDR e = e AND push_bit 12 (mask 40)" by (simp only: PTE_ADDR_def)
  then show ?thesis by (auto simp: bit_simps)
qed

lemma page2pa_bits: "d < max_pages \<Longrightarrow> bit (page2pa d) n \<Longrightarrow> 12 \<le> n \<and> n < 31"
proof -
  assume d: "d < max_pages" and b: "bit (page2pa d) n"
  then have "12 \<le> n" "bit (word_of_nat d :: u64) (n - 12)" by (auto simp: page2pa_def PT_SHIFT_def bit_simps)
  moreover have "\<not> bit d (n - 12)" if "19 \<le> n - 12"
  proof -
    have "d < 2 ^ 19" using d by (simp add: max_pages_def)
    also have "(2 :: nat) ^ 19 \<le> 2 ^ (n - 12)" using that by (rule power_increasing) simp
    finally show ?thesis by (simp add: bit_iff_odd)
  qed
  ultimately have "\<not> 19 \<le> n - 12" by (auto simp: bit_simps)
  with \<open>12 \<le> n\<close> show ?thesis by simp
qed

lemma new_entry:
  assumes "d < max_pages"
  defines "e \<equiv> V2P (page_va d) OR PTE_P OR PTE_W OR PTE_U"
  shows "present e" "PTE_ADDR e = page2pa d" "frame_of (P2V (PTE_ADDR e)) = d"
proof -
  have "e = page2pa d OR 7" by (simp add: e_def PTE_P_def PTE_W_def PTE_U_def or.assoc)
  then have b: "bit e n \<longleftrightarrow> bit (page2pa d) n \<or> bit (7 :: u64) n" for n by (simp add: bit_simps)
  have "(7 :: u64) = mask 3" by (simp add: mask_eq_exp_minus_1)
  then have seven: "bit (7 :: u64) n \<longleftrightarrow> n < 3" for n by (simp only: bit_mask_iff) auto
  have "bit (e AND PTE_P) 0" using b seven by (simp add: PTE_P_def bit_simps)
  then show "present e" by (auto simp: present_def)
  show a: "PTE_ADDR e = page2pa d"
  proof (rule bit_word_eqI)
    fix n show "bit (PTE_ADDR e) n = bit (page2pa d) n"
      using page2pa_bits [OF assms(1), of n] seven [of n] by (auto simp: PTE_ADDR_bits b)
  qed
  show "frame_of (P2V (PTE_ADDR e)) = d" using assms(1) by (simp add: a frame_of_def)
qed

section \<open>Paths through the tables\<close>

text \<open>
  A present entry of the table in frame \<open>f\<close>; the frame of the table reached by following the entries with the indices of a path; and the
  invariant that a page table is a tree: every table reached in at most three steps is in use, an entry that points to a table holds the address of a
  page, and two paths lead to different tables.
\<close>

definition entry_frame :: "u64 \<Rightarrow> nat" where "entry_frame e = frame_of (P2V (PTE_ADDR e))"

definition ent :: "kmem \<Rightarrow> nat \<Rightarrow> nat \<Rightarrow> u64 option" where
  "ent s f i = (case frames s f of Table t \<Rightarrow> if present (t i) then Some (t i) else None | _ \<Rightarrow> None)"

fun node :: "kmem \<Rightarrow> nat \<Rightarrow> nat list \<Rightarrow> nat option" where
  "node s f [] = Some f"
| "node s f (i # is) = (case ent s f i of None \<Rightarrow> None | Some e \<Rightarrow> node s (entry_frame e) is)"

definition leaf :: "kmem \<Rightarrow> nat \<Rightarrow> nat list \<Rightarrow> nat \<Rightarrow> u64 option" where
  "leaf s f p i = (case node s f p of None \<Rightarrow> None | Some g \<Rightarrow> ent s g i)"

definition pt_ok :: "nat \<Rightarrow> kmem \<Rightarrow> bool" where
  "pt_ok root s \<longleftrightarrow>
     (\<forall>p f. length p \<le> 3 \<longrightarrow> node s root p = Some f \<longrightarrow> page_live s f \<and> (\<exists>t. frames s f = Table t)) \<and>
     (\<forall>p q f. length p \<le> 3 \<longrightarrow> length q \<le> 3 \<longrightarrow> node s root p = Some f \<longrightarrow> node s root q = Some f \<longrightarrow> p = q) \<and>
     (\<forall>p f i e. length p < 3 \<longrightarrow> node s root p = Some f \<longrightarrow> ent s f i = Some e \<longrightarrow> P2V (PTE_ADDR e) = page_va (entry_frame e))"

lemma pt_okD:
  assumes "pt_ok root s" "length p \<le> 3" "node s root p = Some f"
  shows "page_live s f" "\<exists>t. frames s f = Table t" "length q \<le> 3 \<Longrightarrow> node s root q = Some f \<Longrightarrow> p = q"
    "length p < 3 \<Longrightarrow> ent s f i = Some e \<Longrightarrow> P2V (PTE_ADDR e) = page_va (entry_frame e)"
  using assms unfolding pt_ok_def by blast+

lemma node_append: "node s f (p @ q) = (case node s f p of None \<Rightarrow> None | Some g \<Rightarrow> node s g q)"
  by (induction p arbitrary: f) (auto split: option.split)

lemma node_cong:
  assumes "\<And>p j r g. q = p @ j # r \<Longrightarrow> node s f p = Some g \<Longrightarrow> ent s' g j = ent s g j"
  shows "node s' f q = node s f q"
  using assms
proof (induction q arbitrary: f)
  case (Cons i q)
  have "ent s' f i = ent s f i" using Cons.prems [of "[]" i q f] by simp
  moreover have "node s' (entry_frame e) q = node s (entry_frame e) q" if e: "ent s f i = Some e" for e
  proof (rule Cons.IH)
    fix p j r g assume "q = p @ j # r" "node s (entry_frame e) p = Some g"
    with e show "ent s' g j = ent s g j" by (intro Cons.prems [of "i # p" j r g]) auto
  qed
  ultimately show ?case by (auto split: option.split)
qed simp

text \<open>A new table \<open>d\<close> is hung into the tree at the index \<open>i\<close> of the table \<open>f\<close>.\<close>

lemma extend_tree:
  assumes ok: "pt_ok root s" and p: "length p < 3" "node s root p = Some f" and a: "ent s f i = None" and d: "\<not> page_live s d"
    and fr: "frames s f = Table t" "frames s' = (frames s)(d := zero_table, f := Table (t(i := e)))"
    and e: "present e" "entry_frame e = d" "P2V (PTE_ADDR e) = page_va d"
    and lv: "\<And>x. page_live s x \<Longrightarrow> page_live s' x" "page_live s' d"
  shows "\<And>q. length q \<le> 3 \<Longrightarrow> node s' root q = (if q = p @ [i] then Some d else node s root q)"
    and "\<And>q j. length q = 3 \<Longrightarrow> leaf s' root q j = leaf s root q j" and "pt_ok root s'"
proof -
  have "page_live s f" using pt_okD(1) [OF ok _ p(2)] p(1) by simp
  then have fd: "f \<noteq> d" using d by auto
  have es: "ent s' g j = (if g = f \<and> j = i then Some e else if g = d then None else ent s g j)" for g j
    using fd e(1) by (auto simp: ent_def fr zero_table_def present_def)
  have other: "node s' root q = node s root q" if q: "length q \<le> 3" "\<nexists>r. q = p @ i # r" for q
  proof (rule node_cong)
    fix p' j r g assume h: "q = p' @ j # r" "node s root p' = Some g"
    then have "length p' \<le> 3" using q(1) by simp
    then have "g \<noteq> d" "g = f \<longrightarrow> p' = p" using pt_okD [OF ok _ h(2)] d pt_okD(3) [OF ok _ h(2), of p] p by auto
    then show "ent s' g j = ent s g j" using es h(1) q(2) by auto
  qed
  have old: "node s root (p @ i # r) = None" for r using p(2) a by (simp add: node_append)
  have np: "node s' root p = Some f" using other [of p] p by simp
  have dn: "node s' d r = (if r = [] then Some d else None)" for r using es fd by (cases r) auto
  then have new: "node s' root (p @ i # r) = (if r = [] then Some d else None)" for r using np es e(2) by (simp add: node_append)
  show n: "node s' root q = (if q = p @ [i] then Some d else node s root q)" if "length q \<le> 3" for q
  proof (cases "\<exists>r. q = p @ i # r")
    case True
    then obtain r where "q = p @ i # r" by auto
    then show ?thesis using new [of r] old [of r] by (cases r) auto
  next
    case False then show ?thesis using other [OF that] by auto
  qed
  show "leaf s' root q j = leaf s root q j" if q: "length q = 3" for q j
  proof (cases "q = p @ [i]")
    case True then show ?thesis using n [of q] q old [of "[]"] es fd by (simp add: leaf_def)
  next
    case False
    then have nq: "node s' root q = node s root q" using n q by simp
    have "g \<noteq> d" "g \<noteq> f" if g: "node s root q = Some g" for g
      using pt_okD(1) [OF ok _ g] pt_okD(3) [OF ok _ g, of p] d p q by auto
    then show ?thesis using nq es by (auto simp: leaf_def split: option.split)
  qed
  have step: "(q = p @ [i] \<and> g = d) \<or> (node s root q = Some g \<and> g \<noteq> d)" if "length q \<le> 3" "node s' root q = Some g" for q g
    using n [OF that(1)] that(2) pt_okD(1) [OF ok that(1), of g] d by (cases "q = p @ [i]") auto
  show "pt_ok root s'"
    unfolding pt_ok_def
  proof (intro conjI allI impI)
    fix q g assume q: "length q \<le> 3" "node s' root q = Some g"
    show "page_live s' g" using n [OF q(1)] q lv pt_okD(1) [OF ok q(1)] by (auto split: if_splits)
    show "\<exists>t. frames s' g = Table t" using n [OF q(1)] q pt_okD(2) [OF ok q(1)] by (auto simp: fr zero_table_def split: if_splits)
  next
    fix q1 q2 g assume q: "length q1 \<le> 3" "length q2 \<le> 3" "node s' root q1 = Some g" "node s' root q2 = Some g"
    show "q1 = q2" using step [OF q(1,3)] step [OF q(2,4)] pt_okD(3) [OF ok q(1) _ q(2)] by blast
  next
    fix q g j x assume q: "length q < 3" "node s' root q = Some g" "ent s' g j = Some x"
    then show "P2V (PTE_ADDR x) = page_va (entry_frame x)"
      using n [of q] es [of g j] e pt_okD(4) [OF ok _ _ q(1)] fd by (auto split: if_splits)
  qed
qed

text \<open>An entry of the last level is written.\<close>

lemma write_leaf:
  assumes ok: "pt_ok root s" and p: "length p = 3" "node s root p = Some f"
    and fr: "frames s f = Table t" "frames s' = (frames s)(f := Table (t(i := e)))"
    and lv: "\<And>x. page_live s x \<Longrightarrow> page_live s' x"
  shows "\<And>q j. length q = 3 \<Longrightarrow>
      leaf s' root q j = (if q = p \<and> j = i then (if present e then Some e else None) else leaf s root q j)"
    and "pt_ok root s'"
proof -
  have es: "ent s' g j = (if g = f \<and> j = i then (if present e then Some e else None) else ent s g j)" for g j
    by (auto simp: ent_def fr)
  have inner: "g \<noteq> f" if "node s root q = Some g" "length q < 3" for q g
    using pt_okD(3) [OF ok _ that(1), of p] p that(2) by auto
  have n: "node s' root q = node s root q" if "length q \<le> 3" for q
    by (rule node_cong) (use inner that es in auto)
  show "leaf s' root q j = (if q = p \<and> j = i then (if present e then Some e else None) else leaf s root q j)" if q: "length q = 3" for q j
  proof -
    have "g = f \<longleftrightarrow> q = p" if "node s root q = Some g" for g using pt_okD(3) [OF ok _ that, of p] p q that by auto
    then show ?thesis using n [of q] q es p by (auto simp: leaf_def split: option.split)
  qed
  show "pt_ok root s'"
    unfolding pt_ok_def
  proof (intro conjI allI impI)
    fix q g assume q: "length q \<le> 3" "node s' root q = Some g"
    show "page_live s' g" using n q lv pt_okD(1) [OF ok q(1)] by auto
    show "\<exists>t. frames s' g = Table t" using n q pt_okD(2) [OF ok q(1)] by (auto simp: fr)
  next
    fix q1 q2 g assume "length q1 \<le> 3" "length q2 \<le> 3" "node s' root q1 = Some g" "node s' root q2 = Some g"
    then show "q1 = q2" using n pt_okD(3) [OF ok] by auto
  next
    fix q g j x assume q: "length q < 3" "node s' root q = Some g" "ent s' g j = Some x"
    then show "P2V (PTE_ADDR x) = page_va (entry_frame x)" using n [of q] es inner [of q g] pt_okD(4) [OF ok _ _ q(1)] by auto
  qed
qed

section \<open>The walk as a descent in the tree\<close>

text \<open>What creating tables keeps: every table and every mapping is still there, and pages that are not tables are not touched.\<close>

definition is_table :: "nat \<Rightarrow> kmem \<Rightarrow> nat \<Rightarrow> bool" where
  "is_table root s f \<longleftrightarrow> (\<exists>q. length q \<le> 3 \<and> node s root q = Some f)"

definition keeps :: "nat \<Rightarrow> kmem \<Rightarrow> kmem \<Rightarrow> bool" where
  "keeps root s s' \<longleftrightarrow> kmem_ok s' \<and> pt_ok root s' \<and> (\<forall>x. page_live s x \<longrightarrow> page_live s' x) \<and>
     (\<forall>q f. length q \<le> 3 \<longrightarrow> node s root q = Some f \<longrightarrow> node s' root q = Some f) \<and>
     (\<forall>f. page_live s f \<longrightarrow> \<not> is_table root s f \<longrightarrow> frames s' f = frames s f \<and> \<not> is_table root s' f)"

lemma keeps_refl: "kmem_ok s \<Longrightarrow> pt_ok root s \<Longrightarrow> keeps root s s"
  by (simp add: keeps_def)

lemma keeps_trans: "keeps root s s1 \<Longrightarrow> keeps root s1 s2 \<Longrightarrow> keeps root s s2"
  unfolding keeps_def by (elim conjE, intro conjI) (assumption | metis)+

lemma keepsD:
  assumes "keeps root s s'"
  shows "kmem_ok s'" "pt_ok root s'" "page_live s x \<Longrightarrow> page_live s' x"
    "length q \<le> 3 \<Longrightarrow> node s root q = Some f \<Longrightarrow> node s' root q = Some f"
  using assms unfolding keeps_def by blast+

lemma frame_of_page_va [simp]: "i < max_pages \<Longrightarrow> frame_of (page_va i) = i"
  by (simp add: frame_of_def)

lemma kmem_ok_frames [simp]: "kmem_ok (s\<lparr>frames := fr\<rparr>) = kmem_ok s"
  by (simp add: kmem_ok_def)

lemma page_live_frames [simp]: "page_live (s\<lparr>frames := fr\<rparr>) i = page_live s i"
  by (simp add: page_live_def)

lemma kalloc_free_page:
  assumes ok: "kmem_ok s" and f: "0 < free_pages s"
  obtains d where "kalloc s = Some (page_va d, take_page d s)" "page_avail s d"
proof (rule kalloc_cases [OF ok])
  assume n: "\<And>i. \<not> page_avail s i"
  have "length (core_map s) = npages s" using ok by (rule kmem_ok_length)
  then have "{i. i < length (core_map s) \<and> avail (core_map s ! i)} = {}" using n by (auto simp: page_avail_def)
  then have "free_pages s = 0" using ok by (simp add: kmem_ok_def count_if_card)
  with f show thesis by simp
qed (use that in blast)

lemma kalloc_lowest:
  assumes ok: "kmem_ok s" and d: "page_avail s d" "\<forall>j < d. \<not> page_avail s j"
  shows "kalloc s = Some (page_va d, take_page d s)"
proof -
  have "for_first (\<lambda>i. available (core_map s ! i) = 1) 0 (npages s) = Some d"
    using d by (auto simp: for_first_Some page_avail_def avail_def)
  then show ?thesis using kalloc_eq [OF ok] by simp
qed

lemma take_page_live:
  assumes ok: "kmem_ok s" and a: "page_avail s d"
  shows "page_live (take_page d s) d" "page_live s x \<Longrightarrow> page_live (take_page d s) x" "\<not> page_live s d" "d < max_pages"
proof -
  have d: "d < npages s" using a by (simp add: page_avail_def)
  show "page_live (take_page d s) d" "page_live s x \<Longrightarrow> page_live (take_page d s) x" "\<not> page_live s d" "d < max_pages"
    using kmem_okD [OF ok d] kmem_ok_max [OF ok d] a d by (auto simp: page_live_def page_avail_def avail_def live_def nth_upd entry_ok_def)
qed

lemma new_table_keeps:
  assumes ok: "kmem_ok s" "pt_ok root s" and p: "length p < 3" "node s root p = Some f" and a: "ent s f i = None"
    and d: "page_avail s d" and t: "frames s f = Table t"
  defines "s' \<equiv> (take_page d s)\<lparr>frames := (frames s)(d := zero_table, f := Table (t(i := V2P (page_va d) OR PTE_P OR PTE_W OR PTE_U)))\<rparr>"
  shows "keeps root s s'" "node s' root (p @ [i]) = Some d" "length q = 3 \<Longrightarrow> leaf s' root q j = leaf s root q j"
proof -
  note lv = take_page_live [OF ok(1) d]
  have l: "page_live s x \<Longrightarrow> page_live s' x" "page_live s' d" for x using lv(1,2) by (simp_all add: s'_def)
  have ne: "entry_frame (V2P (page_va d) OR PTE_P OR PTE_W OR PTE_U) = d" using new_entry(3) [OF lv(4)] by (simp add: entry_frame_def)
  note ext = extend_tree [OF ok(2) p a lv(3) t _ new_entry(1) [OF lv(4)] ne, of s', OF _ _ l]
  have fr: "frames s' = (frames s)(d := zero_table, f := Table (t(i := V2P (page_va d) OR PTE_P OR PTE_W OR PTE_U)))"
    by (simp add: s'_def)
  have ad: "P2V (PTE_ADDR (V2P (page_va d) OR PTE_P OR PTE_W OR PTE_U)) = page_va d" using new_entry(2) [OF lv(4)] by simp
  note n = ext(1) [OF fr ad]
  show nd: "node s' root (p @ [i]) = Some d" using n [of "p @ [i]"] p(1) by simp
  show "length q = 3 \<Longrightarrow> leaf s' root q j = leaf s root q j" using ext(2) [OF fr ad] by blast
  have "node s root (p @ [i]) = None" using p(2) a by (simp add: node_append)
  then have keep: "length q \<le> 3 \<Longrightarrow> node s root q = Some g \<Longrightarrow> node s' root q = Some g" for q g using n [of q] by auto
  have "is_table root s' g \<longleftrightarrow> is_table root s g \<or> g = d" for g
  proof
    assume "is_table root s' g"
    then show "is_table root s g \<or> g = d" using n by (auto simp: is_table_def split: if_splits)
  next
    assume "is_table root s g \<or> g = d"
    moreover have "length (p @ [i]) \<le> 3" using p(1) by simp
    ultimately show "is_table root s' g" using keep nd unfolding is_table_def by blast
  qed
  moreover have "is_table root s f" unfolding is_table_def using p by (intro exI [of _ p]) simp
  moreover have "kmem_ok s'" using take_page_ok [OF ok(1) d] by (simp add: s'_def)
  ultimately show "keeps root s s'"
    unfolding keeps_def using l(1) keep ext(3) [OF fr ad] lv(3) by (auto simp: fr)
qed

lemma walk_level_ok:
  assumes ok: "kmem_ok s" "pt_ok root s" and p: "length p < 3" "node s root p = Some f" and free: "0 < free_pages s"
  obtains g s' where "walk_level True (page_va f) i s = Some (Some (page_va g), s')" "keeps root s s'"
    "node s' root (p @ [i]) = Some g" "free_pages s - 1 \<le> free_pages s'"
    "\<And>q j. length q = 3 \<Longrightarrow> leaf s' root q j = leaf s root q j"
proof -
  have lf: "page_live s f" using pt_okD(1) [OF ok(2) _ p(2)] p(1) by simp
  then have fm: "f < max_pages" using kmem_ok_max [OF ok(1)] by (simp add: page_live_def)
  obtain t where t: "frames s f = Table t" using pt_okD(2) [OF ok(2) _ p(2)] p(1) by auto
  have r: "table_read (page_va f) i s = Some (t i)" using fm t by (simp add: table_read_def)
  show thesis
  proof (cases "present (t i)")
    case True
    then have e: "ent s f i = Some (t i)" by (simp add: ent_def t)
    have "P2V (PTE_ADDR (t i)) = page_va (entry_frame (t i))" using pt_okD(4) [OF ok(2) _ p(2) p(1) e] p(1) by simp
    moreover have "node s root (p @ [i]) = Some (entry_frame (t i))" using p(2) e by (simp add: node_append)
    ultimately show thesis using that [of "entry_frame (t i)" s] True r keeps_refl [OF ok] by (simp add: walk_level_def)
  next
    case False
    then have a: "ent s f i = None" by (simp add: ent_def t)
    obtain d where d: "kalloc s = Some (page_va d, take_page d s)" "page_avail s d" by (rule kalloc_free_page [OF ok(1) free])
    note lv = take_page_live [OF ok(1) d(2)]
    then have "f \<noteq> d" using lf by auto
    then have w: "walk_level True (page_va f) i s = Some (Some (page_va d),
        (take_page d s)\<lparr>frames := (frames s)(d := zero_table, f := Table (t(i := V2P (page_va d) OR PTE_P OR PTE_W OR PTE_U)))\<rparr>)"
      using r False d(1) fm lv(4) t by (simp add: walk_level_def clear_page_def table_write_def)
    have fp: "free_pages (take_page d s) = free_pages s - 1" by (simp add: take_page_def)
    show thesis by (rule that [OF w new_table_keeps(1,2) [OF ok p a d(2) t] _ new_table_keeps(3) [OF ok p a d(2) t]]) (simp_all add: fp)
  qed
qed

definition pt_path :: "u64 \<Rightarrow> nat list" where
  "pt_path va = [unat (PML4_INDEX va), unat (PDPT_INDEX va), unat (PD_INDEX va)]"

definition translate :: "nat \<Rightarrow> kmem \<Rightarrow> u64 \<Rightarrow> u64 option" where
  "translate root s va = leaf s root (pt_path va) (unat (PT_INDEX va))"

lemma length_pt_path [simp]: "length (pt_path va) = 3"
  by (simp add: pt_path_def)

lemma walkpml4_ok:
  assumes ok: "kmem_ok s" "pt_ok root s" and free: "3 \<le> free_pages s"
  obtains g s' where "walkpml4 (page_va root) va True s = Some (Some (page_va g, unat (PT_INDEX va)), s')" "keeps root s s'"
    "node s' root (pt_path va) = Some g" "free_pages s - 3 \<le> free_pages s'" "\<And>a. translate root s' a = translate root s a"
proof -
  have f0: "0 < free_pages s" using free by simp
  obtain g1 s1 where 1: "walk_level True (page_va root) (unat (PML4_INDEX va)) s = Some (Some (page_va g1), s1)" "keeps root s s1"
    "node s1 root ([] @ [unat (PML4_INDEX va)]) = Some g1" "free_pages s - 1 \<le> free_pages s1"
    "\<And>q j. length q = 3 \<Longrightarrow> leaf s1 root q j = leaf s root q j"
    by (rule walk_level_ok [OF ok _ _ f0, of "[]" root "unat (PML4_INDEX va)"]) (simp, simp, rule that)
  have f1: "0 < free_pages s1" using free 1(4) by simp
  obtain g2 s2 where 2: "walk_level True (page_va g1) (unat (PDPT_INDEX va)) s1 = Some (Some (page_va g2), s2)" "keeps root s1 s2"
    "node s2 root (([] @ [unat (PML4_INDEX va)]) @ [unat (PDPT_INDEX va)]) = Some g2" "free_pages s1 - 1 \<le> free_pages s2"
    "\<And>q j. length q = 3 \<Longrightarrow> leaf s2 root q j = leaf s1 root q j"
    by (rule walk_level_ok [OF keepsD(1,2) [OF 1(2)] _ 1(3) f1, of "unat (PDPT_INDEX va)"]) (simp, rule that)
  have f2: "0 < free_pages s2" using free 1(4) 2(4) by simp
  obtain g3 s3 where 3: "walk_level True (page_va g2) (unat (PD_INDEX va)) s2 = Some (Some (page_va g3), s3)" "keeps root s2 s3"
    "node s3 root ((([] @ [unat (PML4_INDEX va)]) @ [unat (PDPT_INDEX va)]) @ [unat (PD_INDEX va)]) = Some g3"
    "free_pages s2 - 1 \<le> free_pages s3" "\<And>q j. length q = 3 \<Longrightarrow> leaf s3 root q j = leaf s2 root q j"
    by (rule walk_level_ok [OF keepsD(1,2) [OF 2(2)] _ 2(3) f2, of "unat (PD_INDEX va)"]) (simp, rule that)
  show thesis
  proof (rule that)
    show "walkpml4 (page_va root) va True s = Some (Some (page_va g3, unat (PT_INDEX va)), s3)"
      by (simp add: walkpml4_def 1(1) 2(1) 3(1))
    show "keeps root s s3" using 1(2) 2(2) 3(2) keeps_trans by blast
    show "node s3 root (pt_path va) = Some g3" using 3(3) by (simp add: pt_path_def)
    show "free_pages s - 3 \<le> free_pages s3" using 1(4) 2(4) 3(4) by simp
    show "translate root s3 a = translate root s a" for a using 1(5) 2(5) 3(5) by (simp add: translate_def)
  qed
qed

section \<open>What the hardware finds\<close>

lemma table_read_ent:
  assumes ok: "kmem_ok s" "pt_ok root s" and p: "length p \<le> 3" "node s root p = Some f"
  obtains e where "table_read (page_va f) i s = Some e" "ent s f i = (if present e then Some e else None)"
proof -
  have "f < max_pages" using pt_okD(1) [OF ok(2) p] kmem_ok_max [OF ok(1)] by (simp add: page_live_def)
  moreover obtain t where "frames s f = Table t" using pt_okD(2) [OF ok(2) p] by auto
  ultimately show thesis using that by (simp add: table_read_def ent_def)
qed

lemma walk_level_look:
  assumes ok: "kmem_ok s" "pt_ok root s" and p: "length p < 3" "node s root p = Some f"
  shows "walk_level False (page_va f) i s = Some (map_option page_va (node s root (p @ [i])), s)"
proof -
  obtain e where e: "table_read (page_va f) i s = Some e" "ent s f i = (if present e then Some e else None)"
    by (rule table_read_ent [OF ok _ p(2), of i]) (use p(1) in simp, rule that)
  show ?thesis
  proof (cases "present e")
    case True
    then have "P2V (PTE_ADDR e) = page_va (entry_frame e)" using pt_okD(4) [OF ok(2) _ p(2) p(1), of i e] p(1) e(2) by simp
    then show ?thesis using True e p(2) by (simp add: walk_level_def node_append)
  qed (use e p(2) in \<open>simp add: walk_level_def node_append\<close>)
qed

lemma node_prefix: "node s f (p @ [i]) = Some g \<Longrightarrow> \<exists>h. node s f p = Some h"
  by (cases "node s f p") (auto simp: node_append)

lemma pte_at_translate:
  assumes ok: "kmem_ok s" "pt_ok root s"
  shows "pte_at (page_va root) va s = Some (translate root s va)"
proof -
  define p1 where "p1 = [unat (PML4_INDEX va)]"
  define p2 where "p2 = p1 @ [unat (PDPT_INDEX va)]"
  have p3: "pt_path va = p2 @ [unat (PD_INDEX va)]" by (simp add: pt_path_def p1_def p2_def)
  have len: "length p1 = 1" "length p2 = 2" by (simp_all add: p1_def p2_def)
  have n1: "walk_level False (page_va root) (unat (PML4_INDEX va)) s = Some (map_option page_va (node s root p1), s)"
    using walk_level_look [OF ok, of "[]" root] by (simp add: p1_def)
  have n2: "node s root p1 = Some f \<Longrightarrow>
      walk_level False (page_va f) (unat (PDPT_INDEX va)) s = Some (map_option page_va (node s root p2), s)" for f
    using walk_level_look [OF ok, of p1 f] len by (simp add: p2_def)
  have n3: "node s root p2 = Some f \<Longrightarrow>
      walk_level False (page_va f) (unat (PD_INDEX va)) s = Some (map_option page_va (node s root (pt_path va)), s)" for f
    using walk_level_look [OF ok, of p2 f] len by (simp add: p3)
  have last: "\<exists>e. table_read (page_va f) (unat (PT_INDEX va)) s = Some e \<and> translate root s va = (if present e then Some e else None)"
    if f: "node s root (pt_path va) = Some f" for f
    by (rule table_read_ent [OF ok _ f, of "unat (PT_INDEX va)"]) (simp_all add: translate_def leaf_def f)
  show ?thesis
  proof (cases "node s root (pt_path va)")
    case None
    then have "translate root s va = None" by (simp add: translate_def leaf_def)
    moreover have "node s root p1 = None \<Longrightarrow> node s root p2 = None" by (simp add: p2_def node_append)
    ultimately show ?thesis using None n1 n2 n3
      by (cases "node s root p1"; cases "node s root p2") (simp_all add: pte_at_def walkpml4_def)
  next
    case (Some f)
    then obtain f2 where f2: "node s root p2 = Some f2" using node_prefix p3 by metis
    then obtain f1 where f1: "node s root p1 = Some f1" using node_prefix p2_def by metis
    show ?thesis using last [OF Some] n1 n2 [OF f1] n3 [OF f2] f1 f2 Some by (auto simp: pte_at_def walkpml4_def)
  qed
qed

section \<open>Correctness of mappages\<close>

text \<open>Two addresses use the same entry when they agree in bits 12 to 47.\<close>

definition same_page :: "u64 \<Rightarrow> u64 \<Rightarrow> bool" where
  "same_page a b \<longleftrightarrow> take_bit 36 (drop_bit 12 a) = take_bit 36 (drop_bit 12 b)"

lemma index_bit: "bit (drop_bit k va AND 511 :: u64) n \<longleftrightarrow> n < 9 \<and> bit va (k + n)"
proof -
  have "(511 :: u64) = mask 9" by (simp add: mask_eq_exp_minus_1)
  then have "drop_bit k va AND 511 = take_bit 9 (drop_bit k va)" by (simp only: take_bit_eq_mask)
  then show ?thesis by (auto simp: bit_simps)
qed

lemma index_eq:
  "drop_bit k a AND 511 = (drop_bit k b AND 511 :: u64) \<longleftrightarrow> (\<forall>n. k \<le> n \<and> n < k + 9 \<longrightarrow> bit a n = bit b n)"
proof
  assume e: "drop_bit k a AND 511 = (drop_bit k b AND 511 :: u64)"
  show "\<forall>n. k \<le> n \<and> n < k + 9 \<longrightarrow> bit a n = bit b n"
  proof (intro allI impI)
    fix n assume "k \<le> n \<and> n < k + 9"
    then have "n - k < 9" "k + (n - k) = n" by linarith+
    then show "bit a n = bit b n" using index_bit [of k a "n - k"] index_bit [of k b "n - k"] unfolding e by simp
  qed
qed (rule bit_word_eqI, auto simp: index_bit)

lemma same_page_bits: "same_page a b \<longleftrightarrow> (\<forall>n. 12 \<le> n \<and> n < 48 \<longrightarrow> bit a n = bit b n)"
proof
  assume e: "same_page a b"
  show "\<forall>n. 12 \<le> n \<and> n < 48 \<longrightarrow> bit a n = bit b n"
  proof (intro allI impI)
    fix n :: nat assume n: "12 \<le> n \<and> n < 48"
    have "bit (take_bit 36 (drop_bit 12 a)) (n - 12) = bit (take_bit 36 (drop_bit 12 b)) (n - 12)" using e by (simp add: same_page_def)
    moreover have "n - 12 < 36" "12 + (n - 12) = n" using n by linarith+
    ultimately show "bit a n = bit b n" by (simp add: bit_simps)
  qed
next
  assume "\<forall>n. 12 \<le> n \<and> n < 48 \<longrightarrow> bit a n = bit b n"
  then show "same_page a b" unfolding same_page_def by (intro bit_word_eqI) (auto simp: bit_simps)
qed

lemma range_split:
  "i \<le> j \<Longrightarrow> j \<le> k \<Longrightarrow> (\<forall>n. i \<le> n \<and> n < k \<longrightarrow> P n) \<longleftrightarrow> (\<forall>n. i \<le> n \<and> n < j \<longrightarrow> P n) \<and> (\<forall>n. j \<le> n \<and> n < k \<longrightarrow> P (n :: nat))"
  by (meson le_trans less_le_trans not_le)

lemma path_same_page:
  "pt_path a = pt_path b \<and> unat (PT_INDEX a) = unat (PT_INDEX b) \<longleftrightarrow> same_page a b"
proof -
  have 4: "PML4_INDEX a = PML4_INDEX b \<longleftrightarrow> (\<forall>n. 39 \<le> n \<and> n < 48 \<longrightarrow> bit a n = bit b n)"
    using index_eq [of 39 a b] by (simp add: PML4_INDEX_def PML4_SHIFT_def)
  have 3: "PDPT_INDEX a = PDPT_INDEX b \<longleftrightarrow> (\<forall>n. 30 \<le> n \<and> n < 39 \<longrightarrow> bit a n = bit b n)"
    using index_eq [of 30 a b] by (simp add: PDPT_INDEX_def PDPT_SHIFT_def)
  have 2: "PD_INDEX a = PD_INDEX b \<longleftrightarrow> (\<forall>n. 21 \<le> n \<and> n < 30 \<longrightarrow> bit a n = bit b n)"
    using index_eq [of 21 a b] by (simp add: PD_INDEX_def PD_SHIFT_def)
  have 1: "PT_INDEX a = PT_INDEX b \<longleftrightarrow> (\<forall>n. 12 \<le> n \<and> n < 21 \<longrightarrow> bit a n = bit b n)"
    using index_eq [of 12 a b] by (simp add: PT_INDEX_def PT_SHIFT_def)
  have "same_page a b \<longleftrightarrow> PT_INDEX a = PT_INDEX b \<and> PD_INDEX a = PD_INDEX b \<and> PDPT_INDEX a = PDPT_INDEX b \<and> PML4_INDEX a = PML4_INDEX b"
    unfolding same_page_bits 1 2 3 4
    by (simp only: range_split [of 12 21 48] range_split [of 21 30 48] range_split [of 30 39 48] le_numeral_simps semiring_norm)
  then show ?thesis by (auto simp: pt_path_def word_unat_eq_iff [symmetric])
qed

lemma same_page_number:
  assumes "same_page (push_bit 12 x) (push_bit 12 (x + word_of_nat k) :: u64)" "k < 2 ^ 36"
  shows "k = 0"
proof -
  have t: "take_bit 36 (drop_bit 12 (push_bit 12 y)) = take_bit 36 y" for y :: u64
    by (rule bit_word_eqI) (auto simp: bit_simps)
  have m: "unat (take_bit 36 y) = unat y mod 2 ^ 36" for y :: u64 by (metis unsigned_take_bit_eq take_bit_eq_mod)
  have "unat x mod 2 ^ 36 = unat (x + word_of_nat k) mod 2 ^ 36" using assms(1) m [of x] m [of "x + word_of_nat k"] unfolding same_page_def t by simp
  also have "unat (x + word_of_nat k) = (unat x + k) mod 2 ^ 64"
    by (simp add: unat_word_ariths unat_of_nat take_bit_eq_mod mod_add_right_eq)
  also have "(unat x + k) mod 2 ^ 64 mod 2 ^ 36 = (unat x + k) mod 2 ^ 36" by (rule mod_mod_cancel) (simp add: le_imp_power_dvd)
  finally have "(2 ^ 36 :: nat) dvd (unat x + k) - unat x" using mod_eq_dvd_iff_nat [of "unat x" "unat x + k" "2 ^ 36"] by simp
  then have "(2 ^ 36 :: nat) dvd k" by simp
  then show "k = 0" using assms(2) nat_dvd_not_less by blast
qed

lemma mark_keeps:
  fixes x :: int and y :: u64
  assumes ok: "kmem_ok s" "pt_ok root s" and l: "page_live s i"
  defines "s' \<equiv> set_cme i ((core_map s ! i)\<lparr>cuser := x, cva := y\<rparr>) s"
  shows "keeps root s s'" "translate root s' a = translate root s a" "free_pages s' = free_pages s"
proof -
  have i: "i < length (core_map s)" using l kmem_okD(3) [OF ok(1)] by (simp add: page_live_def)
  have e: "ent s' g j = ent s g j" for g j by (simp add: s'_def set_cme_def ent_def)
  have n: "node s' f q = node s f q" for f q by (rule node_cong) (rule e)
  have v: "page_live s' x = page_live s x" for x using i by (auto simp: s'_def set_cme_def page_live_def live_def nth_upd)
  have fr: "frames s' = frames s" by (simp add: s'_def set_cme_def)
  have "pt_ok root s'" using ok(2) unfolding pt_ok_def n e v fr .
  then show "keeps root s s'" using mark_ok(3) [OF ok(1) l, where x = x and y = y] by (simp add: keeps_def n v fr is_table_def s'_def [symmetric])
  show "translate root s' a = translate root s a" by (simp add: translate_def leaf_def n e split: option.split)
  show "free_pages s' = free_pages s" by (simp add: s'_def set_cme_def)
qed

lemma write_keeps:
  assumes ok: "kmem_ok s" "pt_ok root s" and g: "node s root (pt_path va) = Some g" and e: "present e"
  obtains s' where "table_write (page_va g) (unat (PT_INDEX va)) e s = Some s'" "keeps root s s'"
    "\<And>a. translate root s' a = (if same_page a va then Some e else translate root s a)" "free_pages s' = free_pages s"
proof -
  have lg: "page_live s g" using pt_okD(1) [OF ok(2) _ g] by simp
  then have gm: "g < max_pages" using kmem_ok_max [OF ok(1)] by (simp add: page_live_def)
  obtain t where t: "frames s g = Table t" using pt_okD(2) [OF ok(2) _ g] by auto
  define s' where "s' = s\<lparr>frames := (frames s)(g := Table (t(unat (PT_INDEX va) := e)))\<rparr>"
  have fr: "frames s' = (frames s)(g := Table (t(unat (PT_INDEX va) := e)))" by (simp add: s'_def)
  have lv: "page_live s' x = page_live s x" for x by (simp add: s'_def)
  note w = write_leaf [OF ok(2) length_pt_path g t fr]
  have inner: "h \<noteq> g" if "node s root q = Some h" "length q < 3" for q h
    using pt_okD(3) [OF ok(2) _ that(1), of "pt_path va"] g that(2) by auto
  have n: "node s' root q = node s root q" if "length q \<le> 3" for q
    by (rule node_cong) (use inner that in \<open>auto simp: ent_def fr\<close>)
  have "is_table root s g" unfolding is_table_def using g by (intro exI [of _ "pt_path va"]) simp
  then have k: "keeps root s s'" unfolding keeps_def
    using ok(1) w(2) lv n by (auto simp: is_table_def fr) (simp add: s'_def)
  show thesis
  proof (rule that [OF _ k])
    show "table_write (page_va g) (unat (PT_INDEX va)) e s = Some s'" using gm t by (simp add: table_write_def s'_def)
    show "translate root s' a = (if same_page a va then Some e else translate root s a)" for a
      using w(1) [of "pt_path a" "unat (PT_INDEX a)"] e lv by (simp add: translate_def path_same_page)
    show "free_pages s' = free_pages s" by (simp add: s'_def)
  qed
qed

lemma map_page_ok:
  assumes ok: "kmem_ok s" "pt_ok root s" and free: "3 \<le> free_pages s" and pr: "present perm"
    and l: "\<not> kern \<Longrightarrow> page_live s (unat phy_pn)" and u: "translate root s (push_bit 12 virt_pn) = None"
  obtains s' where "map_page (page_va root) virt_pn phy_pn perm kern s = Some s'" "keeps root s s'"
    "\<And>a. translate root s' a = (if same_page a (push_bit 12 virt_pn) then Some (PTE (push_bit 12 phy_pn) perm) else translate root s a)"
    "free_pages s - 3 \<le> free_pages s'"
proof -
  obtain g s1 where 1: "walkpml4 (page_va root) (push_bit 12 virt_pn) True s = Some (Some (page_va g, unat (PT_INDEX (push_bit 12 virt_pn))), s1)"
    "keeps root s s1" "node s1 root (pt_path (push_bit 12 virt_pn)) = Some g" "free_pages s - 3 \<le> free_pages s1"
    "\<And>a. translate root s1 a = translate root s a"
    by (rule walkpml4_ok [OF ok free, of "push_bit 12 virt_pn"]) (rule that)
  note ok1 = keepsD(1,2) [OF 1(2)]
  obtain e where e: "table_read (page_va g) (unat (PT_INDEX (push_bit 12 virt_pn))) s1 = Some e"
    "ent s1 g (unat (PT_INDEX (push_bit 12 virt_pn))) = (if present e then Some e else None)"
    by (rule table_read_ent [OF ok1 _ 1(3)]) (simp, rule that)
  have "translate root s1 (push_bit 12 virt_pn) = (if present e then Some e else None)" using e(2) 1(3) by (simp add: translate_def leaf_def)
  then have ne: "\<not> present e" using 1(5) [of "push_bit 12 virt_pn"] u by (simp split: if_splits)
  have "bit (PTE (push_bit 12 phy_pn) perm) 0 = bit perm 0" by (simp add: PTE_def bit_simps)
  then have pp: "present (PTE (push_bit 12 phy_pn) perm)" using pr by (simp add: present_def PTE_P_def and_one_eq bit_0 odd_iff_mod_2_eq_one [symmetric])
  obtain s2 where 2: "table_write (page_va g) (unat (PT_INDEX (push_bit 12 virt_pn))) (PTE (push_bit 12 phy_pn) perm) s1 = Some s2" "keeps root s1 s2"
    "\<And>a. translate root s2 a = (if same_page a (push_bit 12 virt_pn) then Some (PTE (push_bit 12 phy_pn) perm) else translate root s1 a)"
    "free_pages s2 = free_pages s1"
    by (rule write_keeps [OF ok1 1(3) pp]) (rule that)
  have k2: "keeps root s s2" using 1(2) 2(2) by (rule keeps_trans)
  show thesis
  proof (cases kern)
    case True
    then have "map_page (page_va root) virt_pn phy_pn perm kern s = Some s2" using 1(1) e(1) ne 2(1) by (simp add: map_page_def PT_SHIFT_def)
    then show thesis using that [OF _ k2] 1(4,5) 2(3,4) by simp
  next
    case False
    have lv: "page_live s2 (unat phy_pn)" using keepsD(3) [OF k2] l [OF False] .
    have pa: "push_bit 12 phy_pn = page2pa (unat phy_pn)" by (simp add: page2pa_def PT_SHIFT_def)
    note mk = mark_keeps [OF keepsD(1,2) [OF k2] lv, where x = 1 and y = "push_bit 12 virt_pn"]
    have "map_page (page_va root) virt_pn phy_pn perm kern s =
        Some (set_cme (unat phy_pn) ((core_map s2 ! unat phy_pn)\<lparr>cuser := 1, cva := push_bit 12 virt_pn\<rparr>) s2)"
      using False 1(1) e(1) ne 2(1) mark_ok(1) [OF keepsD(1) [OF k2] lv] pa by (simp add: map_page_def PT_SHIFT_def)
    then show thesis by (rule that) (use keeps_trans [OF k2 mk(1)] mk(2,3) 1(4,5) 2(3,4) in simp_all)
  qed
qed

lemma mappages_run:
  assumes "kmem_ok s" "pt_ok root s" "3 * int n \<le> free_pages s" "n \<le> 2 ^ 36" "present perm"
    and "\<not> kern \<Longrightarrow> \<forall>k < n. page_live s (unat (phy_pn + word_of_nat k))"
    and "\<forall>k < n. translate root s (push_bit 12 (virt_pn + word_of_nat k)) = None"
  shows "\<exists>s'. mappages (page_va root) virt_pn n phy_pn perm kern s = Some s' \<and> keeps root s s' \<and>
    (\<forall>k < n. translate root s' (push_bit 12 (virt_pn + word_of_nat k)) = Some (PTE (push_bit 12 (phy_pn + word_of_nat k)) perm)) \<and>
    (\<forall>a. (\<forall>k < n. \<not> same_page a (push_bit 12 (virt_pn + word_of_nat k))) \<longrightarrow> translate root s' a = translate root s a)"
  using assms
proof (induction n arbitrary: s virt_pn phy_pn)
  case 0 then show ?case by (simp add: keeps_refl)
next
  case (Suc n)
  obtain s1 where 1: "map_page (page_va root) virt_pn phy_pn perm kern s = Some s1" "keeps root s s1"
    "\<And>a. translate root s1 a = (if same_page a (push_bit 12 virt_pn) then Some (PTE (push_bit 12 phy_pn) perm) else translate root s a)"
    "free_pages s - 3 \<le> free_pages s1"
    by (rule map_page_ok [of s root perm kern phy_pn virt_pn]) (use Suc.prems in \<open>auto dest: spec [of _ 0]\<close>)
  have sh: "x + 1 + word_of_nat k = x + word_of_nat (Suc k)" for x :: u64 and k by simp
  have diff: "\<not> same_page (push_bit 12 (virt_pn + word_of_nat (Suc k))) (push_bit 12 virt_pn)" if "k < n" for k
    using same_page_number [of virt_pn "Suc k"] that Suc.prems(4) by (auto simp: same_page_def simp del: of_nat_Suc)
  obtain s2 where 2: "mappages (page_va root) (virt_pn + 1) n (phy_pn + 1) perm kern s1 = Some s2" "keeps root s1 s2"
    "\<And>k. k < n \<Longrightarrow> translate root s2 (push_bit 12 (virt_pn + word_of_nat (Suc k))) = Some (PTE (push_bit 12 (phy_pn + word_of_nat (Suc k))) perm)"
    "\<And>a. (\<forall>k < n. \<not> same_page a (push_bit 12 (virt_pn + word_of_nat (Suc k)))) \<Longrightarrow> translate root s2 a = translate root s1 a"
  proof -
    have u: "\<forall>k < n. translate root s1 (push_bit 12 (virt_pn + 1 + word_of_nat k)) = None"
      unfolding sh using 1(3) diff Suc.prems(7) by (simp del: of_nat_Suc)
    have l: "\<forall>k < n. page_live s1 (unat (phy_pn + 1 + word_of_nat k))" if "\<not> kern"
      unfolding sh using Suc.prems(6) [OF that] keepsD(3) [OF 1(2)] by (simp del: of_nat_Suc)
    show thesis using Suc.IH [OF keepsD(1,2) [OF 1(2)] _ _ Suc.prems(5) l u] Suc.prems(3,4) 1(4) that unfolding sh by auto
  qed
  have "mappages (page_va root) virt_pn (Suc n) phy_pn perm kern s = Some s2" using 1(1) 2(1) by simp
  moreover have "keeps root s s2" using 1(2) 2(2) by (rule keeps_trans)
  moreover have "translate root s2 (push_bit 12 (virt_pn + word_of_nat k)) = Some (PTE (push_bit 12 (phy_pn + word_of_nat k)) perm)" if "k < Suc n" for k
  proof (cases k)
    case 0
    have "translate root s2 (push_bit 12 virt_pn) = translate root s1 (push_bit 12 virt_pn)"
      by (rule 2(4)) (use diff in \<open>simp add: same_page_def del: of_nat_Suc\<close>, metis)
    then show ?thesis using 0 1(3) by (simp add: same_page_def)
  next
    case (Suc j) then show ?thesis using 2(3) [of j] that by simp
  qed
  moreover have "translate root s2 a = translate root s a" if h: "\<forall>k < Suc n. \<not> same_page a (push_bit 12 (virt_pn + word_of_nat k))" for a
  proof -
    have "\<not> same_page a (push_bit 12 virt_pn)" using h by (auto dest: spec [of _ 0])
    then show ?thesis using 2(4) [of a] 1(3) [of a] h by (simp del: of_nat_Suc)
  qed
  ultimately show ?case by blast
qed

text \<open>
  C4. \<open>mappages\<close> does what its name says. On a page table that is a tree, with three free pages for each page to map and no mapping there yet, it
  returns, and then the hardware finds for each of the \<open>n\<close> pages the entry with its physical page and permission, for every other address what it
  found before; the page table is a tree again, the allocator is in order, and no page in use is written that is not a table of this page table.
\<close>

theorem mappages_correct:
  assumes "kmem_ok s" "pt_ok root s" "3 * int n \<le> free_pages s" "n \<le> 2 ^ 36" "present perm"
    and "\<not> kern \<Longrightarrow> \<forall>k < n. page_live s (unat (phy_pn + word_of_nat k))"
    and "\<forall>k < n. pte_at (page_va root) (push_bit 12 (virt_pn + word_of_nat k)) s = Some None"
  shows "\<exists>s'. mappages (page_va root) virt_pn n phy_pn perm kern s = Some s' \<and> kmem_ok s' \<and> pt_ok root s' \<and>
    (\<forall>k < n. pte_at (page_va root) (push_bit 12 (virt_pn + word_of_nat k)) s' = Some (Some (PTE (push_bit 12 (phy_pn + word_of_nat k)) perm))) \<and>
    (\<forall>va. (\<forall>k < n. \<not> same_page va (push_bit 12 (virt_pn + word_of_nat k))) \<longrightarrow>
       pte_at (page_va root) va s' = pte_at (page_va root) va s) \<and>
    (\<forall>f. page_live s f \<longrightarrow> \<not> is_table root s f \<longrightarrow> frames s' f = frames s f)"
proof -
  have "\<forall>k < n. translate root s (push_bit 12 (virt_pn + word_of_nat k)) = None"
    using assms(7) by (simp add: pte_at_translate [OF assms(1,2)])
  from mappages_run [OF assms(1-6) this]
  obtain s' where m: "mappages (page_va root) virt_pn n phy_pn perm kern s = Some s'" and k: "keeps root s s'"
    and t: "\<forall>k < n. translate root s' (push_bit 12 (virt_pn + word_of_nat k)) = Some (PTE (push_bit 12 (phy_pn + word_of_nat k)) perm)"
      "\<forall>a. (\<forall>k < n. \<not> same_page a (push_bit 12 (virt_pn + word_of_nat k))) \<longrightarrow> translate root s' a = translate root s a"
    by blast
  have "\<forall>f. page_live s f \<longrightarrow> \<not> is_table root s f \<longrightarrow> frames s' f = frames s f" using k by (simp add: keeps_def)
  then show ?thesis
    using m t keepsD(1,2) [OF k] by (simp add: pte_at_translate [OF assms(1,2)] pte_at_translate [OF keepsD(1,2) [OF k]])
qed

text \<open>Six pages: the kernel, an empty page table in page 1, a page of a user in page 2, and three free pages.\<close>

definition kmem_pt :: kmem where
  "kmem_pt = \<lparr>npages = 6, pages_in_use = 2, pages_in_swap = 0, free_pages = 3,
     core_map = [cme_zero, \<lparr>available = 0, cuser = 0, cva = 0, cref = 1\<rparr>, \<lparr>available = 0, cuser = 0, cva = 0, cref = 1\<rparr>,
       cme_free, cme_free, cme_free],
     frames = (\<lambda>f. if f = 1 then zero_table else zero_bytes), klock = initlock ''kmem'', use_lock = True, kend = KERNBASE, rnext = 1\<rparr>"

lemma kmem_pt_ok: "kmem_ok kmem_pt"
proof -
  have "i < 6 \<Longrightarrow> KERNBASE \<le> page_va i" for i
    using unat_page_va [of i] by (simp add: word_le_nat_alt max_pages_def)
  then have "map_ok 6 KERNBASE (core_map kmem_pt)"
    unfolding map_ok_def
    by (auto simp: kmem_pt_def entry_ok_def avail_def live_def cme_zero_def cme_free_def numeral_eq_Suc less_Suc_eq)
  then show ?thesis
    by (simp add: kmem_ok_def max_pages_def initlock_free)
      (simp add: kmem_pt_def avail_def live_def cme_zero_def cme_free_def initlock_free)
qed

lemma kmem_pt_tree: "pt_ok 1 kmem_pt" "translate 1 kmem_pt va = None"
proof -
  have e: "ent kmem_pt 1 i = None" for i by (simp add: ent_def kmem_pt_def zero_table_def present_def)
  then have n: "node kmem_pt 1 p = (if p = [] then Some 1 else None)" for p by (cases p) auto
  show "pt_ok 1 kmem_pt"
    unfolding pt_ok_def n using e by (auto simp: page_live_def live_def kmem_pt_def zero_table_def)
  show "translate 1 kmem_pt va = None" unfolding translate_def leaf_def n by (simp add: pt_path_def)
qed

theorem mappages_correct_witness:
  "\<exists>s'. mappages (page_va 1) 16 1 2 7 False kmem_pt = Some s' \<and>
     pte_at (page_va 1) 0x10000 s' = Some (Some 0x2007) \<and> pte_at (page_va 1) 0x11000 s' = Some None"
proof -
  note pre = kmem_pt_ok kmem_pt_tree(1) pte_at_translate [OF kmem_pt_ok kmem_pt_tree(1), unfolded kmem_pt_tree(2)]
  have l: "page_live kmem_pt (unat (2 + word_of_nat 0 :: u64))" by (simp add: page_live_def live_def kmem_pt_def)
  have d: "\<not> same_page 0x11000 0x10000" by (simp add: same_page_def)
  have "present 7" by (simp add: present_def PTE_P_def)
  then obtain s' where "mappages (page_va 1) 16 1 2 7 False kmem_pt = Some s'"
    "pte_at (page_va 1) (push_bit 12 (16 + word_of_nat 0)) s' = Some (Some (PTE (push_bit 12 (2 + word_of_nat 0)) 7))"
    "\<forall>va. \<not> same_page va (push_bit 12 (16 + word_of_nat 0)) \<longrightarrow> pte_at (page_va 1) va s' = pte_at (page_va 1) va kmem_pt"
    using mappages_correct [of kmem_pt 1 1 7 False 2 16] pre l by (auto simp: kmem_pt_def [THEN arg_cong, of free_pages])
  then show ?thesis using d pre(3) by (auto simp: PTE_def)
qed

end
