(* ===== verification/Xk_Vspace.thy ===== *)
theory Xk_Vspace
  imports Xk_Vm Xk_Dir
begin

text \<open>
  Address spaces, \<open>kernel/vspace.c\<close>: regions with their lists of page descriptors, growing and shrinking a region, loading
  data and programs into it, rebuilding the page table from the regions, copying an address space
  for \<open>fork\<close> with copy-on-write, and the checks on user addresses. A \<open>struct vpage_info *\<close> is the kernel address of a descriptor
  page with an index into it. An operation that changes the region it is given returns the new region.
\<close>

section \<open>Regions (inc/vspace.h)\<close>

datatype vr_direction = VRDIR_UP | VRDIR_DOWN

record vregion =
  vr_dir :: vr_direction
  va_base :: u64
  vr_size :: u64
  vr_pages :: u64

record vspace =
  regions :: "vregion list"
  pgtbl :: u64

definition NREGIONS :: nat where "NREGIONS = 3"
definition VR_CODE :: nat where "VR_CODE = 0"
definition VR_HEAP :: nat where "VR_HEAP = 1"
definition VR_USTACK :: nat where "VR_USTACK = 2"

definition VRTOP :: "vregion \<Rightarrow> u64" where
  "VRTOP r = (if vr_dir r = VRDIR_UP then va_base r + vr_size r else va_base r)"

definition VRBOT :: "vregion \<Rightarrow> u64" where
  "VRBOT r = (if vr_dir r = VRDIR_UP then va_base r else va_base r - vr_size r)"

definition vregion_zero :: vregion where
  "vregion_zero = \<lparr>vr_dir = VRDIR_UP, va_base = 0, vr_size = 0, vr_pages = 0\<rparr>"

definition upd_region :: "nat \<Rightarrow> (vregion \<Rightarrow> vregion) \<Rightarrow> vspace \<Rightarrow> vspace" where
  "upd_region i f vs = vs\<lparr>regions := (regions vs)[i := f (regions vs ! i)]\<rparr>"

section \<open>Page descriptors\<close>

definition va2vpi_idx :: "vregion \<Rightarrow> u64 \<Rightarrow> int" where
  "va2vpi_idx r va = c_int (uint (drop_bit PT_SHIFT
     (if vr_dir r = VRDIR_UP then va - va_base r else va_base r - 1 - va)))"

definition x86perms :: "vpage_info \<Rightarrow> u64" where
  "x86perms vpi = PTE_U OR (if vpresent vpi \<noteq> 0 then PTE_P else 0) OR (if writable vpi \<noteq> 0 then PTE_W else 0)"

definition vpi_read :: "u64 \<Rightarrow> nat \<Rightarrow> kmem \<Rightarrow> vpage_info option" where
  "vpi_read p i s = (case frames s (frame_of p) of
      VpiPage infos next \<Rightarrow> if i < length infos then Some (infos ! i) else None
    | _ \<Rightarrow> None)"

definition vpi_write :: "u64 \<Rightarrow> nat \<Rightarrow> vpage_info \<Rightarrow> kmem \<Rightarrow> kmem option" where
  "vpi_write p i v s = (case frames s (frame_of p) of
      VpiPage infos next \<Rightarrow> Some (s\<lparr>frames := (frames s)(frame_of p := VpiPage (infos[i := v]) next)\<rparr>)
    | _ \<Rightarrow> None)"

definition vpi_next :: "u64 \<Rightarrow> kmem \<Rightarrow> u64 option" where
  "vpi_next p s = (case frames s (frame_of p) of VpiPage infos next \<Rightarrow> Some next | _ \<Rightarrow> None)"

definition vpi_set_next :: "u64 \<Rightarrow> u64 \<Rightarrow> kmem \<Rightarrow> kmem option" where
  "vpi_set_next p q s = (case frames s (frame_of p) of
      VpiPage infos next \<Rightarrow> Some (s\<lparr>frames := (frames s)(frame_of p := VpiPage infos q)\<rparr>)
    | _ \<Rightarrow> None)"

text \<open>
  The loop of \<open>va2vpage_info\<close> along the list of descriptor pages; \<open>idx\<close> is compared with \<open>VPIPPAGE\<close> as an unsigned 64-bit
  number.
\<close>

partial_function (option) vpi_walk :: "u64 \<Rightarrow> int \<Rightarrow> kmem \<Rightarrow> ((u64 \<times> nat) option \<times> kmem) option" where
  "vpi_walk info idx s =
     (if (word_of_int idx :: u64) \<ge> word_of_nat VPIPPAGE then do {
        nxt \<leftarrow> vpi_next info s;
        (if nxt = 0 then do {
           (p, s) \<leftarrow> kalloc s;
           s \<leftarrow> vpi_set_next info p s;
           (if p = 0 then Some (None, s)
            else vpi_walk p (c_int (idx - int VPIPPAGE)) (clear_page zero_vpis p s)) }
         else vpi_walk nxt (c_int (idx - int VPIPPAGE)) s) }
      else Some (Some (info, nat idx), s))"

text \<open>The first descriptor page is allocated without a check; writing through the null pointer does not return.\<close>

definition va2vpage_info :: "vregion \<Rightarrow> u64 \<Rightarrow> kmem \<Rightarrow> ((u64 \<times> nat) option \<times> vregion \<times> kmem) option" where
  "va2vpage_info vr va s = do {
     (vr, s) \<leftarrow> (if vr_pages vr = 0 then do {
                    (p, s) \<leftarrow> kalloc s;
                    (if p = 0 then None else Some (vr\<lparr>vr_pages := p\<rparr>, clear_page zero_vpis p s)) }
                  else Some (vr, s));
     (r, s) \<leftarrow> vpi_walk (vr_pages vr) (va2vpi_idx vr va) s;
     Some (r, vr, s) }"

section \<open>Growing and shrinking a region\<close>

definition page_of_vpi :: "vpage_info \<Rightarrow> u64" where
  "page_of_vpi vpi = P2V (push_bit PT_SHIFT (ppn vpi))"

text \<open>The clean-up loop of \<open>vregionaddmap\<close>, from \<open>a\<close> down to \<open>lo\<close>.\<close>

partial_function (option) addmap_undo :: "u64 \<Rightarrow> u64 \<Rightarrow> vregion \<Rightarrow> kmem \<Rightarrow> (vregion \<times> kmem) option" where
  "addmap_undo lo a vr s =
     (if a \<ge> lo then do {
        (r, vr, s) \<leftarrow> va2vpage_info vr a s;
        (case r of None \<Rightarrow> None | Some (p, i) \<Rightarrow> do {
           vpi \<leftarrow> vpi_read p i s;
           s \<leftarrow> kfree (page_of_vpi vpi) s;
           s \<leftarrow> vpi_write p i (vpi\<lparr>vused := 0, vpresent := 0, writable := 0, ppn := 0\<rparr>) s;
           addmap_undo lo (a - PGSIZE) vr s }) }
      else Some (vr, s))"

text \<open>The mapping loop; it ends at \<open>hi\<close> (\<open>Inr\<close>) or fails at an address (\<open>Inl\<close>).\<close>

partial_function (option) addmap_loop ::
    "u64 \<Rightarrow> u64 \<Rightarrow> int \<Rightarrow> int \<Rightarrow> vregion \<Rightarrow> kmem \<Rightarrow> ((u64 + unit) \<times> vregion \<times> kmem) option" where
  "addmap_loop a hi pres wr vr s =
     (if a < hi then do {
        (r, vr, s) \<leftarrow> va2vpage_info vr a s;
        (case r of None \<Rightarrow> Some (Inl a, vr, s) | Some (p, i) \<Rightarrow> do {
           (m, s) \<leftarrow> kalloc s;
           (if m = 0 then Some (Inl a, vr, s)
            else do {
              let s = clear_page zero_bytes m s;
              vpi \<leftarrow> vpi_read p i s;
              s \<leftarrow> vpi_write p i (vpi\<lparr>vused := 1, vpresent := pres, writable := wr, ppn := PGNUM (V2P m)\<rparr>) s;
              addmap_loop (a + PGSIZE) hi pres wr vr s }) }) }
      else Some (Inr (), vr, s))"

definition vregionaddmap :: "vregion \<Rightarrow> u64 \<Rightarrow> u64 \<Rightarrow> int \<Rightarrow> int \<Rightarrow> kmem \<Rightarrow> (int \<times> vregion \<times> kmem) option" where
  "vregionaddmap vr from_va sz pres wr s =
     (if sz + from_va \<ge> KERNBASE then Some (-1, vr, s)
      else if sz = 0 then Some (0, vr, s)
      else do {
        (r, vr, s) \<leftarrow> addmap_loop (PGROUNDUP from_va) (from_va + sz) pres wr vr s;
        (case r of
           Inr _ \<Rightarrow> Some (c_int (uint sz), vr, s)
         | Inl a \<Rightarrow> do {
             (vr, s) \<leftarrow> addmap_undo (PGROUNDUP from_va) (a - PGSIZE) vr s;
             Some (-1, vr, s) }) })"

text \<open>
  \<open>-sz + from_va < 0\<close> compares an unsigned number with 0, so the early return of \<open>vregiondelmap\<close> is never taken.
\<close>

partial_function (option) delmap_loop :: "u64 \<Rightarrow> u64 \<Rightarrow> vregion \<Rightarrow> kmem \<Rightarrow> (bool \<times> vregion \<times> kmem) option" where
  "delmap_loop lo a vr s =
     (if a \<ge> lo then do {
        (r, vr, s) \<leftarrow> va2vpage_info vr a s;
        (case r of None \<Rightarrow> Some (False, vr, s) | Some (p, i) \<Rightarrow> do {
           vpi \<leftarrow> vpi_read p i s;
           (if vused vpi \<noteq> 0 then do {
              s \<leftarrow> kfree (page_of_vpi vpi) s;
              s \<leftarrow> vpi_write p i (vpi\<lparr>vused := 0, vpresent := 0, writable := 0, ppn := 0\<rparr>) s;
              delmap_loop lo (a - PGSIZE) vr s }
            else delmap_loop lo (a - PGSIZE) vr s) }) }
      else Some (True, vr, s))"

definition vregiondelmap :: "vregion \<Rightarrow> u64 \<Rightarrow> u64 \<Rightarrow> kmem \<Rightarrow> (int \<times> vregion \<times> kmem) option" where
  "vregiondelmap vr from_va sz s =
     (if - sz + from_va < 0 then Some (-1, vr, s)
      else do {
        (done, vr, s) \<leftarrow> delmap_loop (from_va - sz) (PGROUNDDOWN from_va) vr s;
        Some (if done then c_int (uint sz) else -1, vr, s) })"

section \<open>Data of a region\<close>

text \<open>\<open>memmove\<close> to the address \<open>v + off\<close> of a page, from a buffer of the kernel.\<close>

definition page_store :: "u64 \<Rightarrow> nat \<Rightarrow> u8 list \<Rightarrow> kmem \<Rightarrow> kmem option" where
  "page_store v off bs s = (case frames s (frame_of v) of
      Bytes b \<Rightarrow> if off + length bs \<le> unat PGSIZE
        then Some (s\<lparr>frames := (frames s)(frame_of v :=
               Bytes (\<lambda>k. if off \<le> k \<and> k < off + length bs then bs ! (k - off) else b k))\<rparr>)
        else None
    | _ \<Rightarrow> None)"

text \<open>The copying loop of \<open>vradddata\<close>: \<open>data\<close> is what is left from offset \<open>i\<close> on.\<close>

function add_data_loop :: "u64 \<Rightarrow> u8 list \<Rightarrow> vregion \<Rightarrow> kmem \<Rightarrow> (vregion \<times> kmem) option" where
  "add_data_loop va data r s =
     (if data = [] then Some (r, s)
      else do {
        (v, r, s) \<leftarrow> va2vpage_info r va s;
        (case v of None \<Rightarrow> None | Some (p, k) \<Rightarrow> do {
           vpi \<leftarrow> vpi_read p k s;
           (if vused vpi = 0 then None
            else do {
              s \<leftarrow> page_store (page_of_vpi vpi) 0 (take (unat PGSIZE) data) s;
              add_data_loop (va + PGSIZE) (drop (unat PGSIZE) data) r s }) }) })"
  by pat_completeness auto
termination
  by (relation "measure (\<lambda>(va, data, r, s). length data)") (auto simp: PGSIZE_def)

declare add_data_loop.simps [simp del]

definition vradddata :: "vregion \<Rightarrow> u64 \<Rightarrow> u8 list \<Rightarrow> int \<Rightarrow> int \<Rightarrow> kmem \<Rightarrow> (int \<times> vregion \<times> kmem) option" where
  "vradddata r va data pres wr s = do {
     (ret, r, s) \<leftarrow> vregionaddmap r va (word_of_nat (length data)) pres wr s;
     (if ret < 0 then Some (ret, r, s)
      else do {
        (r, s) \<leftarrow> add_data_loop va data r s;
        Some (0, r, s) }) }"

text \<open>\<open>vrloaddata\<close> reads a file into the region, page by page; \<open>i\<close> counts up to \<open>sz\<close>.\<close>

function load_loop :: "int \<Rightarrow> devsw \<Rightarrow> iptr \<Rightarrow> u64 \<Rightarrow> u32 \<Rightarrow> nat \<Rightarrow> nat \<Rightarrow> vregion \<Rightarrow> fs \<Rightarrow> kmem \<Rightarrow> (bool \<times> vregion \<times> fs \<times> kmem) option" where
  "load_loop p dv ip va offset i sz r f s =
     (if i < sz then do {
        (v, r, s) \<leftarrow> va2vpage_info r (va + word_of_nat i) s;
        (case v of None \<Rightarrow> None | Some (q, k) \<Rightarrow> do {
           vpi \<leftarrow> vpi_read q k s;
           (if vused vpi = 0 then None
            else do {
              let n = min (sz - i) (unat PGSIZE);
              (got, bytes, f) \<leftarrow> readi p dv ip (offset + word_of_nat i) (word_of_nat n) f;
              s \<leftarrow> page_store (page_of_vpi vpi) 0 bytes s;
              (if (word_of_int got :: u32) \<noteq> word_of_nat n then Some (False, r, f, s)
               else load_loop p dv ip va offset (i + unat PGSIZE) sz r f s) }) }) }
      else Some (True, r, f, s))"
  by pat_completeness auto
termination
  by (relation "measure (\<lambda>(p, dv, ip, va, offset, i, sz, r, f, s). sz - i)") (auto simp: PGSIZE_def)

declare load_loop.simps [simp del]

definition vrloaddata :: "int \<Rightarrow> devsw \<Rightarrow> vregion \<Rightarrow> u64 \<Rightarrow> iptr \<Rightarrow> u32 \<Rightarrow> u32 \<Rightarrow> fs \<Rightarrow> kmem \<Rightarrow> (int \<times> vregion \<times> fs \<times> kmem) option" where
  "vrloaddata p dv r va ip offset sz f s =
     (if va mod PGSIZE \<noteq> 0 then None
      else do {
        (ok, r, f, s) \<leftarrow> load_loop p dv ip va offset 0 (unat sz) r f s;
        Some (if ok then 0 else -1, r, f, s) })"

section \<open>Setting up an address space\<close>

definition vspaceinit :: "u64 \<Rightarrow> vspace \<Rightarrow> kmem \<Rightarrow> (int \<times> vspace \<times> kmem) option" where
  "vspaceinit kdata vs s = do {
     (pml4, s) \<leftarrow> setupkvm kdata s;
     let vs = vs\<lparr>pgtbl := pml4\<rparr>;
     (if pml4 = 0 then Some (-1, vs, s)
      else do {
        let vs = vs\<lparr>regions := replicate NREGIONS vregion_zero\<rparr>;
        let vs = upd_region VR_CODE (vr_dir_update (\<lambda>_. VRDIR_UP)) vs;
        let vs = upd_region VR_HEAP (vr_dir_update (\<lambda>_. VRDIR_UP)) vs;
        let vs = upd_region VR_USTACK (vr_dir_update (\<lambda>_. VRDIR_DOWN)) vs;
        Some (0, vs, s) }) }"

text \<open>
  Rebuilding the page table: the user entries are dropped with their tables, then every page of every region is mapped
  with the permissions of its descriptor.
\<close>

fun invalidate_free :: "u64 \<Rightarrow> nat list \<Rightarrow> kmem \<Rightarrow> kmem option" where
  "invalidate_free pml4 [] s = Some s"
| "invalidate_free pml4 (i # is) s = do {
     e \<leftarrow> table_read pml4 i s;
     s \<leftarrow> (if present e then do {
             s \<leftarrow> freevm_pdpt (P2V (PTE_ADDR e)) s;
             table_write pml4 i 0 s }
           else Some s);
     invalidate_free pml4 is s }"

partial_function (option) map_region :: "u64 \<Rightarrow> u64 \<Rightarrow> u64 \<Rightarrow> vregion \<Rightarrow> kmem \<Rightarrow> (vregion \<times> kmem) option" where
  "map_region pml4 start end vr s =
     (if start < end then do {
        (r, vr, s) \<leftarrow> va2vpage_info vr start s;
        (case r of None \<Rightarrow> None | Some (p, i) \<Rightarrow> do {
           vpi \<leftarrow> vpi_read p i s;
           s \<leftarrow> mappages pml4 (drop_bit PT_SHIFT start) 1 (ppn vpi) (x86perms vpi) False s;
           map_region pml4 (start + PGSIZE) end vr s }) }
      else Some (vr, s))"

fun map_regions :: "u64 \<Rightarrow> vregion list \<Rightarrow> kmem \<Rightarrow> (vregion list \<times> kmem) option" where
  "map_regions pml4 [] s = Some ([], s)"
| "map_regions pml4 (vr # vrs) s =
     (if VRBOT vr mod PGSIZE \<noteq> 0 then None
      else do {
        (vr, s) \<leftarrow> map_region pml4 (VRBOT vr) (VRTOP vr) vr s;
        (vrs, s) \<leftarrow> map_regions pml4 vrs s;
        Some (vr # vrs, s) })"

definition vspaceinvalidate :: "vspace \<Rightarrow> kmem \<Rightarrow> (vspace \<times> kmem) option" where
  "vspaceinvalidate vs s = do {
     s \<leftarrow> invalidate_free (pgtbl vs) [0..<Suc (unat (PML4_INDEX SZ_4G))] s;
     (rs, s) \<leftarrow> map_regions (pgtbl vs) (regions vs) s;
     Some (vs\<lparr>regions := rs\<rparr>, s) }"

definition vspaceinitcode :: "vspace \<Rightarrow> u8 list \<Rightarrow> kmem \<Rightarrow> (vspace \<times> kmem) option" where
  "vspaceinitcode vs init s = do {
     let size = word_of_nat (length init);
     let vs = upd_region VR_CODE (\<lambda>r. r\<lparr>va_base := 0, vr_size := PGROUNDUP size\<rparr>) vs;
     (ret, r, s) \<leftarrow> vradddata (regions vs ! VR_CODE) 0 init 1 1 s;
     let vs = upd_region VR_CODE (\<lambda>_. r) vs;
     (if ret \<noteq> 0 then None
      else do {
        let stack = PGROUNDUP size + push_bit PT_SHIFT 2;
        let vs = upd_region VR_USTACK (\<lambda>r. r\<lparr>va_base := stack, vr_size := PGSIZE\<rparr>) vs;
        (ret, r, s) \<leftarrow> vregionaddmap (regions vs ! VR_USTACK) (stack - PGSIZE) PGSIZE 1 1 s;
        let vs = upd_region VR_USTACK (\<lambda>_. r) vs;
        (if ret < 0 then None else vspaceinvalidate vs s) }) }"

definition vspaceinitstack :: "vspace \<Rightarrow> u64 \<Rightarrow> kmem \<Rightarrow> (int \<times> vspace \<times> kmem) option" where
  "vspaceinitstack vs start s = do {
     let vs = upd_region VR_USTACK (\<lambda>r. r\<lparr>va_base := start, vr_size := PGSIZE\<rparr>) vs;
     (ret, r, s) \<leftarrow> vregionaddmap (regions vs ! VR_USTACK) (start - PGSIZE) PGSIZE 1 1 s;
     let vs = upd_region VR_USTACK (\<lambda>_. r) vs;
     (if ret < 0 then Some (-1, vs, s)
      else do {
        (vs, s) \<leftarrow> vspaceinvalidate vs s;
        Some (0, vs, s) }) }"

section \<open>Loading a program (inc/elf.h)\<close>

record elfhdr =
  e_magic :: u32
  e_elf :: "u8 list"
  e_type :: u16
  e_machine :: u16
  e_version :: u32
  e_entry :: u64
  e_phoff :: u64
  e_shoff :: u64
  e_flags :: u32
  e_ehsize :: u16
  e_phentsize :: u16
  e_phnum :: u16
  e_shentsize :: u16
  e_shnum :: u16
  e_shstrndx :: u16

record proghdr =
  ph_type :: u32
  ph_flags :: u32
  ph_off :: u64
  ph_vaddr :: u64
  ph_paddr :: u64
  ph_filesz :: u64
  ph_memsz :: u64
  ph_align :: u64

definition ELF_MAGIC :: u32 where "ELF_MAGIC = 0x464C457F"
definition ELF_PROG_LOAD :: u32 where "ELF_PROG_LOAD = 1"

definition get64 :: "u8 list \<Rightarrow> nat \<Rightarrow> u64" where
  "get64 bs i = ucast (get32 bs i) OR push_bit 32 (ucast (get32 bs (i + 4)))"

definition sizeof_elfhdr :: nat where "sizeof_elfhdr = 64"
definition sizeof_proghdr :: nat where "sizeof_proghdr = 56"

definition dec_elfhdr :: "u8 list \<Rightarrow> elfhdr" where
  "dec_elfhdr bs = \<lparr>e_magic = get32 bs 0, e_elf = get_at bs 4 12, e_type = get16 bs 16, e_machine = get16 bs 18,
     e_version = get32 bs 20, e_entry = get64 bs 24, e_phoff = get64 bs 32, e_shoff = get64 bs 40, e_flags = get32 bs 48,
     e_ehsize = get16 bs 52, e_phentsize = get16 bs 54, e_phnum = get16 bs 56, e_shentsize = get16 bs 58,
     e_shnum = get16 bs 60, e_shstrndx = get16 bs 62\<rparr>"

definition dec_proghdr :: "u8 list \<Rightarrow> proghdr" where
  "dec_proghdr bs = \<lparr>ph_type = get32 bs 0, ph_flags = get32 bs 4, ph_off = get64 bs 8, ph_vaddr = get64 bs 16,
     ph_paddr = get64 bs 24, ph_filesz = get64 bs 32, ph_memsz = get64 bs 40, ph_align = get64 bs 48\<rparr>"

text \<open>
  The loop over the program headers: \<open>n\<close> headers are left, the next one at \<open>off\<close>; \<open>sz\<close> is \<open>None\<close> while the
  C variable is uninitialised. The result is \<open>None\<close> inside when the loop jumps to \<open>elf_failure\<close>.
\<close>

fun load_headers :: "int \<Rightarrow> devsw \<Rightarrow> iptr \<Rightarrow> nat \<Rightarrow> int \<Rightarrow> u64 \<Rightarrow> int option \<Rightarrow> vregion \<Rightarrow> fs \<Rightarrow> kmem \<Rightarrow>
    (int option option \<times> vregion \<times> fs \<times> kmem) option" where
  "load_headers p dv ip 0 off va sz r f s = Some (Some sz, r, f, s)"
| "load_headers p dv ip (Suc n) off va sz r f s = do {
     (got, bytes, f) \<leftarrow> readi p dv ip (word_of_int off) (word_of_nat sizeof_proghdr) f;
     (if got \<noteq> int sizeof_proghdr then Some (None, r, f, s)
      else let ph = dec_proghdr bytes; off' = c_int (off + int sizeof_proghdr) in
        if ph_type ph \<noteq> ELF_PROG_LOAD then load_headers p dv ip n off' va sz r f s
        else if ph_memsz ph < ph_filesz ph then Some (None, r, f, s)
        else if ph_vaddr ph + ph_memsz ph < ph_vaddr ph then Some (None, r, f, s)
        else do {
          (m, r, s) \<leftarrow> vregionaddmap r va (ph_vaddr ph + ph_memsz ph) 1 1 s;
          (if m < 0 then Some (None, r, f, s)
           else if ph_vaddr ph mod PGSIZE \<noteq> 0 then Some (None, r, f, s)
           else do {
             (l, r, f, s) \<leftarrow> vrloaddata p dv r (ph_vaddr ph) ip (ucast (ph_off ph)) (ucast (ph_filesz ph)) f s;
             (if l < 0 then Some (None, r, f, s)
              else load_headers p dv ip n off' (va + word_of_int m) (Some m) r f s) }) }) }"

text \<open>\<open>PGROUNDUP(sz)\<close> on an \<open>int\<close>.\<close>

definition PGROUNDUP_int :: "int \<Rightarrow> u64" where
  "PGROUNDUP_int sz = word_of_int (c_int (sz + 4095) div 4096 * 4096)"

text \<open>\<open>vspaceloadcode\<close>: the return value (0 on failure), the entry point, and the new state.\<close>

definition vspaceloadcode :: "int \<Rightarrow> devsw \<Rightarrow> vspace \<Rightarrow> u8 list \<Rightarrow> fs \<Rightarrow> kmem \<Rightarrow> (int \<times> u64 \<times> vspace \<times> fs \<times> kmem) option" where
  "vspaceloadcode p dv vs path f s = do {
     (r, f) \<leftarrow> namei p dv path f;
     (case r of None \<Rightarrow> Some (0, 0, vs, f, s) | Some ip \<Rightarrow> do {
        f \<leftarrow> locki p dv ip f;
        (got, bytes, f) \<leftarrow> readi p dv ip 0 (word_of_nat sizeof_elfhdr) f;
        let elf = dec_elfhdr bytes;
        (if got \<noteq> int sizeof_elfhdr \<or> e_magic elf \<noteq> ELF_MAGIC then do {
           f \<leftarrow> unlocki p ip f;
           f \<leftarrow> irelease ip f;
           Some (0, 0, vs, f, s) }
         else do {
           let vs = upd_region VR_CODE (va_base_update (\<lambda>_. 0)) vs;
           (res, r, f, s) \<leftarrow> load_headers p dv ip (unat (e_phnum elf)) (c_int (uint (e_phoff elf))) 0 None
                              (regions vs ! VR_CODE) f s;
           let vs = upd_region VR_CODE (\<lambda>_. r) vs;
           (case res of
              None \<Rightarrow> do {
                f \<leftarrow> unlocki p ip f;
                f \<leftarrow> irelease ip f;
                Some (0, 0, vs, f, s) }
            | Some None \<Rightarrow> None
            | Some (Some sz) \<Rightarrow> do {
                let vs = upd_region VR_CODE (vr_size_update (\<lambda>_. PGROUNDUP_int sz)) vs;
                let vs = upd_region VR_HEAP (\<lambda>r. r\<lparr>va_base := PGROUNDUP_int sz, vr_size := 0\<rparr>) vs;
                f \<leftarrow> unlocki p ip f;
                f \<leftarrow> irelease ip f;
                Some (sz, e_entry elf, vs, f, s) }) }) }) }"

section \<open>Finding and checking user addresses\<close>

definition in_region :: "vregion \<Rightarrow> u64 \<Rightarrow> bool" where
  "in_region vr va \<longleftrightarrow>
     (if vr_dir vr = VRDIR_UP then va \<ge> va_base vr \<and> va < va_base vr + vr_size vr
      else va \<ge> va_base vr - vr_size vr \<and> va < va_base vr)"

definition va2vregion :: "vspace \<Rightarrow> u64 \<Rightarrow> nat option" where
  "va2vregion vs va = for_first (\<lambda>i. in_region (regions vs ! i) va) 0 NREGIONS"

definition vregioncontains :: "vregion \<Rightarrow> u64 \<Rightarrow> int \<Rightarrow> bool" where
  "vregioncontains vr va sz \<longleftrightarrow>
     \<not> (sz = 0 \<and> va = VRTOP vr) \<and> va \<ge> VRBOT vr \<and> va + word_of_int sz \<le> VRTOP vr"

definition vspacecontains :: "vspace \<Rightarrow> u64 \<Rightarrow> int \<Rightarrow> int" where
  "vspacecontains vs va sz = (case va2vregion vs va of
      None \<Rightarrow> -1
    | Some i \<Rightarrow> if vregioncontains (regions vs ! i) va sz then 1 else 0)"

definition vspacemarknotpresent :: "vspace \<Rightarrow> u64 \<Rightarrow> kmem \<Rightarrow> (vspace \<times> kmem) option" where
  "vspacemarknotpresent vs user_va s =
     (if user_va mod PGSIZE \<noteq> 0 then None
      else case va2vregion vs user_va of
        None \<Rightarrow> None
      | Some k \<Rightarrow> do {
          (r, vr, s) \<leftarrow> va2vpage_info (regions vs ! k) user_va s;
          let vs = upd_region k (\<lambda>_. vr) vs;
          (case r of None \<Rightarrow> None | Some (p, i) \<Rightarrow> do {
             vpi \<leftarrow> vpi_read p i s;
             (if vpresent vpi \<noteq> 0 then None
              else do {
                (pte, s) \<leftarrow> walkpml4 (pgtbl vs) user_va False s;
                (case pte of
                   None \<Rightarrow> Some (vs, s)
                 | Some (tab, j) \<Rightarrow> do { s \<leftarrow> table_write tab j 0 s; Some (vs, s) }) }) }) })"

section \<open>Installing a page table\<close>

text \<open>What the code sets of the machine: the kernel stack of the task state segment and \<open>cr3\<close>.\<close>

record mmu_regs =
  hw_cpu :: cpu
  rsp0 :: u64
  cr3 :: u64

definition KSTACKSIZE :: u64 where "KSTACKSIZE = PGSIZE"

definition vspaceinstall :: "u64 \<Rightarrow> vspace \<Rightarrow> mmu_regs \<Rightarrow> mmu_regs option" where
  "vspaceinstall kstack vs hw =
     (if kstack = 0 \<or> pgtbl vs = 0 then None
      else do {
        let hw = hw\<lparr>hw_cpu := pushcli (hw_cpu hw)\<rparr>;
        let hw = hw\<lparr>rsp0 := kstack + KSTACKSIZE, cr3 := V2P (pgtbl vs)\<rparr>;
        c \<leftarrow> popcli (hw_cpu hw);
        Some (hw\<lparr>hw_cpu := c\<rparr>) })"

definition vspaceinstallkern :: "u64 \<Rightarrow> mmu_regs \<Rightarrow> mmu_regs" where
  "vspaceinstallkern kpml4 hw = hw\<lparr>cr3 := V2P kpml4\<rparr>"

section \<open>Freeing an address space\<close>

partial_function (option) free_page_desc_list :: "u64 \<Rightarrow> kmem \<Rightarrow> kmem option" where
  "free_page_desc_list page s =
     (if page mod PGSIZE \<noteq> 0 then None
      else if page = 0 then Some s
      else do {
        nxt \<leftarrow> vpi_next page s;
        s \<leftarrow> free_page_desc_list nxt s;
        kfree page s })"

fun free_regions :: "vregion list \<Rightarrow> kmem \<Rightarrow> kmem option" where
  "free_regions [] s = Some s"
| "free_regions (vr # vrs) s = do {
     s \<leftarrow> free_page_desc_list (vr_pages vr) s;
     free_regions vrs s }"

definition vspacefree :: "vspace \<Rightarrow> kmem \<Rightarrow> (vspace \<times> kmem) option" where
  "vspacefree vs s = do {
     s \<leftarrow> free_regions (regions vs) s;
     let vs = vs\<lparr>regions := map (\<lambda>_. vregion_zero) (regions vs)\<rparr>;
     s \<leftarrow> freevm (pgtbl vs) s;
     Some (vs, s) }"

section \<open>Copying an address space\<close>

text \<open>
  One descriptor: the copy and the original become read-only, and copy-on-write if the page was writable or already
  copy-on-write; the frame gets one more reference.
\<close>

definition copy_vpi :: "u64 \<Rightarrow> u64 \<Rightarrow> nat \<Rightarrow> kmem \<Rightarrow> kmem option" where
  "copy_vpi dst src i s = do {
     sv \<leftarrow> vpi_read src i s;
     (if vused sv = 0 then Some s
      else do {
        let write = writable sv;
        dv \<leftarrow> vpi_read dst i s;
        let cow = (if write = 1 \<or> copy_on_write sv = 1 then 1 else 0);
        s \<leftarrow> vpi_write dst i (dv\<lparr>vused := vused sv, ppn := ppn sv, vpresent := vpresent sv, writable := 0,
               copy_on_write := cow\<rparr>) s;
        s \<leftarrow> vpi_write src i (sv\<lparr>writable := 0, copy_on_write := cow\<rparr>) s;
        share_page (push_bit PT_SHIFT (ppn sv)) s }) }"

fun copy_vpis :: "u64 \<Rightarrow> u64 \<Rightarrow> nat list \<Rightarrow> kmem \<Rightarrow> kmem option" where
  "copy_vpis dst src [] s = Some s"
| "copy_vpis dst src (i # is) s = do { s \<leftarrow> copy_vpi dst src i s; copy_vpis dst src is s }"

text \<open>The return value, and the pointer that is stored through \<open>dst\<close>.\<close>

partial_function (option) copy_vpi_page :: "u64 \<Rightarrow> kmem \<Rightarrow> (int \<times> u64 \<times> kmem) option" where
  "copy_vpi_page src s =
     (if src = 0 then Some (0, 0, s)
      else do {
        (d, s) \<leftarrow> kalloc s;
        (if d = 0 then Some (-1, 0, s)
         else do {
           let s = clear_page zero_vpis d s;
           s \<leftarrow> copy_vpis d src [0..<VPIPPAGE] s;
           nxt \<leftarrow> vpi_next src s;
           (ret, q, s) \<leftarrow> copy_vpi_page nxt s;
           s \<leftarrow> vpi_set_next d q s;
           Some (ret, d, s) }) })"

fun copy_regions :: "vregion list \<Rightarrow> kmem \<Rightarrow> (int \<times> vregion list \<times> kmem) option" where
  "copy_regions [] s = Some (0, [], s)"
| "copy_regions (vr # vrs) s = do {
     (ret, d, s) \<leftarrow> copy_vpi_page (vr_pages vr) s;
     (if ret < 0 then Some (-1, vr\<lparr>vr_pages := d\<rparr> # vrs, s)
      else do {
        (ret, vrs, s) \<leftarrow> copy_regions vrs s;
        Some (ret, vr\<lparr>vr_pages := d\<rparr> # vrs, s) }) }"

text \<open>\<open>vspacecopy(dst, src)\<close>, called with the address space of the running process as \<open>src\<close>.\<close>

definition vspacecopy :: "vspace \<Rightarrow> vspace \<Rightarrow> u64 \<Rightarrow> mmu_regs \<Rightarrow> kmem \<Rightarrow> (int \<times> vspace \<times> vspace \<times> mmu_regs \<times> kmem) option" where
  "vspacecopy dst src kstack hw s = do {
     (ret, rs, s) \<leftarrow> copy_regions (regions src) s;
     let dst = dst\<lparr>regions := rs\<rparr>;
     (if ret < 0 then Some (-1, dst, src, hw, s)
      else do {
        (dst, s) \<leftarrow> vspaceinvalidate dst s;
        (src, s) \<leftarrow> vspaceinvalidate src s;
        hw \<leftarrow> vspaceinstall kstack src hw;
        Some (0, dst, src, hw, s) }) }"

section \<open>Writing to user memory\<close>

partial_function (option) writetova_loop :: "u64 \<Rightarrow> u64 \<Rightarrow> u8 list \<Rightarrow> int \<Rightarrow> vspace \<Rightarrow> kmem \<Rightarrow> (int \<times> vspace \<times> kmem) option" where
  "writetova_loop va end data sz vs s =
     (if va < end then do {
        let wsz = min (c_int (uint (PGROUNDUP va - va))) sz;
        (case va2vregion vs va of
           None \<Rightarrow> Some (-1, vs, s)
         | Some k \<Rightarrow> do {
             (r, vr, s) \<leftarrow> va2vpage_info (regions vs ! k) va s;
             let vs = upd_region k (\<lambda>_. vr) vs;
             (case r of None \<Rightarrow> None | Some (p, i) \<Rightarrow> do {
                vpi \<leftarrow> vpi_read p i s;
                (if vused vpi = 0 then None
                 else if writable vpi = 0 then Some (-1, vs, s)
                 else do {
                   s \<leftarrow> page_store (page_of_vpi vpi) (unat (va mod PGSIZE)) (take (nat wsz) data) s;
                   writetova_loop (va + word_of_int wsz) end (drop (nat wsz) data) (sz - wsz) vs s }) }) }) }
      else Some (0, vs, s))"

definition vspacewritetova :: "vspace \<Rightarrow> u64 \<Rightarrow> u8 list \<Rightarrow> int \<Rightarrow> kmem \<Rightarrow> (int \<times> vspace \<times> kmem) option" where
  "vspacewritetova vs va data sz s =
     (if sz \<le> 0 then None
      else if va + word_of_int sz \<ge> KERNBASE then None
      else writetova_loop va (va + word_of_int sz) data sz vs s)"

section \<open>Dumping user memory\<close>

text \<open>The two debugging dumps, as the list of the virtual addresses and 64-bit words they print.\<close>

definition page_load64 :: "u64 \<Rightarrow> nat \<Rightarrow> kmem \<Rightarrow> u64 option" where
  "page_load64 v off s = (case frames s (frame_of v) of
      Bytes b \<Rightarrow> Some (get64 (map (\<lambda>k. b (off + k)) [0..<8]) 0)
    | _ \<Rightarrow> None)"

function dumpstack_loop :: "u64 \<Rightarrow> u64 \<Rightarrow> u64 \<Rightarrow> kmem \<Rightarrow> (u64 \<times> u64) list option" where
  "dumpstack_loop va ending_va page s =
     (if va \<ge> ending_va then do {
        w \<leftarrow> page_load64 page (unat (va mod PGSIZE)) s;
        (if va < 8 then None
         else do {
           out \<leftarrow> dumpstack_loop (va - 8) ending_va page s;
           Some ((va, w) # out) }) }
      else Some [])"
  by pat_completeness auto
termination
  by (relation "measure (\<lambda>(va, e, page, s). unat va)")
     (auto simp: not_less word_le_nat_alt unat_sub word_less_nat_alt)

declare dumpstack_loop.simps [simp del]

definition vspacedumpstack :: "vspace \<Rightarrow> kmem \<Rightarrow> ((u64 \<times> u64) list \<times> vspace \<times> kmem) option" where
  "vspacedumpstack vs s = do {
     let vr = regions vs ! VR_USTACK;
     let starting_va = va_base vr - 8;
     let ending_va = max (va_base vr - vr_size vr) (va_base vr - 10 * 8);
     (r, vr, s) \<leftarrow> va2vpage_info vr starting_va s;
     (case r of None \<Rightarrow> None | Some (p, i) \<Rightarrow> do {
        vpi \<leftarrow> vpi_read p i s;
        out \<leftarrow> dumpstack_loop starting_va ending_va (page_of_vpi vpi) s;
        Some (out, upd_region VR_USTACK (\<lambda>_. vr) vs, s) }) }"

fun dumpcode_page :: "u64 \<Rightarrow> nat list \<Rightarrow> u64 \<Rightarrow> kmem \<Rightarrow> (u64 \<times> u64) list option" where
  "dumpcode_page va [] page s = Some []"
| "dumpcode_page va (k # ks) page s = do {
     w \<leftarrow> page_load64 page (unat ((va + word_of_nat (8 * k)) mod PGSIZE)) s;
     out \<leftarrow> dumpcode_page va ks page s;
     Some ((va + word_of_nat (8 * k), w) # out) }"

partial_function (option) dumpcode_loop :: "u64 \<Rightarrow> vregion \<Rightarrow> kmem \<Rightarrow> ((u64 \<times> u64) list \<times> vregion \<times> kmem) option" where
  "dumpcode_loop va vr s = do {
     (r, vr, s) \<leftarrow> va2vpage_info vr va s;
     (case r of None \<Rightarrow> Some ([], vr, s) | Some (p, i) \<Rightarrow> do {
        vpi \<leftarrow> vpi_read p i s;
        (if vused vpi = 0 then Some ([], vr, s)
         else do {
           out \<leftarrow> dumpcode_page va [0..<512] (page_of_vpi vpi) s;
           (rest, vr, s) \<leftarrow> dumpcode_loop (va + PGSIZE) vr s;
           Some (out @ rest, vr, s) }) }) }"

definition vspacedumpcode :: "vspace \<Rightarrow> kmem \<Rightarrow> ((u64 \<times> u64) list \<times> vspace \<times> kmem) option" where
  "vspacedumpcode vs s = do {
     (out, vr, s) \<leftarrow> dumpcode_loop (va_base (regions vs ! VR_CODE)) (regions vs ! VR_CODE) s;
     Some (out, upd_region VR_CODE (\<lambda>_. vr) vs, s) }"

lemma round_up_4096: "(n + 4095) div 4096 * 4096 = n + (if n mod 4096 = 0 then 0 else 4096 - n mod (4096 :: nat))"
proof -
  obtain q r where n: "n = 4096 * q + r" "r < 4096" by (metis mod_less_divisor mult_div_mod_eq zero_less_numeral)
  show ?thesis
  proof (cases "r = 0")
    case True then show ?thesis using n by simp
  next
    case False
    then have "n + 4095 = 4096 * (q + 1) + (r - 1)" using n by simp
    then have "(n + 4095) div 4096 = q + 1" using n False by simp
    then show ?thesis using n False by simp
  qed
qed

section \<open>Writing across a page boundary\<close>

lemma to_boundary:
  assumes "unat va < unat KERNBASE"
  shows "c_int (uint (PGROUNDUP va - va)) = (if unat va mod 4096 = 0 then 0 else 4096 - int (unat va mod 4096))"
proof -
  let ?n = "unat va"
  have n: "?n + 4095 < 2 ^ 64" using assms by (simp add: KERNBASE_def)
  have up: "unat (PGROUNDUP va) = (?n + 4095) div 4096 * 4096" using n by (rule unat_PGROUNDUP)
  have eq: "(?n + 4095) div 4096 * 4096 = ?n + (if ?n mod 4096 = 0 then 0 else 4096 - ?n mod 4096)"
    by (rule round_up_4096)
  then have "unat (PGROUNDUP va - va) = (if ?n mod 4096 = 0 then 0 else 4096 - ?n mod 4096)"
    using up by (subst unat_sub) (auto simp: word_le_nat_alt)
  then have "uint (PGROUNDUP va - va) = int (if ?n mod 4096 = 0 then 0 else 4096 - ?n mod 4096)" by (simp add: uint_nat)
  moreover have "?n mod 4096 < 4096" by simp
  ultimately show ?thesis by (auto simp: of_nat_diff)
qed

lemma writetova_stuck:
  assumes "writetova_loop va end data sz vs s = Some r"
  shows "0 < sz \<longrightarrow> end = va + word_of_int sz \<longrightarrow> int (unat va) + sz < int (unat KERNBASE) \<longrightarrow>
    unat va mod 4096 = 0 \<or> 4096 < int (unat va mod 4096) + sz \<longrightarrow> fst r \<noteq> 0"
proof (rule writetova_loop.raw_induct [OF _ assms], goal_cases)
  case (1 rec va e data sz vs s r)
  show ?case
  proof (intro impI)
    assume h: "0 < sz" "e = va + word_of_int sz" "int (unat va) + sz < int (unat KERNBASE)"
      "unat va mod 4096 = 0 \<or> 4096 < int (unat va mod 4096) + sz"
    have kb: "int (unat KERNBASE) < 2 ^ 64" by (simp add: KERNBASE_def)
    have ue: "int (unat e) = int (unat va) + sz"
    proof -
      have "int (unat e) = (int (unat va) + sz) mod 2 ^ 64" by (simp add: h(2) uint_word_ariths uint_word_of_int mod_simps)
      then show ?thesis using h kb by simp
    qed
    then have lt: "va < e" using h(1) by (simp add: word_less_def)
    define w where "w = min (c_int (uint (PGROUNDUP va - va))) sz"
    have w: "w = (if unat va mod 4096 = 0 then 0 else 4096 - int (unat va mod 4096))"
    proof -
      have "unat va < unat KERNBASE" using h(1,3) by linarith
      from to_boundary [OF this] show ?thesis using h(1,4) by (auto simp: w_def min_def)
    qed
    have w0: "0 \<le> w" "w < sz" using w h by auto
    have uv: "int (unat (va + word_of_int w)) = int (unat va) + w"
    proof -
      have "int (unat (va + word_of_int w)) = (int (unat va) + w) mod 2 ^ 64" by (simp add: uint_word_ariths uint_word_of_int mod_simps)
      then show ?thesis using h kb w0 by simp
    qed
    have "nat w = (if unat va mod 4096 = 0 then 0 else 4096 - unat va mod 4096)" using w by (simp add: nat_diff_distrib)
    then have "unat va + nat w = (unat va + 4095) div 4096 * 4096" by (simp only: round_up_4096)
    moreover have "unat (va + word_of_int w) = unat va + nat w" using uv w0 by linarith
    ultimately have al: "unat (va + word_of_int w) mod 4096 = 0" by simp
    have step: "fst r' \<noteq> 0" if "rec (va + word_of_int w) e data' (sz - w) vs' s' = Some r'" for data' vs' s' r'
      using "1"(1) [OF that] w0 h uv al by (simp add: algebra_simps)
    from "1"(2) lt show "fst r \<noteq> 0"
      unfolding w_def [symmetric] Let_def
      by (auto split: option.splits if_splits simp: bind_eq_Some_conv dest!: step)
  qed
qed

text \<open>
  C37. \<open>vspacewritetova\<close> never succeeds when the bytes touch a page boundary, be it that they start at one or that they cross one: at a boundary
  \<open>PGROUNDUP(va) - va\<close> is 0 and the loop makes no progress. The call fails in the first page or it does not return.
\<close>

theorem writetova_boundary:
  assumes "0 < sz" "int (unat va) + sz < int (unat KERNBASE)" "unat va mod 4096 = 0 \<or> 4096 < int (unat va mod 4096) + sz"
  shows "vspacewritetova vs va data sz s \<noteq> Some (0, vs', s')"
proof
  assume "vspacewritetova vs va data sz s = Some (0, vs', s')"
  then have "writetova_loop va (va + word_of_int sz) data sz vs s = Some (0, vs', s')"
    using assms(1) by (simp add: vspacewritetova_def split: if_splits)
  from writetova_stuck [OF this] assms show False by simp
qed

theorem writetova_boundary_witness:
  "\<forall>vs data s vs' s'. vspacewritetova vs 0x7FFFEFF0 data 32 s \<noteq> Some (0, vs', s')"
proof (intro allI)
  fix vs data s vs' s'
  show "vspacewritetova vs 0x7FFFEFF0 data 32 s \<noteq> Some (0, vs', s')"
    by (rule writetova_boundary) (simp_all add: KERNBASE_def)
qed

section \<open>Sharing pages at a fork\<close>

text \<open>What becomes of a descriptor, in the parent and in the child, and how many descriptors of a page map a frame.\<close>

definition protect :: "vpage_info \<Rightarrow> vpage_info" where
  "protect v = (if vused v = 0 then v
     else v\<lparr>writable := 0, copy_on_write := (if writable v = 1 \<or> copy_on_write v = 1 then 1 else 0)\<rparr>)"

definition child_vpi :: "vpage_info \<Rightarrow> vpage_info" where
  "child_vpi v = (if vused v = 0 then vpi_zero else protect v)"

definition maps_frame :: "nat \<Rightarrow> vpage_info \<Rightarrow> bool" where
  "maps_frame c v \<longleftrightarrow> vused v \<noteq> 0 \<and> unat (ppn v) = c"

definition add_refs :: "vpage_info list \<Rightarrow> core_map_entry list \<Rightarrow> core_map_entry list" where
  "add_refs vs cm = map (\<lambda>c. (cm ! c)\<lparr>cref := cref (cm ! c) + count_if (maps_frame c) vs\<rparr>) [0..<length cm]"

lemma add_refs_Nil [simp]: "add_refs [] cm = cm"
  by (rule nth_equalityI) (simp_all add: add_refs_def)

lemma length_add_refs [simp]: "length (add_refs vs cm) = length cm"
  by (simp add: add_refs_def)

lemma nth_add_refs [simp]: "c < length cm \<Longrightarrow> add_refs vs cm ! c = (cm ! c)\<lparr>cref := cref (cm ! c) + count_if (maps_frame c) vs\<rparr>"
  by (simp add: add_refs_def)

lemma add_refs_snoc:
  "c < length cm \<Longrightarrow> vused v \<noteq> 0 \<Longrightarrow> unat (ppn v) = c \<Longrightarrow>
   (add_refs vs cm)[c := (add_refs vs cm ! c)\<lparr>cref := cref (add_refs vs cm ! c) + 1\<rparr>] = add_refs (vs @ [v]) cm"
  by (rule nth_equalityI) (auto simp: nth_upd maps_frame_def)

lemma add_refs_skip: "vused v = 0 \<Longrightarrow> add_refs (vs @ [v]) cm = add_refs vs cm"
  by (rule nth_equalityI) (auto simp: maps_frame_def)

text \<open>The state after the first \<open>k\<close> descriptors.\<close>

definition copied :: "u64 \<Rightarrow> nat \<Rightarrow> nat \<Rightarrow> vpage_info list \<Rightarrow> nat \<Rightarrow> kmem \<Rightarrow> kmem" where
  "copied nx fd fs infos k s = s\<lparr>core_map := add_refs (take k infos) (core_map s),
     frames := (frames s)(fs := VpiPage (map protect (take k infos) @ drop k infos) nx,
       fd := VpiPage (map child_vpi (take k infos) @ replicate (VPIPPAGE - k) vpi_zero) 0)\<rparr>"

lemma page2pa_ppn: "push_bit PT_SHIFT (ppn v) = page2pa (unat (ppn v))"
  by (simp add: page2pa_def)

lemma vpi_fields_set:
  "vpi_zero\<lparr>vused := vused v, ppn := ppn v, vpresent := vpresent v, writable := 0, copy_on_write := x\<rparr> = v\<lparr>writable := 0, copy_on_write := x\<rparr>"
  by (cases v) (simp add: vpi_zero_def)

text \<open>One descriptor.\<close>

lemma copy_vpi_step:
  assumes "kmem_ok (copied nx fd fs infos k s)" "fd \<noteq> fs" "frame_of dst = fd" "frame_of src = fs" "k < VPIPPAGE" "length infos = VPIPPAGE"
    "length (core_map s) = npages s" "vused (infos ! k) \<noteq> 0 \<Longrightarrow> page_live s (unat (ppn (infos ! k)))"
    "vused (infos ! k) \<noteq> 0 \<Longrightarrow> page_ref s (unat (ppn (infos ! k))) + count_if (maps_frame (unat (ppn (infos ! k)))) infos < 2 ^ 15"
  shows "copy_vpi dst src k (copied nx fd fs infos k s) = Some (copied nx fd fs infos (Suc k) s) \<and> kmem_ok (copied nx fd fs infos (Suc k) s)"
proof -
  let ?v = "infos ! k" and ?t = "copied nx fd fs infos k s"
  let ?sl = "map protect (take k infos) @ drop k infos" and ?dl = "map child_vpi (take k infos) @ replicate (VPIPPAGE - k) vpi_zero"
  have tk: "take (Suc k) infos = take k infos @ [?v]" using assms by (simp add: take_Suc_conv_app_nth)
  have lens: "length (take k infos) = k" "drop k infos = ?v # drop (Suc k) infos" using assms by (simp_all add: Cons_nth_drop_Suc)
  have rep: "replicate (VPIPPAGE - k) vpi_zero = vpi_zero # replicate (VPIPPAGE - Suc k) vpi_zero"
    using assms(5) by (metis Suc_diff_Suc replicate_Suc)
  have rd: "vpi_read src k ?t = Some ?v" "vpi_read dst k ?t = Some vpi_zero"
    using assms lens rep by (simp_all add: vpi_read_def copied_def nth_append)
  show ?thesis
  proof (cases "vused ?v = 0")
    case True
    then have "copied nx fd fs infos (Suc k) s = ?t" using lens rep
      by (simp add: copied_def tk add_refs_skip protect_def child_vpi_def)
    then show ?thesis using True rd assms(1) by (simp add: copy_vpi_def)
  next
    case False
    let ?c = "unat (ppn ?v)"
    have live: "page_live s ?c" "page_ref s ?c + count_if (maps_frame ?c) infos < 2 ^ 15" using assms(8,9) False by auto
    then have c: "?c < npages s" "?c < length (core_map s)" using assms(7) by (auto simp: page_live_def)
    have cnt: "0 \<le> count_if (maps_frame ?c) (take k infos)" "count_if (maps_frame ?c) (take k infos) + 1 \<le> count_if (maps_frame ?c) infos"
    proof -
      have "k < length infos" using assms(5,6) by simp
      note e = id_take_nth_drop [OF this]
      have "count_if (maps_frame ?c) (take k infos @ ?v # drop (Suc k) infos) =
          count_if (maps_frame ?c) (take k infos) + (1 + count_if (maps_frame ?c) (drop (Suc k) infos))"
        using False by (simp add: maps_frame_def)
      then show "count_if (maps_frame ?c) (take k infos) + 1 \<le> count_if (maps_frame ?c) infos"
        unfolding e [symmetric] by simp
    qed simp
    define u where "u = ?t\<lparr>frames := (frames ?t)(fd := VpiPage (?dl[k := protect ?v]) 0, fs := VpiPage (?sl[k := protect ?v]) nx)\<rparr>"
    have u: "kmem_ok u" "page_live u ?c" "page_ref u ?c < 2 ^ 15 - 1"
      using assms(1) live c cnt by (auto simp: u_def copied_def page_live_def page_ref_def live_def intro: add_pos_nonneg)
    have "copy_vpi dst src k ?t = share_page (page2pa ?c) u"
      using rd False assms(2-4) by (simp add: copy_vpi_def Let_def vpi_write_def copied_def u_def page2pa_ppn protect_def vpi_fields_set fun_upd_twist)
    moreover have "u\<lparr>core_map := (core_map u)[?c := (core_map u ! ?c)\<lparr>cref := page_ref u ?c + 1\<rparr>]\<rparr> = copied nx fd fs infos (Suc k) s"
    proof -
      have "?sl[k := protect ?v] = map protect (take (Suc k) infos) @ drop (Suc k) infos"
        "?dl[k := protect ?v] = map child_vpi (take (Suc k) infos) @ replicate (VPIPPAGE - Suc k) vpi_zero"
        using lens rep False by (simp_all add: tk list_update_append child_vpi_def)
      moreover have "(core_map u)[?c := (core_map u ! ?c)\<lparr>cref := page_ref u ?c + 1\<rparr>] = add_refs (take (Suc k) infos) (core_map s)"
        using add_refs_snoc [of ?c "core_map s" ?v "take k infos"] c False by (simp add: u_def copied_def page_ref_def tk)
      ultimately show ?thesis using assms(2) by (simp add: u_def copied_def fun_upd_twist)
    qed
    ultimately show ?thesis using share_page_ok [OF u] by simp
  qed
qed

lemma copy_vpis_app: "copy_vpis dst src (is @ js) s = do { s \<leftarrow> copy_vpis dst src is s; copy_vpis dst src js s }"
  by (induction "is" arbitrary: s) (auto split: bind_split)

lemma copy_vpis_ok:
  assumes "kmem_ok s" "fd \<noteq> fs" "frame_of dst = fd" "frame_of src = fs" "length infos = VPIPPAGE"
    "frames s fs = VpiPage infos nx" "frames s fd = zero_vpis"
    "\<And>v. v \<in> set infos \<Longrightarrow> vused v \<noteq> 0 \<Longrightarrow> page_live s (unat (ppn v)) \<and> page_ref s (unat (ppn v)) + count_if (maps_frame (unat (ppn v))) infos < 2 ^ 15"
    "k \<le> VPIPPAGE"
  shows "copy_vpis dst src [0..<k] s = Some (copied nx fd fs infos k s) \<and> kmem_ok (copied nx fd fs infos k s)"
  using assms(9)
proof (induction k)
  case 0
  have "copied nx fd fs infos 0 s = s" using assms(6,7) by (simp add: copied_def zero_vpis_def fun_upd_idem)
  then show ?case using assms(1) by simp
next
  case (Suc k)
  then have ih: "copy_vpis dst src [0..<k] s = Some (copied nx fd fs infos k s)" "kmem_ok (copied nx fd fs infos k s)" "k < VPIPPAGE" by auto
  have "copy_vpi dst src k (copied nx fd fs infos k s) = Some (copied nx fd fs infos (Suc k) s) \<and> kmem_ok (copied nx fd fs infos (Suc k) s)"
    using ih(2,3) assms(2-5) kmem_ok_length [OF assms(1)] assms(8) [of "infos ! k"] by (intro copy_vpi_step) auto
  then show ?case using ih(1) by (simp add: copy_vpis_app)
qed

text \<open>
  The descriptors of a region are a chain of pages, here the list of the pages with their contents; a pointer to the first page is null when there is none.
\<close>

fun first_page :: "(u64 \<times> vpage_info list) list \<Rightarrow> u64" where
  "first_page [] = 0"
| "first_page ((a, infos) # pgs) = a"

fun vpi_chain :: "kmem \<Rightarrow> (u64 \<times> vpage_info list) list \<Rightarrow> bool" where
  "vpi_chain s [] \<longleftrightarrow> True"
| "vpi_chain s ((a, infos) # pgs) \<longleftrightarrow>
     a \<noteq> 0 \<and> length infos = VPIPPAGE \<and> frames s (frame_of a) = VpiPage infos (first_page pgs) \<and> vpi_chain s pgs"

abbreviation chain_frames :: "(u64 \<times> vpage_info list) list \<Rightarrow> nat list" where
  "chain_frames pgs \<equiv> map (\<lambda>(a, infos). frame_of a) pgs"

abbreviation chain_vpis :: "(u64 \<times> vpage_info list) list \<Rightarrow> vpage_info list" where
  "chain_vpis pgs \<equiv> concat (map snd pgs)"

text \<open>The chain of the parent after the fork, and that of the child in the pages \<open>ds\<close>.\<close>

definition parent_chain :: "(u64 \<times> vpage_info list) list \<Rightarrow> (u64 \<times> vpage_info list) list" where
  "parent_chain pgs = map (\<lambda>(a, infos). (a, map protect infos)) pgs"

definition child_chain :: "nat list \<Rightarrow> (u64 \<times> vpage_info list) list \<Rightarrow> (u64 \<times> vpage_info list) list" where
  "child_chain ds pgs = map (\<lambda>(d, a, infos). (page_va d, map child_vpi infos)) (zip ds pgs)"

text \<open>
  What the copy of the chain \<open>pgs\<close> does to the memory: the pages \<open>ds\<close>, free before, are taken; every frame gets as many references as there are descriptors
  that map it; and only the pages of the two chains change.
\<close>

definition shares :: "(u64 \<times> vpage_info list) list \<Rightarrow> nat list \<Rightarrow> kmem \<Rightarrow> kmem \<Rightarrow> bool" where
  "shares pgs ds s s' \<longleftrightarrow> kmem_ok s' \<and> length ds = length pgs \<and> distinct ds \<and> (\<forall>d \<in> set ds. page_avail s d) \<and>
     free_pages s' = free_pages s - int (length ds) \<and>
     (\<forall>c. page_avail s' c \<longleftrightarrow> page_avail s c \<and> c \<notin> set ds) \<and>
     (\<forall>c. page_live s c \<longrightarrow> page_live s' c \<and> page_ref s' c = page_ref s c + count_if (maps_frame c) (chain_vpis pgs)) \<and>
     (\<forall>f. f \<notin> set ds \<and> f \<notin> set (chain_frames pgs) \<longrightarrow> frames s' f = frames s f)"

text \<open>A chain that can be copied: enough free pages, distinct descriptor pages in use, mapped frames that are live and whose counts stay in range.\<close>

definition can_share :: "(u64 \<times> vpage_info list) list \<Rightarrow> kmem \<Rightarrow> bool" where
  "can_share pgs s \<longleftrightarrow> kmem_ok s \<and> int (length pgs) \<le> free_pages s \<and> distinct (chain_frames pgs) \<and>
     (\<forall>f \<in> set (chain_frames pgs). \<not> page_avail s f) \<and>
     (\<forall>v \<in> set (chain_vpis pgs). vused v \<noteq> 0 \<longrightarrow> page_live s (unat (ppn v)) \<and>
        page_ref s (unat (ppn v)) + count_if (maps_frame (unat (ppn v))) (chain_vpis pgs) < 2 ^ 15)"

lemma shares_trans:
  assumes "shares pgs ds s t" "shares pgs' ds' t s'"
  shows "shares (pgs @ pgs') (ds @ ds') s s'"
  using assms unfolding shares_def by auto

lemma can_share_append:
  assumes "can_share (pgs @ pgs') s"
  shows "can_share pgs s"
proof -
  have "page_ref s c + count_if (maps_frame c) (chain_vpis pgs) < 2 ^ 15"
    if "page_ref s c + count_if (maps_frame c) (chain_vpis (pgs @ pgs')) < 2 ^ 15" for c
    using that count_if_nonneg [of "maps_frame c" "chain_vpis pgs'"] unfolding map_append concat_append count_if_append by linarith
  then show ?thesis using assms by (auto simp: can_share_def)
qed

lemma can_share_rest:
  assumes "can_share (pgs @ pgs') s" "shares pgs ds s t"
  shows "can_share pgs' t"
proof -
  have "page_live t (unat (ppn v)) \<and> page_ref t (unat (ppn v)) + count_if (maps_frame (unat (ppn v))) (chain_vpis pgs') < 2 ^ 15"
    if "v \<in> set (chain_vpis pgs')" "vused v \<noteq> 0" for v
  proof -
    have "page_live s (unat (ppn v))" "page_ref s (unat (ppn v)) + count_if (maps_frame (unat (ppn v))) (chain_vpis (pgs @ pgs')) < 2 ^ 15"
      using assms(1) that by (auto simp: can_share_def)
    then show ?thesis using assms(2) by (simp add: shares_def)
  qed
  then show ?thesis using assms by (auto simp: can_share_def shares_def)
qed

lemma vpi_chain_cong:
  "vpi_chain s pgs \<Longrightarrow> (\<And>f. f \<in> set (chain_frames pgs) \<Longrightarrow> frames s' f = frames s f) \<Longrightarrow> vpi_chain s' pgs"
  by (induction s pgs rule: vpi_chain.induct) auto

lemma first_parent [simp]: "first_page (parent_chain pgs) = first_page pgs"
  by (cases pgs) (auto simp: parent_chain_def)

lemma chain_frames_parent [simp]: "chain_frames (parent_chain pgs) = chain_frames pgs"
  by (induction pgs) (auto simp: parent_chain_def)

lemma chain_frames_child:
  "length ds = length pgs \<Longrightarrow> (\<And>d. d \<in> set ds \<Longrightarrow> d < max_pages) \<Longrightarrow> chain_frames (child_chain ds pgs) = ds"
  by (induction ds pgs rule: list_induct2) (auto simp: child_chain_def)

lemma shares_frames: "shares pgs ds s s' \<Longrightarrow> f \<notin> set ds \<Longrightarrow> f \<notin> set (chain_frames pgs) \<Longrightarrow> frames s' f = frames s f"
  unfolding shares_def by blast

lemma shares_chain:
  assumes "shares pgs ds s s'" "vpi_chain s ps" "set (chain_frames ps) \<inter> (set ds \<union> set (chain_frames pgs)) = {}"
  shows "vpi_chain s' ps"
  using assms(3) by (intro vpi_chain_cong [OF assms(2)] shares_frames [OF assms(1)]) blast+

lemma shares_less: "shares pgs ds s s' \<Longrightarrow> kmem_ok s \<Longrightarrow> d \<in> set ds \<Longrightarrow> d < max_pages"
  using kmem_ok_max by (auto simp: shares_def page_avail_def)

text \<open>One page: the state when its descriptors are copied.\<close>

lemma copy_page_ok:
  assumes can: "can_share [(src, infos)] s" and ch: "src \<noteq> 0" "length infos = VPIPPAGE" "frames s (frame_of src) = VpiPage infos nx"
  obtains d t where "kalloc s = Some (page_va d, take_page d s)" "d < max_pages"
    "copy_vpis (page_va d) src [0..<VPIPPAGE] (clear_page zero_vpis (page_va d) (take_page d s)) = Some t"
    "shares [(src, infos)] [d] s t"
    "frames t (frame_of src) = VpiPage (map protect infos) nx" "frames t d = VpiPage (map child_vpi infos) 0" "frame_of src \<noteq> d"
proof -
  have ok: "kmem_ok s" and free: "0 < free_pages s" and na: "\<not> page_avail s (frame_of src)" using can by (auto simp: can_share_def)
  obtain d where d: "kalloc s = Some (page_va d, take_page d s)" "page_avail s d" using kalloc_free_page [OF ok free] .
  have dl: "d < npages s" "available (core_map s ! d) = 1" using d(2) by (auto simp: page_avail_def avail_def)
  note len = kmem_ok_length [OF ok]
  note live = take_page_live [OF ok d(2)]
  have ne: "frame_of src \<noteq> d" using d(2) na by auto
  let ?s = "clear_page zero_vpis (page_va d) (take_page d s)"
  have ok': "kmem_ok ?s" using take_page_ok [OF ok d(2)] by (simp add: clear_page_def)
  have same: "page_live ?s c" "page_ref ?s c = page_ref s c" if "page_live s c" for c
    using that live(3) len by (auto simp: page_live_def page_ref_def clear_page_def take_page_def set_cme_def nth_upd)
  define t where "t = copied nx d (frame_of src) infos VPIPPAGE ?s"
  have cp: "copy_vpis (page_va d) src [0..<VPIPPAGE] ?s = Some t \<and> kmem_ok t" unfolding t_def
  proof (rule copy_vpis_ok [OF ok'])
    show "frames ?s (frame_of src) = VpiPage infos nx" "frames ?s d = zero_vpis"
      using ne ch(3) live(4) by (simp_all add: clear_page_def take_page_def set_cme_def)
    show "page_live ?s (unat (ppn v)) \<and> page_ref ?s (unat (ppn v)) + count_if (maps_frame (unat (ppn v))) infos < 2 ^ 15"
      if "v \<in> set infos" "vused v \<noteq> 0" for v using that can same by (auto simp: can_share_def)
  qed (use ne ch live in auto)
  have t: "t = ?s\<lparr>core_map := add_refs infos (core_map ?s),
      frames := (frames ?s)(frame_of src := VpiPage (map protect infos) nx, d := VpiPage (map child_vpi infos) 0)\<rparr>"
    using ch(2) by (simp add: t_def copied_def)
  have "page_live t c \<and> page_ref t c = page_ref s c + count_if (maps_frame c) infos" if "page_live s c" for c
    using same [OF that] kmem_ok_length [OF ok'] by (auto simp: t page_ref_def page_live_def live_def intro: add_pos_nonneg)
  moreover have "page_avail t c \<longleftrightarrow> page_avail s c \<and> c \<noteq> d" for c
    using len dl by (auto simp: t page_avail_def avail_def clear_page_def take_page_def set_cme_def nth_upd split: if_splits)
  moreover have "free_pages t = free_pages s - 1" by (simp add: t clear_page_def take_page_def set_cme_def)
  moreover have "frames t f = frames s f" if "f \<noteq> d" "f \<noteq> frame_of src" for f
    using that live(4) by (simp add: t clear_page_def take_page_def set_cme_def)
  ultimately have "shares [(src, infos)] [d] s t" using cp d(2) by (simp add: shares_def)
  then show ?thesis using that [OF d(1) live(4) _ _ _ _ ne] cp ne by (simp add: t)
qed

lemma copy_chain_ok:
  assumes "can_share pgs s" "vpi_chain s pgs"
  shows "\<exists>ds s'. copy_vpi_page (first_page pgs) s = Some (0, first_page (child_chain ds pgs), s') \<and> shares pgs ds s s' \<and>
    vpi_chain s' (parent_chain pgs) \<and> vpi_chain s' (child_chain ds pgs)"
  using assms
proof (induction pgs arbitrary: s)
  case Nil
  then show ?case
    by (intro exI [of _ "[]"] exI [of _ s]) (simp add: copy_vpi_page.simps [of 0] child_chain_def parent_chain_def shares_def can_share_def)
next
  case (Cons pg pgs)
  obtain src infos where pg: "pg = (src, infos)" by fastforce
  have ch: "src \<noteq> 0" "length infos = VPIPPAGE" "frames s (frame_of src) = VpiPage infos (first_page pgs)" "vpi_chain s pgs"
    using Cons.prems(2) by (auto simp: pg)
  have can: "can_share ([(src, infos)] @ pgs) s" using Cons.prems(1) by (simp add: pg)
  obtain d t where d: "kalloc s = Some (page_va d, take_page d s)" "d < max_pages"
    "copy_vpis (page_va d) src [0..<VPIPPAGE] (clear_page zero_vpis (page_va d) (take_page d s)) = Some t"
    "shares [(src, infos)] [d] s t"
    "frames t (frame_of src) = VpiPage (map protect infos) (first_page pgs)" "frames t d = VpiPage (map child_vpi infos) 0" "frame_of src \<noteq> d"
    by (rule copy_page_ok [OF can_share_append [OF can] ch(1-3)])
  have rest: "frame_of src \<notin> set (chain_frames pgs)" "d \<notin> set (chain_frames pgs)" "\<not> page_avail t (frame_of src)" "\<not> page_avail t d"
    using can d(4) by (auto simp: can_share_def shares_def)
  have "set (chain_frames pgs) \<inter> (set [d] \<union> set (chain_frames [(src, infos)])) = {}" using rest(1,2) by simp
  then have "vpi_chain t pgs" by (rule shares_chain [OF d(4) ch(4)])
  then obtain ds u where u: "copy_vpi_page (first_page pgs) t = Some (0, first_page (child_chain ds pgs), u)" "shares pgs ds t u"
      "vpi_chain u (parent_chain pgs)" "vpi_chain u (child_chain ds pgs)"
    using Cons.IH [OF can_share_rest [OF can d(4)]] by blast
  have nds: "d \<notin> set ds" "frame_of src \<notin> set ds" using u(2) rest by (auto simp: shares_def)
  then have fu: "frames u d = frames t d" "frames u (frame_of src) = frames t (frame_of src)"
    using shares_frames [OF u(2)] rest(1,2) by blast+
  define q where "q = first_page (child_chain ds pgs)"
  define s' where "s' = u\<lparr>frames := (frames u)(d := VpiPage (map child_vpi infos) q)\<rparr>"
  have "page_va d \<noteq> 0" using d(2) by simp
  then have "copy_vpi_page src s = Some (0, page_va d, s')"
    using ch(1) d u(1) fu by (simp add: copy_vpi_page.simps [of src] vpi_next_def vpi_set_next_def s'_def q_def)
  moreover have "shares (pg # pgs) (d # ds) s s'"
    using shares_trans [OF d(4) u(2)] by (auto simp: pg s'_def shares_def page_avail_def page_ref_def)
  moreover have "vpi_chain s' (parent_chain (pg # pgs))"
  proof -
    have "vpi_chain s' (parent_chain pgs)" 
      by (rule vpi_chain_cong [OF u(3)]) (use rest(2) in \<open>simp only: chain_frames_parent s'_def\<close>, auto)
    then show ?thesis using ch d(5,7) fu(2) by (simp add: parent_chain_def pg s'_def first_parent [unfolded parent_chain_def])
  qed
  moreover have "vpi_chain s' (child_chain (d # ds) (pg # pgs))"
  proof -
    have "chain_frames (child_chain ds pgs) = ds"
      using u(2) d(4) by (intro chain_frames_child shares_less [OF u(2)]) (simp_all add: shares_def)
    then have "vpi_chain s' (child_chain ds pgs)" using nds(1)
      by (intro vpi_chain_cong [OF u(4)]) (simp only: s'_def, auto)
    then show ?thesis using ch d(2) \<open>page_va d \<noteq> 0\<close> by (simp add: child_chain_def pg s'_def q_def)
  qed
  ultimately show ?case by (intro exI [of _ "d # ds"] exI [of _ s']) (simp add: pg child_chain_def)
qed

text \<open>All regions, one after the other.\<close>

definition child_regions :: "vregion list \<Rightarrow> nat list list \<Rightarrow> (u64 \<times> vpage_info list) list list \<Rightarrow> vregion list" where
  "child_regions vrs dss pgss = map (\<lambda>(vr, ds, pgs). vr\<lparr>vr_pages := first_page (child_chain ds pgs)\<rparr>) (zip vrs (zip dss pgss))"

lemma shares_apart:
  assumes "can_share (pgs @ pgs') s" "shares pgs ds s t" "shares pgs' ds' t u"
  shows "set (chain_frames pgs') \<inter> (set ds \<union> set (chain_frames pgs)) = {}"
    "set (chain_frames pgs) \<inter> (set ds' \<union> set (chain_frames pgs')) = {}"
    "set ds \<inter> (set ds' \<union> set (chain_frames pgs')) = {}"
proof -
  have c: "distinct (chain_frames (pgs @ pgs'))" "\<forall>f \<in> set (chain_frames (pgs @ pgs')). \<not> page_avail s f"
    using assms(1) unfolding can_share_def by - (elim conjE, assumption)+
  have d: "\<forall>d \<in> set ds. page_avail s d" "\<forall>c. page_avail t c \<longleftrightarrow> page_avail s c \<and> c \<notin> set ds"
    using assms(2) unfolding shares_def by - (elim conjE, assumption)+
  have d': "\<forall>d \<in> set ds'. page_avail t d" using assms(3) unfolding shares_def by - (elim conjE, assumption)
  have pg: "set (chain_frames pgs) \<inter> set (chain_frames pgs') = {}" using c(1) unfolding map_append distinct_append by blast
  have ds: "\<And>d. d \<in> set ds \<Longrightarrow> page_avail s d" "\<And>d. d \<in> set ds' \<Longrightarrow> page_avail s d \<and> d \<notin> set ds"
    using d d' by blast+
  have na: "\<And>f. f \<in> set (chain_frames pgs) \<Longrightarrow> \<not> page_avail s f" "\<And>f. f \<in> set (chain_frames pgs') \<Longrightarrow> \<not> page_avail s f"
    using c(2) unfolding map_append set_append by blast+
  show "set (chain_frames pgs') \<inter> (set ds \<union> set (chain_frames pgs)) = {}" using pg na(2) ds(1) by blast
  show "set (chain_frames pgs) \<inter> (set ds' \<union> set (chain_frames pgs')) = {}" using pg na(1) ds(2) by blast
  show "set ds \<inter> (set ds' \<union> set (chain_frames pgs')) = {}" using na(2) ds by blast
qed

lemma chain_frames_concat: "pgs \<in> set pgss \<Longrightarrow> set (chain_frames pgs) \<subseteq> set (chain_frames (concat pgss))"
  by auto

lemma copy_regions_ok:
  assumes "can_share (concat pgss) s" "map vr_pages vrs = map first_page pgss" "\<forall>pgs \<in> set pgss. vpi_chain s pgs"
  shows "\<exists>dss s'. copy_regions vrs s = Some (0, child_regions vrs dss pgss, s') \<and> shares (concat pgss) (concat dss) s s' \<and>
    list_all2 (\<lambda>ds pgs. length ds = length pgs \<and> vpi_chain s' (parent_chain pgs) \<and> vpi_chain s' (child_chain ds pgs)) dss pgss"
  using assms
proof (induction pgss arbitrary: vrs s)
  case Nil
  then show ?case by (intro exI [of _ "[]"] exI [of _ s]) (simp add: child_regions_def shares_def can_share_def)
next
  case (Cons pgs pgss)
  obtain vr vrs' where vrs: "vrs = vr # vrs'" "vr_pages vr = first_page pgs" "map vr_pages vrs' = map first_page pgss"
    using Cons.prems(2) by (cases vrs) auto
  have can: "can_share (pgs @ concat pgss) s" using Cons.prems(1) by simp
  obtain ds t where t: "copy_vpi_page (first_page pgs) s = Some (0, first_page (child_chain ds pgs), t)" "shares pgs ds s t"
      "vpi_chain t (parent_chain pgs)" "vpi_chain t (child_chain ds pgs)"
    using copy_chain_ok [OF can_share_append [OF can]] Cons.prems(3) by auto
  have nt: "set (chain_frames (concat pgss)) \<inter> (set ds \<union> set (chain_frames pgs)) = {}"
    using can t(2) unfolding can_share_def shares_def map_append distinct_append set_append by blast
  have "\<forall>ps \<in> set pgss. vpi_chain t ps"
  proof
    fix ps assume ps: "ps \<in> set pgss"
    show "vpi_chain t ps"
      by (rule shares_chain [OF t(2)]) (use Cons.prems(3) ps nt chain_frames_concat [OF ps] in \<open>simp, blast\<close>)
  qed
  then obtain dss u where u: "copy_regions vrs' t = Some (0, child_regions vrs' dss pgss, u)" "shares (concat pgss) (concat dss) t u"
      "list_all2 (\<lambda>ds pgs. length ds = length pgs \<and> vpi_chain u (parent_chain pgs) \<and> vpi_chain u (child_chain ds pgs)) dss pgss"
    using Cons.IH [OF can_share_rest [OF can t(2)] vrs(3)] by blast
  note apart = shares_apart [OF can t(2) u(2)]
  have len: "length ds = length pgs" "kmem_ok s" using t(2) can by (simp_all add: shares_def can_share_def)
  have cf: "chain_frames (child_chain ds pgs) = ds" using shares_less [OF t(2) len(2)] by (rule chain_frames_child [OF len(1)])
  have "vpi_chain u (parent_chain pgs)" by (rule shares_chain [OF u(2) t(3)]) (use apart(2) in \<open>simp only: chain_frames_parent\<close>)
  moreover have "vpi_chain u (child_chain ds pgs)" by (rule shares_chain [OF u(2) t(4)]) (use apart(3) in \<open>simp only: cf\<close>)
  moreover have "shares (concat (pgs # pgss)) (concat (ds # dss)) s u" using shares_trans [OF t(2) u(2)] by simp
  ultimately show ?case
    using t(1) u(1,3) len(1) by (intro exI [of _ "ds # dss"] exI [of _ u]) (simp add: vrs child_regions_def)
qed

text \<open>
  C8. \<open>vspacecopy\<close>, the copy of an address space at a fork. Every page of descriptors of every region is copied to a page that was free, in chains of the same
  length; then the page tables of both processes are rebuilt from the descriptors. When they are, no descriptor, of the parent or of the child, is writable; those
  that were writable or copy-on-write are copy-on-write on both sides; the reference count of each frame in use has grown by the number of descriptors of
  the parent that map it; and no page has changed but those of the descriptors.
\<close>

theorem vspacecopy_cow:
  assumes "can_share (concat pgss) s" "map vr_pages (regions src) = map first_page pgss" "\<forall>pgs \<in> set pgss. vpi_chain s pgs"
  shows "\<exists>dss s'. shares (concat pgss) (concat dss) s s' \<and>
    list_all2 (\<lambda>ds pgs. length ds = length pgs \<and> vpi_chain s' (parent_chain pgs) \<and> vpi_chain s' (child_chain ds pgs)) dss pgss \<and>
    vspacecopy dst src kstack hw s = do {
      (dst, t) \<leftarrow> vspaceinvalidate (dst\<lparr>regions := child_regions (regions src) dss pgss\<rparr>) s';
      (src, t) \<leftarrow> vspaceinvalidate src t;
      hw \<leftarrow> vspaceinstall kstack src hw;
      Some (0, dst, src, hw, t) }"
proof -
  obtain dss s' where "copy_regions (regions src) s = Some (0, child_regions (regions src) dss pgss, s')"
      "shares (concat pgss) (concat dss) s s'"
      "list_all2 (\<lambda>ds pgs. length ds = length pgs \<and> vpi_chain s' (parent_chain pgs) \<and> vpi_chain s' (child_chain ds pgs)) dss pgss"
    using copy_regions_ok [OF assms] by blast
  then show ?thesis by (intro exI [of _ dss] exI [of _ s']) (simp add: vspacecopy_def)
qed

text \<open>One writable page, frame 1 with two references, described in frame 0.\<close>

definition vpi_demo :: vpage_info where
  "vpi_demo = \<lparr>vused = 1, ppn = 1, vpresent = 1, writable = 1, copy_on_write = 0\<rparr>"

definition kmem_cow :: kmem where
  "kmem_cow = kmem_demo\<lparr>frames := (\<lambda>_. zero_bytes)(0 := VpiPage (vpi_demo # replicate (VPIPPAGE - 1) vpi_zero) 0)\<rparr>"

definition vspace_cow :: vspace where
  "vspace_cow = \<lparr>regions = [vregion_zero\<lparr>vr_pages := page_va 0\<rparr>, vregion_zero, vregion_zero], pgtbl = 0\<rparr>"

theorem vspacecopy_cow_witness:
  "\<exists>s'. vspacecopy vspace_cow vspace_cow 0 \<lparr>hw_cpu = \<lparr>ncli = 0, intena = True, eflags_IF = True\<rparr>, rsp0 = 0, cr3 = 0\<rparr> kmem_cow = do {
      (dst, t) \<leftarrow> vspaceinvalidate (vspace_cow\<lparr>regions := [vregion_zero\<lparr>vr_pages := page_va 2\<rparr>, vregion_zero, vregion_zero]\<rparr>) s';
      (src, t) \<leftarrow> vspaceinvalidate vspace_cow t;
      hw \<leftarrow> vspaceinstall 0 src \<lparr>hw_cpu = \<lparr>ncli = 0, intena = True, eflags_IF = True\<rparr>, rsp0 = 0, cr3 = 0\<rparr>;
      Some (0, dst, src, hw, t) } \<and> page_ref s' 1 = 3 \<and>
     vpi_read (page_va 0) 0 s' = Some (vpi_demo\<lparr>writable := 0, copy_on_write := 1\<rparr>) \<and>
     vpi_read (page_va 2) 0 s' = Some (vpi_demo\<lparr>writable := 0, copy_on_write := 1\<rparr>)"
proof -
  let ?infos = "vpi_demo # replicate (VPIPPAGE - 1) vpi_zero" and ?hw = "\<lparr>hw_cpu = \<lparr>ncli = 0, intena = True, eflags_IF = True\<rparr>, rsp0 = 0, cr3 = 0\<rparr>"
  let ?pgss = "[[(page_va 0, ?infos)], [], []]"
  have f: "frame_of (page_va 0) = 0" "frame_of (page_va 2) = 2" "page_va 0 \<noteq> 0" by (simp_all add: frame_of_def max_pages_def)
  have av: "\<And>c. page_avail kmem_cow c \<longleftrightarrow> c = 2" "page_live kmem_cow 1" "page_ref kmem_cow 1 = 2" "free_pages kmem_cow = 1"
    by (auto simp: page_avail_def page_live_def page_ref_def kmem_cow_def kmem_demo_def avail_def live_def cme_free_def cme_zero_def nth_Cons'
        split: if_splits)
  have cnt: "count_if (maps_frame 1) ?infos = 1" by (simp add: maps_frame_def vpi_demo_def vpi_zero_def)
  have v: "v \<in> set ?infos \<and> vused v \<noteq> 0 \<longleftrightarrow> v = vpi_demo" for v by (auto simp: vpi_zero_def vpi_demo_def)
  have "can_share (concat ?pgss) kmem_cow"
    unfolding can_share_def
  proof (intro conjI ballI impI)
    fix w assume w: "w \<in> set (chain_vpis (concat ?pgss))" "vused w \<noteq> 0"
    then have "w = vpi_demo" using v [of w] by simp
    then have "unat (ppn w) = 1" by (simp add: vpi_demo_def)
    then show "page_live kmem_cow (unat (ppn w))"
      "page_ref kmem_cow (unat (ppn w)) + count_if (maps_frame (unat (ppn w))) (chain_vpis (concat ?pgss)) < 2 ^ 15"
      using av(2,3) cnt by simp_all
  next
    show "kmem_ok kmem_cow" using kmem_demo_ok by (simp add: kmem_cow_def)
  qed (use f av in simp_all)
  moreover have "\<forall>pgs \<in> set ?pgss. vpi_chain kmem_cow pgs" using f by (simp add: kmem_cow_def VPIPPAGE_def)
  moreover have "map vr_pages (regions vspace_cow) = map first_page ?pgss" by (simp add: vspace_cow_def vregion_zero_def)
  ultimately obtain dss s' where 1: "shares (concat ?pgss) (concat dss) kmem_cow s'"
    "list_all2 (\<lambda>ds pgs. length ds = length pgs \<and> vpi_chain s' (parent_chain pgs) \<and> vpi_chain s' (child_chain ds pgs)) dss ?pgss"
    "vspacecopy vspace_cow vspace_cow 0 ?hw kmem_cow = do {
      (dst, t) \<leftarrow> vspaceinvalidate (vspace_cow\<lparr>regions := child_regions (regions vspace_cow) dss ?pgss\<rparr>) s';
      (src, t) \<leftarrow> vspaceinvalidate vspace_cow t;
      hw \<leftarrow> vspaceinstall 0 src ?hw;
      Some (0, dst, src, hw, t) }"
    using vspacecopy_cow [of ?pgss kmem_cow vspace_cow vspace_cow 0 ?hw] by blast
  obtain d where d: "dss = [[d], [], []]" using 1(2) by (auto simp: list_all2_Cons2 length_Suc_conv)
  moreover have "d = 2" using 1(1) av(1) by (simp add: shares_def d)
  ultimately have e: "dss = [[2], [], []]" by simp
  have r: "child_regions (regions vspace_cow) dss ?pgss = [vregion_zero\<lparr>vr_pages := page_va 2\<rparr>, vregion_zero, vregion_zero]"
    by (simp add: e child_regions_def child_chain_def vspace_cow_def vregion_zero_def)
  have p: "page_ref s' 1 = 3" using 1(1) av(2,3) cnt by (simp add: shares_def)
  have "frames s' 0 = VpiPage (map protect ?infos) 0" "frames s' 2 = VpiPage (map child_vpi ?infos) 0"
    using 1(2) f by (simp_all add: e parent_chain_def child_chain_def)
  then have "vpi_read (page_va 0) 0 s' = Some (vpi_demo\<lparr>writable := 0, copy_on_write := 1\<rparr>)"
      "vpi_read (page_va 2) 0 s' = Some (vpi_demo\<lparr>writable := 0, copy_on_write := 1\<rparr>)"
    using f by (simp_all add: vpi_read_def child_vpi_def protect_def vpi_demo_def)
  with p 1(3) [unfolded r] show ?thesis by blast
qed

end
