(* ===== verification/Xk_Proc.thy ===== *)
theory Xk_Proc
  imports Xk_File Xk_Vspace
begin

text \<open>
  Processes, \<open>kernel/proc.c\<close>: the process table, creating processes (\<open>allocproc\<close>, \<open>userinit\<close>, \<open>fork\<close>), ending and
  reaping them (\<open>exit\<close>, \<open>wait\<close>), growing the heap (\<open>sbrk\<close>), the scheduler, \<open>sleep\<close> and \<open>wakeup\<close>, and \<open>kill\<close>.
  A \<open>struct proc *\<close> is an index into \<open>ptable.proc\<close>. A call that gives up the CPU is split
  where \<open>swtch\<close> leaves it: \<open>sleep_out\<close> and \<open>sleep_in\<close>, \<open>yield_out\<close> and \<open>yield_in\<close>, and the
  rounds of \<open>wait\<close>; in between the scheduler runs. The trap frame and the saved context, which live on the kernel stack,
  are kept as values beside their addresses.
\<close>

section \<open>State (inc/proc.h, inc/trap.h)\<close>

record trap_frame =
  tf_rax :: u64
  tf_rbx :: u64
  tf_rcx :: u64
  tf_rdx :: u64
  tf_rbp :: u64
  tf_rsi :: u64
  tf_rdi :: u64
  tf_r8 :: u64
  tf_r9 :: u64
  tf_r10 :: u64
  tf_r11 :: u64
  tf_r12 :: u64
  tf_r13 :: u64
  tf_r14 :: u64
  tf_r15 :: u64
  tf_trapno :: u64
  tf_err :: u64
  tf_rip :: u64
  tf_cs :: u64
  tf_rflags :: u64
  tf_rsp :: u64
  tf_ss :: u64

record ctx =
  c_r15 :: u64
  c_r14 :: u64
  c_r13 :: u64
  c_r12 :: u64
  c_r11 :: u64
  c_rbx :: u64
  c_rbp :: u64
  c_rip :: u64

definition sizeof_trap_frame :: u64 where "sizeof_trap_frame = 176"
definition sizeof_context :: u64 where "sizeof_context = 64"

definition tf_zero :: trap_frame where
  "tf_zero = \<lparr>tf_rax = 0, tf_rbx = 0, tf_rcx = 0, tf_rdx = 0, tf_rbp = 0, tf_rsi = 0, tf_rdi = 0, tf_r8 = 0, tf_r9 = 0,
     tf_r10 = 0, tf_r11 = 0, tf_r12 = 0, tf_r13 = 0, tf_r14 = 0, tf_r15 = 0, tf_trapno = 0, tf_err = 0, tf_rip = 0,
     tf_cs = 0, tf_rflags = 0, tf_rsp = 0, tf_ss = 0\<rparr>"

definition ctx_zero :: ctx where
  "ctx_zero = \<lparr>c_r15 = 0, c_r14 = 0, c_r13 = 0, c_r12 = 0, c_r11 = 0, c_rbx = 0, c_rbp = 0, c_rip = 0\<rparr>"

datatype procstate = UNUSED | EMBRYO | SLEEPING | RUNNABLE | RUNNING | ZOMBIE

text \<open>What a process sleeps on: nothing (a null pointer), a process, an end of a pipe, or another kernel address.\<close>

datatype wchan = NoChan | ProcChan nat | PipeChan chan | AddrChan u64

record proc =
  p_vspace :: vspace
  kstack :: u64
  p_state :: procstate
  p_pid :: int
  p_parent :: "nat option"
  p_tfp :: u64
  p_tf :: trap_frame
  p_ret :: u64
  p_ctxp :: u64
  p_context :: ctx
  p_chan :: wchan
  p_killed :: int
  p_name :: string
  p_fds :: "nat option list"

definition NPROC :: nat where "NPROC = 64"

definition vspace_zero :: vspace where
  "vspace_zero = \<lparr>regions = replicate NREGIONS vregion_zero, pgtbl = 0\<rparr>"

definition proc_zero :: proc where
  "proc_zero = \<lparr>p_vspace = vspace_zero, kstack = 0, p_state = UNUSED, p_pid = 0, p_parent = None, p_tfp = 0,
     p_tf = tf_zero, p_ret = 0, p_ctxp = 0, p_context = ctx_zero, p_chan = NoChan, p_killed = 0, p_name = [],
     p_fds = replicate NOFILE None\<rparr>"

text \<open>
  The kernel: files (with the file system and the page allocator below them), the process table, the CPU, and the
  addresses the linker gives to \<open>forkret\<close>, \<open>trapret\<close> and \<open>data\<close>. \<open>saved\<close> holds the local \<open>intena\<close> of
  the kernel threads that are in \<open>sched\<close>.
\<close>

record kern =
  kfiles :: files
  procs :: "proc list"
  ptlock :: spinlock
  nextpid :: int
  initproc :: "nat option"
  curproc :: "nat option"
  hw :: mmu_regs
  kpml4 :: u64
  first_run :: bool
  saved :: "nat \<Rightarrow> bool"
  sym_forkret :: u64
  sym_trapret :: u64
  sym_data :: u64

abbreviation procp :: "kern \<Rightarrow> nat \<Rightarrow> proc" where "procp k i \<equiv> procs k ! i"

definition upd_proc :: "nat \<Rightarrow> (proc \<Rightarrow> proc) \<Rightarrow> kern \<Rightarrow> kern" where
  "upd_proc i f k = k\<lparr>procs := (procs k)[i := f (procs k ! i)]\<rparr>"

definition kmem_of :: "kern \<Rightarrow> kmem" where "kmem_of k = fkm (kfiles k)"

definition set_kmem :: "kmem \<Rightarrow> kern \<Rightarrow> kern" where
  "set_kmem s k = k\<lparr>kfiles := (kfiles k)\<lparr>fkm := s\<rparr>\<rparr>"

definition acquire_pt :: "kern \<Rightarrow> kern option" where
  "acquire_pt k = do {
     (c, l) \<leftarrow> acquire (hw_cpu (hw k)) (ptlock k);
     Some (k\<lparr>hw := (hw k)\<lparr>hw_cpu := c\<rparr>, ptlock := l\<rparr>) }"

definition release_pt :: "kern \<Rightarrow> kern option" where
  "release_pt k = do {
     (c, l) \<leftarrow> release (hw_cpu (hw k)) (ptlock k);
     Some (k\<lparr>hw := (hw k)\<lparr>hw_cpu := c\<rparr>, ptlock := l\<rparr>) }"

section \<open>Creating processes\<close>

definition pinit :: "kern \<Rightarrow> kern" where
  "pinit k = k\<lparr>ptlock := initlock ''ptable''\<rparr>"

definition allocproc :: "kern \<Rightarrow> (nat option \<times> kern) option" where
  "allocproc k = do {
     k \<leftarrow> acquire_pt k;
     (case for_first (\<lambda>i. p_state (procp k i) = UNUSED) 0 NPROC of
        None \<Rightarrow> do { k \<leftarrow> release_pt k; Some (None, k) }
      | Some i \<Rightarrow> do {
          let k = upd_proc i (\<lambda>p. p\<lparr>p_state := EMBRYO, p_pid := nextpid k, p_killed := 0\<rparr>) k;
          let k = k\<lparr>nextpid := c_int (nextpid k + 1)\<rparr>;
          k \<leftarrow> release_pt k;
          (v, s) \<leftarrow> kalloc (kmem_of k);
          let k = set_kmem s k;
          let k = upd_proc i (kstack_update (\<lambda>_. v)) k;
          (if v = 0 then Some (None, upd_proc i (p_state_update (\<lambda>_. UNUSED)) k)
           else do {
             let tfp = v + KSTACKSIZE - sizeof_trap_frame;
             let ctxp = tfp - 8 - sizeof_context;
             let k = upd_proc i (\<lambda>p. p\<lparr>p_tfp := tfp, p_ret := sym_trapret k, p_ctxp := ctxp,
                       p_context := ctx_zero\<lparr>c_rip := sym_forkret k\<rparr>\<rparr>) k;
             Some (Some i, k) }) }) }"

definition SEG_UCODE :: u64 where "SEG_UCODE = 4"
definition SEG_UDATA :: u64 where "SEG_UDATA = 5"
definition DPL_USER :: u64 where "DPL_USER = 3"
definition FLAGS_IF :: u64 where "FLAGS_IF = 512"

definition userinit :: "u8 list \<Rightarrow> kern \<Rightarrow> kern option" where
  "userinit initcode k = do {
     (r, k) \<leftarrow> allocproc k;
     (case r of None \<Rightarrow> None | Some i \<Rightarrow> do {
        let k = k\<lparr>initproc := Some i\<rparr>;
        (ret, vs, s) \<leftarrow> vspaceinit (sym_data k) (p_vspace (procp k i)) (kmem_of k);
        (if ret \<noteq> 0 then None
         else do {
           (vs, s) \<leftarrow> vspaceinitcode vs initcode s;
           let k = set_kmem s (upd_proc i (p_vspace_update (\<lambda>_. vs)) k);
           let tf = tf_zero\<lparr>tf_cs := push_bit 3 SEG_UCODE OR DPL_USER, tf_ss := push_bit 3 SEG_UDATA OR DPL_USER,
                      tf_rflags := FLAGS_IF, tf_rip := VRBOT (regions vs ! VR_CODE), tf_rsp := VRTOP (regions vs ! VR_USTACK)\<rparr>;
           let k = upd_proc i (\<lambda>p. p\<lparr>p_tf := tf, p_name := ''initcode''\<rparr>) k;
           k \<leftarrow> acquire_pt k;
           let k = upd_proc i (p_state_update (\<lambda>_. RUNNABLE)) k;
           release_pt k }) }) }"

text \<open>The loop of \<open>fork\<close> over the descriptors: the child shares the open files of the parent.\<close>

fun fork_fds :: "nat \<Rightarrow> nat \<Rightarrow> nat list \<Rightarrow> kern \<Rightarrow> kern" where
  "fork_fds me i [] k = k"
| "fork_fds me i (j # js) k = (case p_fds (procp k me) ! j of
      None \<Rightarrow> fork_fds me i js k
    | Some f \<Rightarrow>
        let k = upd_proc i (\<lambda>p. p\<lparr>p_fds := (p_fds p)[j := Some f]\<rparr>) k;
            k = k\<lparr>kfiles := upd_file f (f_ref_update (\<lambda>r. c_int (r + 1))) (kfiles k)\<rparr>
        in fork_fds me i js k)"

definition fork :: "kern \<Rightarrow> (int \<times> kern) option" where
  "fork k = do {
     me \<leftarrow> curproc k;
     (r, k) \<leftarrow> allocproc k;
     (case r of None \<Rightarrow> Some (-1, k) | Some i \<Rightarrow> do {
        (ret, vs, s) \<leftarrow> vspaceinit (sym_data k) (p_vspace (procp k i)) (kmem_of k);
        (if ret \<noteq> 0 then None
         else do {
           (ret, vs, mine, h, s) \<leftarrow> vspacecopy vs (p_vspace (procp k me)) (kstack (procp k me)) (hw k) s;
           (if ret \<noteq> 0 then None
            else do {
              let k = set_kmem s (k\<lparr>hw := h\<rparr>);
              let k = upd_proc me (p_vspace_update (\<lambda>_. mine)) (upd_proc i (p_vspace_update (\<lambda>_. vs)) k);
              let k = upd_proc i (p_tf_update (\<lambda>_. p_tf (procp k me))) k;
              k \<leftarrow> acquire_pt k;
              let k = upd_proc i (\<lambda>p. p\<lparr>p_tf := (p_tf p)\<lparr>tf_rax := 0\<rparr>, p_parent := Some me, p_state := RUNNABLE\<rparr>) k;
              let k = fork_fds me i [0..<NOFILE] k;
              k \<leftarrow> release_pt k;
              Some (p_pid (procp k i), k) }) }) }) }"

section \<open>Sleeping and waking up\<close>

definition wakeup1 :: "wchan \<Rightarrow> kern \<Rightarrow> kern" where
  "wakeup1 ch k = k\<lparr>procs := map (\<lambda>p. if p_state p = SLEEPING \<and> p_chan p = ch then p\<lparr>p_state := RUNNABLE\<rparr> else p) (procs k)\<rparr>"

definition wakeup :: "wchan \<Rightarrow> kern \<Rightarrow> kern option" where
  "wakeup ch k = do { k \<leftarrow> acquire_pt k; release_pt (wakeup1 ch k) }"

text \<open>The calls of \<open>wakeup\<close> that an operation on files made.\<close>

fun deliver :: "chan list \<Rightarrow> kern \<Rightarrow> kern option" where
  "deliver [] k = Some k"
| "deliver (c # cs) k = do { k \<leftarrow> wakeup (PipeChan c) k; deliver cs k }"

text \<open>An operation on files run by process \<open>me\<close>, on its own descriptors.\<close>

definition with_files :: "nat \<Rightarrow> (files \<Rightarrow> ('a \<times> files) option) \<Rightarrow> kern \<Rightarrow> ('a \<times> kern) option" where
  "with_files me f k = do {
     (r, s) \<leftarrow> f ((kfiles k)\<lparr>fd_table := p_fds (procp k me), woken := []\<rparr>);
     let k = upd_proc me (p_fds_update (\<lambda>_. fd_table s)) (k\<lparr>kfiles := s\<rparr>);
     k \<leftarrow> deliver (woken s) k;
     Some (r, k) }"

text \<open>\<open>sched\<close> up to \<open>swtch\<close>, and what follows when the thread is resumed.\<close>

definition sched_out :: "kern \<Rightarrow> kern option" where
  "sched_out k = do {
     me \<leftarrow> curproc k;
     (if \<not> holding (ptlock k) then None
      else if ncli (hw_cpu (hw k)) \<noteq> 1 then None
      else if p_state (procp k me) = RUNNING then None
      else if eflags_IF (hw_cpu (hw k)) then None
      else Some (k\<lparr>saved := (saved k)(me := intena (hw_cpu (hw k)))\<rparr>)) }"

definition sched_in :: "kern \<Rightarrow> kern option" where
  "sched_in k = do {
     me \<leftarrow> curproc k;
     Some (k\<lparr>hw := (hw k)\<lparr>hw_cpu := (hw_cpu (hw k))\<lparr>intena := saved k me\<rparr>\<rparr>\<rparr>) }"

text \<open>\<open>sleep(chan, lk)\<close> with \<open>lk = &ptable.lock\<close>, and with another lock.\<close>

definition sleep_out_pt :: "wchan \<Rightarrow> kern \<Rightarrow> kern option" where
  "sleep_out_pt ch k = do {
     me \<leftarrow> curproc k;
     sched_out (upd_proc me (\<lambda>p. p\<lparr>p_chan := ch, p_state := SLEEPING\<rparr>) k) }"

definition sleep_in_pt :: "kern \<Rightarrow> kern option" where
  "sleep_in_pt k = do {
     k \<leftarrow> sched_in k;
     me \<leftarrow> curproc k;
     Some (upd_proc me (p_chan_update (\<lambda>_. NoChan)) k) }"

definition sleep_out :: "wchan \<Rightarrow> spinlock \<Rightarrow> kern \<Rightarrow> (spinlock \<times> kern) option" where
  "sleep_out ch lk k = do {
     me \<leftarrow> curproc k;
     k \<leftarrow> acquire_pt k;
     (c, lk) \<leftarrow> release (hw_cpu (hw k)) lk;
     k \<leftarrow> sleep_out_pt ch (k\<lparr>hw := (hw k)\<lparr>hw_cpu := c\<rparr>\<rparr>);
     Some (lk, k) }"

definition sleep_in :: "spinlock \<Rightarrow> kern \<Rightarrow> (spinlock \<times> kern) option" where
  "sleep_in lk k = do {
     k \<leftarrow> sleep_in_pt k;
     k \<leftarrow> release_pt k;
     (c, lk) \<leftarrow> acquire (hw_cpu (hw k)) lk;
     Some (lk, k\<lparr>hw := (hw k)\<lparr>hw_cpu := c\<rparr>\<rparr>) }"

definition yield_out :: "kern \<Rightarrow> kern option" where
  "yield_out k = do {
     me \<leftarrow> curproc k;
     k \<leftarrow> acquire_pt k;
     sched_out (upd_proc me (p_state_update (\<lambda>_. RUNNABLE)) k) }"

definition yield_in :: "kern \<Rightarrow> kern option" where
  "yield_in k = do { k \<leftarrow> sched_in k; release_pt k }"

section \<open>The scheduler\<close>

text \<open>
  The process the scheduler's loop takes next when it goes on at index \<open>c\<close>: the first runnable one from there on, else, in the
  next pass, the first from the start of the table.
\<close>

definition next_proc :: "nat \<Rightarrow> proc list \<Rightarrow> nat option" where
  "next_proc c ps = (case for_first (\<lambda>i. p_state (ps ! i) = RUNNABLE) c NPROC of
      Some i \<Rightarrow> Some i
    | None \<Rightarrow> for_first (\<lambda>i. p_state (ps ! i) = RUNNABLE) 0 NPROC)"

definition sched_pick :: "nat \<Rightarrow> kern \<Rightarrow> kern option" where
  "sched_pick i k = do {
     let k = k\<lparr>curproc := Some i\<rparr>;
     h \<leftarrow> vspaceinstall (kstack (procp k i)) (p_vspace (procp k i)) (hw k);
     Some (upd_proc i (p_state_update (\<lambda>_. RUNNING)) (k\<lparr>hw := h\<rparr>)) }"

definition sched_back :: "kern \<Rightarrow> kern" where
  "sched_back k = k\<lparr>hw := vspaceinstallkern (kpml4 k) (hw k), curproc := None\<rparr>"

definition forkret :: "kern \<Rightarrow> kern option" where
  "forkret k = do {
     me \<leftarrow> curproc k;
     k \<leftarrow> release_pt k;
     (if first_run k then do {
        let k = k\<lparr>first_run := False\<rparr>;
        f \<leftarrow> iinit (p_pid (procp k me)) ROOTDEV (ffs (kfiles k));
        Some (k\<lparr>kfiles := (kfiles k)\<lparr>ffs := f\<rparr>\<rparr>) }
      else Some k) }"

section \<open>Ending processes\<close>

fun close_all :: "nat \<Rightarrow> nat list \<Rightarrow> kern \<Rightarrow> kern option" where
  "close_all me [] k = Some k"
| "close_all me (i # is) k =
     (if p_fds (procp k me) ! i \<noteq> None then do {
        (r, k) \<leftarrow> with_files me (fileclose (p_pid (procp k me)) i) k;
        close_all me is k }
      else close_all me is k)"

text \<open>\<open>exit\<close> up to the call of \<open>sched\<close>, from which it never comes back.\<close>

definition exit_out :: "kern \<Rightarrow> kern option" where
  "exit_out k = do {
     me \<leftarrow> curproc k;
     k \<leftarrow> close_all me [0..<NOFILE] k;
     k \<leftarrow> acquire_pt k;
     let k = k\<lparr>procs := map (\<lambda>p. if p_parent p = Some me then p\<lparr>p_parent := initproc k\<rparr> else p) (procs k)\<rparr>;
     let k = wakeup1 (case p_parent (procp k me) of None \<Rightarrow> NoChan | Some i \<Rightarrow> ProcChan i) k;
     let k = upd_proc me (p_state_update (\<lambda>_. ZOMBIE)) k;
     sched_out k }"

text \<open>
  \<open>wait\<close>: with the table locked, the first child in the table is looked for (\<open>wait_find\<close>); the call then waits for that
  child (\<open>WaitSleep\<close>) until it is a zombie, and reaps it.
\<close>

datatype wait_out = WaitSleep nat | WaitDone int

definition wait_find :: "nat \<Rightarrow> kern \<Rightarrow> nat option" where
  "wait_find me k = for_first (\<lambda>i. p_parent (procp k i) = Some me \<and> p_state (procp k i) \<noteq> UNUSED) 0 NPROC"

definition wait_child :: "nat \<Rightarrow> nat \<Rightarrow> kern \<Rightarrow> (wait_out \<times> kern) option" where
  "wait_child me i k =
     (if p_state (procp k i) \<noteq> ZOMBIE then do {
        k \<leftarrow> sleep_out_pt (ProcChan me) k;
        Some (WaitSleep i, k) }
      else do {
        s \<leftarrow> kfree (kstack (procp k i)) (kmem_of k);
        (vs, s) \<leftarrow> vspacefree (p_vspace (procp k i)) s;
        let k = set_kmem s k;
        let temp = p_pid (procp k i);
        let k = upd_proc i (\<lambda>_. proc_zero) k;
        k \<leftarrow> release_pt k;
        Some (WaitDone temp, k) })"

definition wait_begin :: "kern \<Rightarrow> (wait_out \<times> kern) option" where
  "wait_begin k = do {
     me \<leftarrow> curproc k;
     k \<leftarrow> acquire_pt k;
     (case wait_find me k of
        None \<Rightarrow> do { k \<leftarrow> release_pt k; Some (WaitDone (-1), k) }
      | Some i \<Rightarrow> wait_child me i k) }"

definition wait_again :: "nat \<Rightarrow> kern \<Rightarrow> (wait_out \<times> kern) option" where
  "wait_again i k = do {
     k \<leftarrow> sleep_in_pt k;
     me \<leftarrow> curproc k;
     wait_child me i k }"

section \<open>Heap and signals\<close>

definition sbrk :: "int \<Rightarrow> kern \<Rightarrow> (int \<times> kern) option" where
  "sbrk n k = do {
     k \<leftarrow> acquire_pt k;
     me \<leftarrow> curproc k;
     let vs = p_vspace (procp k me);
     let vr = regions vs ! VR_HEAP;
     let bound = va_base vr + vr_size vr;
     (if n < 0 \<and> (word_of_int (- n) :: u64) > vr_size vr then do { k \<leftarrow> release_pt k; Some (c_int (uint bound), k) }
      else do {
        (r, vr, s) \<leftarrow> (if n \<ge> 0 then vregionaddmap vr bound (word_of_int n) 1 1 (kmem_of k)
                        else vregiondelmap vr bound (word_of_int (- n)) (kmem_of k));
        let k = set_kmem s k;
        let vs = upd_region VR_HEAP (\<lambda>_. vr) vs;
        (if r < 0 then do {
           k \<leftarrow> release_pt (upd_proc me (p_vspace_update (\<lambda>_. vs)) k);
           Some (-1, k) }
         else do {
           let vs = upd_region VR_HEAP (vr_size_update (\<lambda>z. z + word_of_int n)) vs;
           (vs, s) \<leftarrow> vspaceinvalidate vs (kmem_of k);
           let k = upd_proc me (p_vspace_update (\<lambda>_. vs)) (set_kmem s k);
           k \<leftarrow> release_pt k;
           Some (c_int (uint bound), k) }) }) }"

definition kill :: "int \<Rightarrow> kern \<Rightarrow> (int \<times> kern) option" where
  "kill pid k = do {
     k \<leftarrow> acquire_pt k;
     (case for_first (\<lambda>i. p_pid (procp k i) = pid) 0 NPROC of
        None \<Rightarrow> do { k \<leftarrow> release_pt k; Some (-1, k) }
      | Some i \<Rightarrow> do {
          let k = upd_proc i (p_killed_update (\<lambda>_. 1)) k;
          let k = (if p_state (procp k i) = SLEEPING then upd_proc i (p_state_update (\<lambda>_. RUNNABLE)) k else k);
          k \<leftarrow> release_pt k;
          Some (0, k) }) }"

definition findproc :: "int \<Rightarrow> kern \<Rightarrow> nat option" where
  "findproc pid k = for_first (\<lambda>i. p_pid (procp k i) = pid) 0 NPROC"

section \<open>What every reachable process table satisfies\<close>

text \<open>
  Changes that leave alone which slots are in use, which one runs, and the process ids: everything but creating,
  scheduling, stopping and reaping a process.
\<close>

definition same_slots :: "kern \<Rightarrow> kern \<Rightarrow> bool" where
  "same_slots k k' \<longleftrightarrow> curproc k' = curproc k \<and> nextpid k' = nextpid k \<and> length (procs k') = length (procs k) \<and>
     (\<forall>i < length (procs k). p_pid (procp k' i) = p_pid (procp k i) \<and>
        (p_state (procp k' i) = RUNNING \<longleftrightarrow> p_state (procp k i) = RUNNING) \<and>
        (p_state (procp k' i) = UNUSED \<longleftrightarrow> p_state (procp k i) = UNUSED))"

lemma same_slots_refl [simp]: "same_slots k k"
  by (simp add: same_slots_def)

lemma same_slots_trans: "same_slots k k1 \<Longrightarrow> same_slots k1 k2 \<Longrightarrow> same_slots k k2"
  by (simp add: same_slots_def)

lemma procs_upd_proc [simp]: "procs (upd_proc i f k) = (procs k)[i := f (procp k i)]"
  "curproc (upd_proc i f k) = curproc k" "nextpid (upd_proc i f k) = nextpid k" "initproc (upd_proc i f k) = initproc k"
  "hw (upd_proc i f k) = hw k" "ptlock (upd_proc i f k) = ptlock k" "kfiles (upd_proc i f k) = kfiles k"
  by (simp_all add: upd_proc_def)

lemma procs_set_kmem [simp]: "procs (set_kmem s k) = procs k" "curproc (set_kmem s k) = curproc k"
  "nextpid (set_kmem s k) = nextpid k" "initproc (set_kmem s k) = initproc k"
  by (simp_all add: set_kmem_def)

lemma pt_lock_procs:
  "acquire_pt k = Some k' \<Longrightarrow> procs k' = procs k \<and> curproc k' = curproc k \<and> nextpid k' = nextpid k \<and> initproc k' = initproc k"
  "release_pt k = Some k' \<Longrightarrow> procs k' = procs k \<and> curproc k' = curproc k \<and> nextpid k' = nextpid k \<and> initproc k' = initproc k"
  by (auto simp: acquire_pt_def release_pt_def bind_eq_Some_conv)

lemma same_slots_procs: "procs k' = procs k \<Longrightarrow> curproc k' = curproc k \<Longrightarrow> nextpid k' = nextpid k \<Longrightarrow> same_slots k k'"
  by (simp add: same_slots_def)

lemma same_slots_pt: "acquire_pt k = Some k' \<Longrightarrow> same_slots k k'" "release_pt k = Some k' \<Longrightarrow> same_slots k k'"
  using pt_lock_procs by (auto intro: same_slots_procs)

lemma same_slots_upd:
  assumes "\<And>p. p_pid (f p) = p_pid p" "\<And>p. p_state (f p) = RUNNING \<longleftrightarrow> p_state p = RUNNING"
    "\<And>p. p_state (f p) = UNUSED \<longleftrightarrow> p_state p = UNUSED"
  shows "same_slots k (upd_proc i f k)"
  using assms by (auto simp: same_slots_def nth_upd)

lemma same_slots_wakeup1: "same_slots k (wakeup1 ch k)"
  by (simp add: same_slots_def wakeup1_def)

lemma same_slots_wakeup: "wakeup ch k = Some k' \<Longrightarrow> same_slots k k'"
  unfolding wakeup_def bind_eq_Some_conv
  by (meson same_slots_pt same_slots_trans same_slots_wakeup1)

lemma same_slots_deliver: "deliver cs k = Some k' \<Longrightarrow> same_slots k k'"
  by (induction cs arbitrary: k) (auto simp: bind_eq_Some_conv intro: same_slots_trans same_slots_wakeup)

lemma same_slots_with_files: "with_files me f k = Some (r, k') \<Longrightarrow> same_slots k k'"
proof -
  assume "with_files me f k = Some (r, k')"
  then obtain s where "deliver (woken s) (upd_proc me (p_fds_update (\<lambda>_. fd_table s)) (k\<lparr>kfiles := s\<rparr>)) = Some k'"
    by (auto simp: with_files_def bind_eq_Some_conv Let_def)
  moreover have "same_slots k (k\<lparr>kfiles := s\<rparr>)" by (rule same_slots_procs) simp_all
  moreover have "same_slots (k\<lparr>kfiles := s\<rparr>) (upd_proc me (p_fds_update (\<lambda>_. fd_table s)) (k\<lparr>kfiles := s\<rparr>))"
    by (rule same_slots_upd) simp_all
  ultimately show ?thesis using same_slots_deliver same_slots_trans by blast
qed

lemma same_slots_close_all: "close_all me is k = Some k' \<Longrightarrow> same_slots k k'"
  by (induction "is" arbitrary: k)
     (auto simp: bind_eq_Some_conv split: if_splits intro: same_slots_trans same_slots_with_files)

lemma same_slots_kill: "kill pid k = Some (r, k') \<Longrightarrow> same_slots k k'"
proof -
  assume "kill pid k = Some (r, k')"
  then obtain k1 k2 where k1: "acquire_pt k = Some k1" and k2: "release_pt k2 = Some k'" and c: "k2 = k1 \<or> (\<exists>i. k2 =
      (let k = upd_proc i (p_killed_update (\<lambda>_. 1)) k1 in if p_state (procp k i) = SLEEPING then upd_proc i (p_state_update (\<lambda>_. RUNNABLE)) k else k))"
    by (auto simp: kill_def bind_eq_Some_conv Let_def split: option.splits)
  have "same_slots k1 k2"
    using c by (auto simp: same_slots_def nth_upd Let_def split: if_splits)
  then show ?thesis using k1 k2 same_slots_pt same_slots_trans by meson
qed

lemma same_slots_sched:
  "sched_out k = Some k' \<Longrightarrow> same_slots k k' \<and> procs k' = procs k" "sched_in k = Some k' \<Longrightarrow> same_slots k k' \<and> procs k' = procs k"
  by (auto simp: sched_out_def sched_in_def bind_eq_Some_conv intro: same_slots_procs split: if_splits)

lemma same_slots_sleep_in_pt: "sleep_in_pt k = Some k' \<Longrightarrow> same_slots k k'"
  unfolding sleep_in_pt_def bind_eq_Some_conv
  using same_slots_sched(2) same_slots_upd [of "p_chan_update (\<lambda>_. NoChan)"] same_slots_trans by fastforce

lemma same_slots_in:
  "yield_in k = Some k' \<Longrightarrow> same_slots k k'" "sleep_in lk k = Some (lk', k') \<Longrightarrow> same_slots k k'" "forkret k = Some k' \<Longrightarrow> same_slots k k'"
proof -
  show "yield_in k = Some k' \<Longrightarrow> same_slots k k'"
    unfolding yield_in_def bind_eq_Some_conv using same_slots_sched(2) same_slots_pt(2) same_slots_trans by blast
  show "sleep_in lk k = Some (lk', k') \<Longrightarrow> same_slots k k'"
  proof -
    assume "sleep_in lk k = Some (lk', k')"
    then obtain k1 k2 c where "sleep_in_pt k = Some k1" "release_pt k1 = Some k2" "k' = k2\<lparr>hw := (hw k2)\<lparr>hw_cpu := c\<rparr>\<rparr>"
      by (auto simp: sleep_in_def bind_eq_Some_conv)
    moreover have "same_slots k2 (k2\<lparr>hw := (hw k2)\<lparr>hw_cpu := c\<rparr>\<rparr>)" by (rule same_slots_procs) simp_all
    ultimately show ?thesis using same_slots_sleep_in_pt same_slots_pt(2) same_slots_trans by blast
  qed
  show "forkret k = Some k' \<Longrightarrow> same_slots k k'"
  proof -
    assume "forkret k = Some k'"
    then obtain k1 where "release_pt k = Some k1" "procs k' = procs k1" "curproc k' = curproc k1" "nextpid k' = nextpid k1"
      by (auto simp: forkret_def bind_eq_Some_conv Let_def split: if_splits)
    then show ?thesis using pt_lock_procs(2) same_slots_procs by metis
  qed
qed

lemma same_slots_vspace [simp]:
  "same_slots (upd_proc me (p_vspace_update f) (set_kmem s k)) k' \<longleftrightarrow> same_slots k k'"
  by (auto simp: same_slots_def nth_upd)

lemma set_kmem_twice [simp]: "set_kmem s (set_kmem t k) = set_kmem s k"
  by (simp add: set_kmem_def)

lemma same_slots_sbrk: "sbrk n k = Some (r, k') \<Longrightarrow> same_slots k k'"
  by (auto simp: sbrk_def bind_eq_Some_conv Let_def split: if_splits dest!: same_slots_pt intro: same_slots_trans)

text \<open>
  The invariant: a process is \<open>RUNNING\<close> exactly when it is the one on the CPU, and the processes in use have distinct positive
  ids below \<open>nextpid\<close>.
\<close>

definition proc_inv :: "kern \<Rightarrow> bool" where
  "proc_inv k \<longleftrightarrow> length (procs k) = NPROC \<and> (\<forall>i. curproc k = Some i \<longrightarrow> i < NPROC) \<and>
     (\<forall>i < NPROC. p_state (procp k i) = RUNNING \<longleftrightarrow> curproc k = Some i) \<and>
     (\<forall>i < NPROC. p_state (procp k i) \<noteq> UNUSED \<longrightarrow> 0 < p_pid (procp k i) \<and> p_pid (procp k i) < nextpid k) \<and>
     (\<forall>i < NPROC. \<forall>j < NPROC. p_state (procp k i) \<noteq> UNUSED \<and> p_state (procp k j) \<noteq> UNUSED \<and>
        p_pid (procp k i) = p_pid (procp k j) \<longrightarrow> i = j) \<and> 0 < nextpid k"

lemma proc_inv_same: "proc_inv k \<Longrightarrow> same_slots k k' \<Longrightarrow> proc_inv k'"
  by (simp add: proc_inv_def same_slots_def)

lemma proc_invD:
  assumes "proc_inv k"
  shows "length (procs k) = NPROC" "curproc k = Some i \<Longrightarrow> i < NPROC"
    "i < NPROC \<Longrightarrow> p_state (procp k i) = RUNNING \<longleftrightarrow> curproc k = Some i"
    "i < NPROC \<Longrightarrow> p_state (procp k i) \<noteq> UNUSED \<Longrightarrow> 0 < p_pid (procp k i) \<and> p_pid (procp k i) < nextpid k"
    "i < NPROC \<Longrightarrow> j < NPROC \<Longrightarrow> p_state (procp k i) \<noteq> UNUSED \<Longrightarrow> p_state (procp k j) \<noteq> UNUSED \<Longrightarrow>
       p_pid (procp k i) = p_pid (procp k j) \<Longrightarrow> i = j" "0 < nextpid k"
  using assms by (auto simp: proc_inv_def)

text \<open>The four changes of the slots: a slot is taken, freed, put on the CPU, taken off the CPU.\<close>

lemma inv_take:
  assumes inv: "proc_inv k" and i: "i < NPROC" "p_state (procp k i) = UNUSED"
    and f: "p_state (f (procp k i)) \<notin> {UNUSED, RUNNING}" "p_pid (f (procp k i)) = nextpid k"
  shows "proc_inv ((upd_proc i f k)\<lparr>nextpid := nextpid k + 1\<rparr>)"
proof -
  note d = proc_invD [OF inv]
  have cur: "curproc k \<noteq> Some i" using d(3) [OF i(1)] i(2) by auto
  have lt: "p_pid (procp k j) < nextpid k" if "j < NPROC" "p_state (procp k j) \<noteq> UNUSED" for j using d(4) [OF that] by simp
  show ?thesis
    unfolding proc_inv_def
  proof (intro conjI allI impI)
    fix a b assume ab: "a < NPROC" "b < NPROC"
    and h: "p_state (procp ((upd_proc i f k)\<lparr>nextpid := nextpid k + 1\<rparr>) a) \<noteq> UNUSED \<and>
       p_state (procp ((upd_proc i f k)\<lparr>nextpid := nextpid k + 1\<rparr>) b) \<noteq> UNUSED \<and>
       p_pid (procp ((upd_proc i f k)\<lparr>nextpid := nextpid k + 1\<rparr>) a) = p_pid (procp ((upd_proc i f k)\<lparr>nextpid := nextpid k + 1\<rparr>) b)"
    then show "a = b"
      using lt [of a] lt [of b] d(5) [of a b] f(2) i(1) d(1)
      by (cases "a = i"; cases "b = i") (auto simp: nth_upd)
  qed (use d cur f i lt [THEN less_imp_le] in \<open>auto simp: nth_upd split: if_splits\<close>)
qed

lemma inv_slot:
  assumes inv: "proc_inv k" and i: "i < NPROC" "curproc k \<noteq> Some i"
    and f: "p_state (f (procp k i)) \<noteq> RUNNING" "p_state (f (procp k i)) = UNUSED \<or> (p_state (procp k i) \<noteq> UNUSED \<and> p_pid (f (procp k i)) = p_pid (procp k i))"
  shows "proc_inv (upd_proc i f k)"
proof -
  note d = proc_invD [OF inv]
  show ?thesis
    unfolding proc_inv_def
  proof (intro conjI allI impI)
    fix a b assume ab: "a < NPROC" "b < NPROC" and h: "p_state (procp (upd_proc i f k) a) \<noteq> UNUSED \<and>
       p_state (procp (upd_proc i f k) b) \<noteq> UNUSED \<and> p_pid (procp (upd_proc i f k) a) = p_pid (procp (upd_proc i f k) b)"
    then show "a = b"
      using d(5) [of a b] f(2) i(1) d(1) by (cases "a = i"; cases "b = i") (auto simp: nth_upd)
  qed (use d(1,2,3,4,6) i f in \<open>auto simp: nth_upd split: if_splits\<close>)
qed

lemma inv_stop:
  assumes inv: "proc_inv k" and me: "curproc k = Some me"
    and f: "p_state (f (procp k me)) \<notin> {RUNNING, UNUSED}" "p_pid (f (procp k me)) = p_pid (procp k me)"
  shows "proc_inv ((upd_proc me f k)\<lparr>curproc := None\<rparr>)"
proof -
  note d = proc_invD [OF inv]
  have i: "me < NPROC" using d(2) [OF me] .
  have u: "p_state (procp k me) = RUNNING" using d(3) [OF i] me by simp
  show ?thesis
    unfolding proc_inv_def
  proof (intro conjI allI impI)
    fix a b assume ab: "a < NPROC" "b < NPROC" and h: "p_state (procp ((upd_proc me f k)\<lparr>curproc := None\<rparr>) a) \<noteq> UNUSED \<and>
       p_state (procp ((upd_proc me f k)\<lparr>curproc := None\<rparr>) b) \<noteq> UNUSED \<and>
       p_pid (procp ((upd_proc me f k)\<lparr>curproc := None\<rparr>) a) = p_pid (procp ((upd_proc me f k)\<lparr>curproc := None\<rparr>) b)"
    then show "a = b"
      using d(5) [of a b] f u i d(1) by (cases "a = me"; cases "b = me") (auto simp: nth_upd)
  next
    fix a assume a: "a < NPROC" and h: "p_state (procp ((upd_proc me f k)\<lparr>curproc := None\<rparr>) a) \<noteq> UNUSED"
    show "0 < p_pid (procp ((upd_proc me f k)\<lparr>curproc := None\<rparr>) a)"
      "p_pid (procp ((upd_proc me f k)\<lparr>curproc := None\<rparr>) a) < nextpid ((upd_proc me f k)\<lparr>curproc := None\<rparr>)"
      using d(4) [OF a] h f u a d(1) by (auto simp: nth_upd split: if_splits)
  qed (use d(1,3,6) me i f in \<open>auto simp: nth_upd split: if_splits\<close>)
qed

lemma inv_pick:
  assumes inv: "proc_inv k" and c: "curproc k = None" and i: "i < NPROC" "p_state (procp k i) = RUNNABLE"
  shows "proc_inv ((upd_proc i (p_state_update (\<lambda>_. RUNNING)) k)\<lparr>curproc := Some i\<rparr>)"
proof -
  note d = proc_invD [OF inv]
  show ?thesis
    unfolding proc_inv_def
  proof (intro conjI allI impI)
    fix a b assume ab: "a < NPROC" "b < NPROC"
    and h: "p_state (procp ((upd_proc i (p_state_update (\<lambda>_. RUNNING)) k)\<lparr>curproc := Some i\<rparr>) a) \<noteq> UNUSED \<and>
       p_state (procp ((upd_proc i (p_state_update (\<lambda>_. RUNNING)) k)\<lparr>curproc := Some i\<rparr>) b) \<noteq> UNUSED \<and>
       p_pid (procp ((upd_proc i (p_state_update (\<lambda>_. RUNNING)) k)\<lparr>curproc := Some i\<rparr>) a) =
       p_pid (procp ((upd_proc i (p_state_update (\<lambda>_. RUNNING)) k)\<lparr>curproc := Some i\<rparr>) b)"
    then show "a = b"
      using d(5) [of a b] i d(1) by (cases "a = i"; cases "b = i") (auto simp: nth_upd)
  qed (use d(1,3,4,6) c i in \<open>auto simp: nth_upd split: if_splits\<close>)
qed

lemma allocproc_inv:
  assumes "allocproc k = Some (r, k')" "proc_inv k" "nextpid k < 2 ^ 31 - 1"
  shows "proc_inv k' \<and> curproc k' = curproc k \<and>
    (\<forall>i. r = Some i \<longrightarrow> i < NPROC \<and> p_state (procp k' i) = EMBRYO)"
proof -
  obtain k1 where k1: "acquire_pt k = Some k1" using assms(1) by (auto simp: allocproc_def bind_eq_Some_conv)
  have inv1: "proc_inv k1" "curproc k1 = curproc k" "nextpid k1 = nextpid k"
    using proc_inv_same [OF assms(2) same_slots_pt(1) [OF k1]] pt_lock_procs(1) [OF k1] by simp_all
  show ?thesis
  proof (cases "for_first (\<lambda>i. p_state (procp k1 i) = UNUSED) 0 NPROC")
    case None
    then have "release_pt k1 = Some k'" "r = None" using assms(1) k1 by (auto simp: allocproc_def bind_eq_Some_conv)
    then show ?thesis using proc_inv_same [OF inv1(1) same_slots_pt(2)] pt_lock_procs(2) inv1(2) by simp
  next
    case (Some i)
    then have i: "i < NPROC" "p_state (procp k1 i) = UNUSED" by (auto simp: for_first_Some)
    let ?f = "\<lambda>p. p\<lparr>p_state := EMBRYO, p_pid := nextpid k1, p_killed := 0\<rparr>"
    define k2 where "k2 = (upd_proc i ?f k1)\<lparr>nextpid := nextpid k1 + 1\<rparr>"
    have n: "c_int (nextpid k1 + 1) = nextpid k1 + 1"
      using assms(3) inv1(3) proc_invD(6) [OF inv1(1)] by (intro c_int_id) auto
    have inv2: "proc_inv k2" unfolding k2_def by (rule inv_take [OF inv1(1) i]) simp_all
    obtain k3 where k3: "release_pt k2 = Some k3"
      using assms(1) k1 Some n by (auto simp: allocproc_def bind_eq_Some_conv Let_def k2_def)
    have inv3: "proc_inv k3" "curproc k3 = curproc k"
      using proc_inv_same [OF inv2 same_slots_pt(2) [OF k3]] pt_lock_procs(2) [OF k3] inv1(2) by (simp_all add: k2_def)
    have len: "i < length (procs k3)" using proc_invD(1) [OF inv3(1)] i by simp
    have st: "p_state (procp k3 i) = EMBRYO"
      using pt_lock_procs(2) [OF k3] proc_invD(1) [OF inv1(1)] i(1) by (simp add: k2_def)
    have cur: "curproc k3 \<noteq> Some i" using proc_invD(3) [OF inv3(1) i(1)] st by auto
    have q: "procs k' = (procs k3)[i := procp k' i] \<and> p_pid (procp k' i) = p_pid (procp k3 i) \<and>
        p_state (procp k' i) = (if r = None then UNUSED else EMBRYO) \<and> (r = None \<or> r = Some i) \<and>
        curproc k' = curproc k3 \<and> nextpid k' = nextpid k3"
      using assms(1) k1 Some n k3 len st
      by (auto simp: allocproc_def bind_eq_Some_conv Let_def k2_def split: if_splits)
    have "proc_inv (upd_proc i (\<lambda>_. procp k' i) k3)"
      by (rule inv_slot [OF inv3(1) i(1) cur]) (use q st in \<open>auto split: if_splits\<close>)
    then have "proc_inv k'" by (rule proc_inv_same) (use q in \<open>auto intro: same_slots_procs\<close>)
    then show ?thesis using inv3(2) i(1) q by auto
  qed
qed

lemma same_slots_fork_fds: "same_slots k (fork_fds me i js k)"
proof (induction js arbitrary: k)
  case (Cons j js)
  show ?case
  proof (cases "p_fds (procp k me) ! j")
    case (Some f)
    let ?k = "(upd_proc i (\<lambda>p. p\<lparr>p_fds := (p_fds p)[j := Some f]\<rparr>) k)\<lparr>kfiles := upd_file f (f_ref_update (\<lambda>r. c_int (r + 1))) (kfiles k)\<rparr>"
    have "same_slots k ?k" by (auto simp: same_slots_def nth_upd)
    then show ?thesis using Cons.IH [of ?k] Some by (auto simp: Let_def intro: same_slots_trans)
  qed (use Cons.IH in auto)
qed simp

lemma fork_inv:
  assumes f: "fork k = Some (r, k')" and inv: "proc_inv k" "nextpid k < 2 ^ 31 - 1"
  shows "proc_inv k'"
proof -
  obtain me a k1 where me: "curproc k = Some me" and a: "allocproc k = Some (a, k1)"
    using f by (auto simp: fork_def bind_eq_Some_conv)
  note al = allocproc_inv [OF a inv]
  show ?thesis
  proof (cases a)
    case None
    then show ?thesis using f me a al by (simp add: fork_def)
  next
    case (Some i)
    obtain s h mine vs tf k3 g where k3: "acquire_pt (upd_proc i (p_tf_update tf) (upd_proc me (p_vspace_update (\<lambda>_. mine))
           (upd_proc i (p_vspace_update (\<lambda>_. vs)) (set_kmem s (k1\<lparr>hw := h\<rparr>))))) = Some k3"
      and k': "release_pt (fork_fds me i [0..<NOFILE] (upd_proc i (\<lambda>p. (g p)\<lparr>p_state := RUNNABLE\<rparr>) k3)) = Some k'"
      and g: "\<And>p. p_pid (g p) = p_pid p"
      using f me a Some by (auto simp: fork_def bind_eq_Some_conv Let_def split: if_splits)
    have s1: "same_slots k1 (upd_proc i (p_tf_update tf) (upd_proc me (p_vspace_update (\<lambda>_. mine))
           (upd_proc i (p_vspace_update (\<lambda>_. vs)) (set_kmem s (k1\<lparr>hw := h\<rparr>)))))"
      by (auto simp: same_slots_def nth_upd)
    have inv3: "proc_inv k3" using proc_inv_same al s1 same_slots_pt(1) [OF k3] by blast
    have i: "i < NPROC" "p_state (procp k1 i) = EMBRYO" using al Some by auto
    have st: "p_state (procp k3 i) = EMBRYO"
      using pt_lock_procs(1) [OF k3] i proc_invD(1) [of k1] al by (auto simp: nth_upd)
    have cur: "curproc k3 \<noteq> Some i" using proc_invD(3) [OF inv3 i(1)] st by auto
    have "proc_inv (upd_proc i (\<lambda>p. (g p)\<lparr>p_state := RUNNABLE\<rparr>) k3)"
      by (rule inv_slot [OF inv3 i(1) cur]) (use st g in simp_all)
    then show ?thesis using proc_inv_same same_slots_fork_fds same_slots_pt(2) [OF k'] by blast
  qed
qed

lemma stop_inv:
  assumes "proc_inv k" "curproc k = Some me" "same_slots (upd_proc me f k) k'"
    "p_state (f (procp k me)) \<notin> {RUNNING, UNUSED}" "p_pid (f (procp k me)) = p_pid (procp k me)"
  shows "proc_inv (sched_back k')"
proof -
  have "proc_inv ((upd_proc me f k)\<lparr>curproc := None\<rparr>)" by (rule inv_stop) (use assms in auto)
  then show ?thesis
    by (rule proc_inv_same) (use assms(3) in \<open>auto simp: same_slots_def sched_back_def\<close>)
qed

lemma yield_inv: "yield_out k = Some k' \<Longrightarrow> proc_inv k \<Longrightarrow> proc_inv (sched_back k')"
proof -
  assume y: "yield_out k = Some k'" and inv: "proc_inv k"
  then obtain me k1 where me: "curproc k = Some me" and k1: "acquire_pt k = Some k1"
    and k': "sched_out (upd_proc me (p_state_update (\<lambda>_. RUNNABLE)) k1) = Some k'"
    by (auto simp: yield_out_def bind_eq_Some_conv)
  show ?thesis
    by (rule stop_inv [OF proc_inv_same [OF inv same_slots_pt(1) [OF k1]] _ conjunct1 [OF same_slots_sched(1) [OF k']]])
       (use pt_lock_procs(1) [OF k1] me in auto)
qed

lemma sleep_pt_inv: "sleep_out_pt ch k = Some k' \<Longrightarrow> proc_inv k \<Longrightarrow> proc_inv (sched_back k')"
proof -
  assume y: "sleep_out_pt ch k = Some k'" and inv: "proc_inv k"
  then obtain me where me: "curproc k = Some me"
    and k': "sched_out (upd_proc me (\<lambda>p. p\<lparr>p_chan := ch, p_state := SLEEPING\<rparr>) k) = Some k'"
    by (auto simp: sleep_out_pt_def bind_eq_Some_conv)
  show ?thesis
    by (rule stop_inv [OF inv me conjunct1 [OF same_slots_sched(1) [OF k']]]) simp_all
qed

lemma sleep_inv: "sleep_out ch lk k = Some (lk', k') \<Longrightarrow> proc_inv k \<Longrightarrow> proc_inv (sched_back k')"
proof -
  assume y: "sleep_out ch lk k = Some (lk', k')" and inv: "proc_inv k"
  then obtain k1 c where k1: "acquire_pt k = Some k1" and k': "sleep_out_pt ch (k1\<lparr>hw := (hw k1)\<lparr>hw_cpu := c\<rparr>\<rparr>) = Some k'"
    by (auto simp: sleep_out_def bind_eq_Some_conv)
  have "proc_inv (k1\<lparr>hw := (hw k1)\<lparr>hw_cpu := c\<rparr>\<rparr>)"
    by (rule proc_inv_same [OF proc_inv_same [OF inv same_slots_pt(1) [OF k1]]]) (simp add: same_slots_procs)
  then show ?thesis using sleep_pt_inv [OF k'] by simp
qed

lemma exit_inv: "exit_out k = Some k' \<Longrightarrow> proc_inv k \<Longrightarrow> proc_inv (sched_back k')"
proof -
  assume e: "exit_out k = Some k'" and inv: "proc_inv k"
  then obtain me k1 k2 where me: "curproc k = Some me" and k1: "close_all me [0..<NOFILE] k = Some k1" and k2: "acquire_pt k1 = Some k2"
    and k': "\<exists>ch. sched_out (upd_proc me (p_state_update (\<lambda>_. ZOMBIE)) (wakeup1 ch (k2\<lparr>procs := map (\<lambda>p. if p_parent p = Some me
       then p\<lparr>p_parent := initproc k2\<rparr> else p) (procs k2)\<rparr>))) = Some k'"
    by (auto simp: exit_out_def bind_eq_Some_conv Let_def)
  then obtain ch where s: "sched_out (upd_proc me (p_state_update (\<lambda>_. ZOMBIE)) (wakeup1 ch (k2\<lparr>procs := map (\<lambda>p. if p_parent p = Some me
       then p\<lparr>p_parent := initproc k2\<rparr> else p) (procs k2)\<rparr>))) = Some k'" by blast
  have ss: "same_slots k2 (k2\<lparr>procs := map (\<lambda>p. if p_parent p = Some me then p\<lparr>p_parent := initproc k2\<rparr> else p) (procs k2)\<rparr>)"
    by (simp add: same_slots_def)
  then have st: "same_slots k (wakeup1 ch (k2\<lparr>procs := map (\<lambda>p. if p_parent p = Some me then p\<lparr>p_parent := initproc k2\<rparr> else p) (procs k2)\<rparr>))"
    using same_slots_close_all [OF k1] same_slots_pt(1) [OF k2] same_slots_wakeup1 same_slots_trans by meson
  show ?thesis
    by (rule stop_inv [OF proc_inv_same [OF inv st] _ conjunct1 [OF same_slots_sched(1) [OF s]]])
       (use me st in \<open>auto simp: same_slots_def\<close>)
qed

lemma wait_child_inv:
  assumes w: "wait_child me i k = Some (r, k')" and inv: "proc_inv k" and i: "i < NPROC"
  shows "(case r of WaitSleep j \<Rightarrow> proc_inv (sched_back k') | WaitDone pid \<Rightarrow> proc_inv k')"
proof (cases "p_state (procp k i) = ZOMBIE")
  case False
  then obtain k1 where "sleep_out_pt (ProcChan me) k = Some k1" "r = WaitSleep i" "k' = k1"
    using w by (auto simp: wait_child_def bind_eq_Some_conv)
  then show ?thesis using sleep_pt_inv inv by auto
next
  case True
  then obtain s where k': "release_pt (upd_proc i (\<lambda>_. proc_zero) (set_kmem s k)) = Some k'" and r: "\<exists>pid. r = WaitDone pid"
    using w by (auto simp: wait_child_def bind_eq_Some_conv Let_def)
  have "proc_inv (set_kmem s k)" by (rule proc_inv_same [OF inv]) (simp add: same_slots_procs)
  moreover have "curproc k \<noteq> Some i" using proc_invD(3) [OF inv i] True by auto
  ultimately have "proc_inv (upd_proc i (\<lambda>_. proc_zero) (set_kmem s k))"
    by (intro inv_slot) (use i in \<open>auto simp: proc_zero_def\<close>)
  then show ?thesis using proc_inv_same same_slots_pt(2) [OF k'] r by auto
qed

lemma wait_inv:
  "wait_begin k = Some (r, k') \<Longrightarrow> proc_inv k \<Longrightarrow> (case r of WaitSleep j \<Rightarrow> proc_inv (sched_back k') | WaitDone pid \<Rightarrow> proc_inv k')"
  "wait_again i k = Some (r, k') \<Longrightarrow> i < NPROC \<Longrightarrow> proc_inv k \<Longrightarrow> (case r of WaitSleep j \<Rightarrow> proc_inv (sched_back k') | WaitDone pid \<Rightarrow> proc_inv k')"
proof -
  show "case r of WaitSleep j \<Rightarrow> proc_inv (sched_back k') | WaitDone pid \<Rightarrow> proc_inv k'" if w: "wait_begin k = Some (r, k')" and inv: "proc_inv k"
  proof -
    obtain me k1 where me: "curproc k = Some me" and k1: "acquire_pt k = Some k1"
      using w by (auto simp: wait_begin_def bind_eq_Some_conv)
    have inv1: "proc_inv k1" by (rule proc_inv_same [OF inv same_slots_pt(1) [OF k1]])
    show ?thesis
    proof (cases "wait_find me k1")
      case None
      then show ?thesis using w me k1 proc_inv_same [OF inv1 same_slots_pt(2)] by (auto simp: wait_begin_def bind_eq_Some_conv)
    next
      case (Some i)
      then have "i < NPROC" by (auto simp: wait_find_def for_first_Some)
      moreover have "wait_child me i k1 = Some (r, k')" using w me k1 Some by (auto simp: wait_begin_def)
      ultimately show ?thesis using wait_child_inv [OF _ inv1] by blast
    qed
  qed
  show "case r of WaitSleep j \<Rightarrow> proc_inv (sched_back k') | WaitDone pid \<Rightarrow> proc_inv k'"
    if w: "wait_again i k = Some (r, k')" and i: "i < NPROC" and inv: "proc_inv k"
  proof -
    obtain me k1 where k1: "sleep_in_pt k = Some k1" "wait_child me i k1 = Some (r, k')"
      using w by (auto simp: wait_again_def bind_eq_Some_conv)
    show ?thesis by (rule wait_child_inv [OF k1(2) proc_inv_same [OF inv same_slots_sleep_in_pt [OF k1(1)]] i])
  qed
qed

lemma pick_inv:
  assumes p: "sched_pick i k = Some k'" and n: "next_proc c (procs k) = Some i" and cur: "curproc k = None" and inv: "proc_inv k"
  shows "proc_inv k'"
proof -
  have i: "i < NPROC" "p_state (procp k i) = RUNNABLE"
    using n by (auto simp: next_proc_def for_first_Some split: option.splits)
  have "proc_inv ((upd_proc i (p_state_update (\<lambda>_. RUNNING)) k)\<lparr>curproc := Some i\<rparr>)" by (rule inv_pick [OF inv cur i])
  then show ?thesis
    by (rule proc_inv_same) (use p in \<open>auto simp: sched_pick_def bind_eq_Some_conv Let_def intro!: same_slots_procs\<close>)
qed

section \<open>Interleavings\<close>

text \<open>
  What the kernel does to its processes, one event at a time: the scheduler puts a process on the CPU, the process on the CPU
  makes a call, gives up the CPU, or comes back from having given it up. The second component is where the scheduler's loop over
  the table goes on. Processes are created fewer than \<open>2 ^ 31\<close> times.
\<close>

inductive kstep :: "kern \<times> nat \<Rightarrow> kern \<times> nat \<Rightarrow> bool" where
  pick: "curproc k = None \<Longrightarrow> next_proc c (procs k) = Some i \<Longrightarrow> sched_pick i k = Some k' \<Longrightarrow> kstep (k, c) (k', Suc i)"
| yield: "yield_out k = Some k' \<Longrightarrow> kstep (k, c) (sched_back k', c)"
| yielded: "yield_in k = Some k' \<Longrightarrow> kstep (k, c) (k', c)"
| sleep: "sleep_out ch lk k = Some (lk', k') \<Longrightarrow> kstep (k, c) (sched_back k', c)"
| slept: "sleep_in lk k = Some (lk', k') \<Longrightarrow> kstep (k, c) (k', c)"
| start: "forkret k = Some k' \<Longrightarrow> kstep (k, c) (k', c)"
| fork: "fork k = Some (r, k') \<Longrightarrow> nextpid k < 2 ^ 31 - 1 \<Longrightarrow> kstep (k, c) (k', c)"
| exit: "exit_out k = Some k' \<Longrightarrow> kstep (k, c) (sched_back k', c)"
| wait_sleep: "wait_begin k = Some (WaitSleep i, k') \<Longrightarrow> kstep (k, c) (sched_back k', c)"
| wait_done: "wait_begin k = Some (WaitDone pid, k') \<Longrightarrow> kstep (k, c) (k', c)"
| wait_resleep: "wait_again i k = Some (WaitSleep i, k') \<Longrightarrow> i < NPROC \<Longrightarrow> kstep (k, c) (sched_back k', c)"
| wait_reap: "wait_again i k = Some (WaitDone pid, k') \<Longrightarrow> i < NPROC \<Longrightarrow> kstep (k, c) (k', c)"
| wakeup: "wakeup ch k = Some k' \<Longrightarrow> kstep (k, c) (k', c)"
| kill: "kill pid k = Some (r, k') \<Longrightarrow> kstep (k, c) (k', c)"
| sbrk: "sbrk n k = Some (r, k') \<Longrightarrow> kstep (k, c) (k', c)"
| files: "curproc k = Some me \<Longrightarrow> with_files me (f :: files \<Rightarrow> (int \<times> files) option) k = Some (r, k') \<Longrightarrow> kstep (k, c) (k', c)"

inductive kreach :: "kern \<Rightarrow> kern \<times> nat \<Rightarrow> bool" for k0 where
  init: "kreach k0 (k0, 0)"
| step: "kreach k0 s \<Longrightarrow> kstep s s' \<Longrightarrow> kreach k0 s'"

lemma kstep_inv: "kstep s s' \<Longrightarrow> proc_inv (fst s) \<Longrightarrow> proc_inv (fst s')"
proof (induction rule: kstep.induct)
  case (pick k c i k')
  then show ?case using pick_inv by simp
next
  case (fork k r k' c)
  then show ?case using fork_inv by simp
next
  case (wait_sleep k i k' c)
  then show ?case using wait_inv(1) [of k "WaitSleep i" k'] by simp
next
  case (wait_done k pid k' c)
  then show ?case using wait_inv(1) [of k "WaitDone pid" k'] by simp
next
  case (wait_resleep i k k' c)
  then show ?case using wait_inv(2) [of i k "WaitSleep i" k'] by simp
next
  case (wait_reap i k pid k' c)
  then show ?case using wait_inv(2) [of i k "WaitDone pid" k'] by simp
qed (simp; blast intro: yield_inv sleep_inv exit_inv proc_inv_same same_slots_in same_slots_wakeup same_slots_kill same_slots_sbrk
       same_slots_with_files)+

text \<open>
  C6. In every state of a kernel that was started with a well-formed table at most one process is \<open>RUNNING\<close>, it is the one
  the CPU runs, and no two processes have the same id.
\<close>

theorem one_running:
  assumes "kreach k0 (k, c)" "proc_inv k0"
  shows "(\<forall>i < NPROC. p_state (procp k i) = RUNNING \<longleftrightarrow> curproc k = Some i) \<and>
    (\<forall>i < NPROC. \<forall>j < NPROC. p_state (procp k i) \<noteq> UNUSED \<and> p_state (procp k j) \<noteq> UNUSED \<and>
       p_pid (procp k i) = p_pid (procp k j) \<longrightarrow> i = j)"
proof -
  have "proc_inv (fst s)" if "kreach k0 s" for s
    using that by induction (use assms(2) kstep_inv in auto)
  then have "proc_inv k" using assms(1) by fastforce
  then show ?thesis by (simp add: proc_inv_def)
qed

section \<open>Scheduling is fair\<close>

text \<open>
  How far the scheduler's loop is from slot \<open>i\<close> when it goes on at \<open>c\<close>.
\<close>

definition distance :: "nat \<Rightarrow> nat \<Rightarrow> nat" where
  "distance c i = (if c \<le> i then i - c else NPROC - c + i)"

lemma next_proc_nearer:
  assumes "next_proc c ps = Some j" "p_state (ps ! i) = RUNNABLE" "i < NPROC" "j \<noteq> i" "c \<le> NPROC"
  shows "distance (Suc j) i < distance c i \<and> j < NPROC"
proof (cases "for_first (\<lambda>i. p_state (ps ! i) = RUNNABLE) c NPROC")
  case None
  then have "i < c" using assms(2,3) by (auto simp: for_first_None not_le [symmetric])
  moreover have "j < NPROC" "\<forall>m < j. p_state (ps ! m) \<noteq> RUNNABLE"
    using None assms(1) by (auto simp: next_proc_def for_first_Some)
  then have "j \<le> i" using assms(2) by (meson not_le)
  ultimately show ?thesis using \<open>j < NPROC\<close> assms(4,5) by (auto simp: distance_def)
next
  case (Some m)
  then have "m = j" using assms(1) by (simp add: next_proc_def)
  then have j: "c \<le> j" "j < NPROC" "\<forall>m. c \<le> m \<and> m < j \<longrightarrow> p_state (ps ! m) \<noteq> RUNNABLE"
    using Some by (auto simp: for_first_Some)
  then have "i < c \<or> j < i" using assms(2,4) by (metis leI le_neq_implies_less)
  then show ?thesis using j assms(3,5) by (auto simp: distance_def)
qed

text \<open>The slots the scheduler takes one after the other, the tables it finds being \<open>pss\<close>.\<close>

fun picks :: "nat \<Rightarrow> proc list list \<Rightarrow> nat list" where
  "picks c [] = []"
| "picks c (ps # pss) = (case next_proc c ps of None \<Rightarrow> [] | Some j \<Rightarrow> j # picks (Suc j) pss)"

lemma picks_reach:
  assumes "\<forall>ps \<in> set pss. p_state (ps ! i) = RUNNABLE" "i < NPROC" "c \<le> NPROC" "distance c i < length pss"
  shows "i \<in> set (picks c pss)"
  using assms
proof (induction pss arbitrary: c)
  case (Cons ps pss)
  have r: "p_state (ps ! i) = RUNNABLE" using Cons.prems(1) by simp
  obtain j where j: "next_proc c ps = Some j"
  proof (cases "next_proc c ps")
    case None
    then have "for_first (\<lambda>i. p_state (ps ! i) = RUNNABLE) 0 NPROC = None" by (simp add: next_proc_def split: option.splits)
    then show ?thesis using r Cons.prems(2) by (auto simp: for_first_None)
  qed
  show ?case
  proof (cases "j = i")
    case False
    then have n: "distance (Suc j) i < distance c i" "j < NPROC"
      using next_proc_nearer [OF j r Cons.prems(2) _ Cons.prems(3)] by auto
    then have "i \<in> set (picks (Suc j) pss)" using Cons.IH [of "Suc j"] Cons.prems by auto
    then show ?thesis using j by simp
  qed (use j in simp)
qed simp

text \<open>
  C22. The scheduler starves no process: whatever happens to the process table between its rounds, a process that stays runnable is put
  on the CPU within \<open>NPROC\<close> rounds, wherever the loop over the table is.
\<close>

theorem scheduler_fair:
  assumes "\<forall>ps \<in> set pss. p_state (ps ! i) = RUNNABLE" "i < NPROC" "c \<le> NPROC" "NPROC \<le> length pss"
  shows "i \<in> set (picks c pss)"
  by (rule picks_reach) (use assms in \<open>auto simp: distance_def\<close>)

text \<open>A kernel with one process that is ready to run, the rest of the table unused.\<close>

definition proc_demo :: proc where
  "proc_demo = proc_zero\<lparr>p_state := RUNNABLE, p_pid := 1, kstack := page_va 5, p_vspace := vspace_zero\<lparr>pgtbl := page_va 6\<rparr>\<rparr>"

definition kern_demo :: kern where
  "kern_demo = \<lparr>kfiles = \<lparr>ffs = fs_demo blocks_demo, fkm = kmem_demo, file_table = [], pipes = (\<lambda>_. None), fd_table = [], woken = []\<rparr>,
     procs = proc_demo # replicate 63 proc_zero, ptlock = initlock ''ptable'', nextpid = 2, initproc = Some 0, curproc = None,
     hw = \<lparr>hw_cpu = \<lparr>ncli = 1, intena = True, eflags_IF = False\<rparr>, rsp0 = 0, cr3 = 0\<rparr>, kpml4 = page_va 7, first_run = True,
     saved = (\<lambda>_. False), sym_forkret = 0, sym_trapret = 0, sym_data = 0\<rparr>"

lemma kern_demo_inv: "proc_inv kern_demo"
  by (auto simp: proc_inv_def kern_demo_def proc_demo_def proc_zero_def NPROC_def nth_Cons' split: if_splits)

theorem one_running_witness:
  "\<exists>k'. kreach kern_demo (k', 1) \<and> p_state (procp k' 0) = RUNNING \<and> curproc k' = Some 0 \<and> p_state (procp k' 1) \<noteq> RUNNING"
proof -
  have n: "next_proc 0 (procs kern_demo) = Some 0"
    by (simp add: next_proc_def for_first.simps [of _ 0] NPROC_def kern_demo_def proc_demo_def)
  have v: "page_va 5 \<noteq> 0" "page_va 6 \<noteq> 0" by (simp_all add: max_pages_def)
  obtain k' where k': "sched_pick 0 kern_demo = Some k'" "p_state (procp k' 0) = RUNNING" "curproc k' = Some 0"
    using v by (simp add: sched_pick_def kern_demo_def vspaceinstall_def proc_demo_def upd_proc_def popcli_def pushcli_def Let_def)
  have "kstep (kern_demo, 0) (k', Suc 0)"
    by (rule kstep.pick [OF _ n k'(1)]) (simp add: kern_demo_def)
  then have r: "kreach kern_demo (k', 1)" using kreach.init kreach.step by fastforce
  have "(\<forall>i < NPROC. p_state (procp k' i) = RUNNING \<longleftrightarrow> curproc k' = Some i)"
    using one_running [OF r kern_demo_inv] by blast
  then have "p_state (procp k' 1) \<noteq> RUNNING" using k'(3) by (simp add: NPROC_def)
  then show ?thesis using r k' by blast
qed

theorem scheduler_fair_witness: "3 \<in> set (picks 10 (replicate 64 (replicate 64 proc_demo)))"
  by (rule scheduler_fair) (simp_all add: NPROC_def proc_demo_def)

section \<open>Waking up, killing, waiting\<close>

lemma acquire_pt_ok:
  assumes "lk_free (ptlock k)"
  shows "\<exists>k'. acquire_pt k = Some k' \<and> procs k' = procs k \<and> curproc k' = curproc k \<and> holding (ptlock k') \<and>
    hw_cpu (hw k') = pushcli (hw_cpu (hw k)) \<and> kfiles k' = kfiles k"
  using assms by (auto simp: acquire_pt_def acquire_def holding_def)

text \<open>
  C36. \<open>wait\<close> commits itself to the first child in the table: while that child lives the call sleeps, even when another child has
  already exited.
\<close>

theorem wait_first_child:
  assumes me: "curproc k = Some me" "p_state (procp k me) = RUNNING" "me < length (procs k)"
    and lk: "lk_free (ptlock k)" "ncli (hw_cpu (hw k)) = 0"
    and first: "i < NPROC" "p_parent (procp k i) = Some me" "p_state (procp k i) \<notin> {UNUSED, ZOMBIE}"
      "\<forall>j < i. p_parent (procp k j) \<noteq> Some me \<or> p_state (procp k j) = UNUSED"
    and other: "p_parent (procp k z) = Some me" "p_state (procp k z) = ZOMBIE" "z < NPROC"
  shows "\<exists>k'. wait_begin k = Some (WaitSleep i, k') \<and> p_state (procp k' me) = SLEEPING \<and> p_chan (procp k' me) = ProcChan me"
proof -
  obtain k1 where k1: "acquire_pt k = Some k1" "procs k1 = procs k" "curproc k1 = curproc k" "holding (ptlock k1)"
     "hw_cpu (hw k1) = pushcli (hw_cpu (hw k))" using acquire_pt_ok [OF lk(1)] by blast
  have f: "wait_find me k1 = Some i" unfolding wait_find_def for_first_Some using first k1(2) by auto
  show ?thesis
    using k1 f me first lk(2)
    by (simp add: wait_begin_def wait_child_def sleep_out_pt_def sched_out_def)
qed

definition kern_wait_demo :: kern where
  "kern_wait_demo = kern_demo\<lparr>procs := [proc_demo\<lparr>p_state := RUNNING\<rparr>, proc_demo\<lparr>p_state := SLEEPING, p_pid := 2, p_parent := Some 0\<rparr>,
     proc_demo\<lparr>p_state := ZOMBIE, p_pid := 3, p_parent := Some 0\<rparr>] @ replicate 61 proc_zero, curproc := Some 0,
     hw := (hw kern_demo)\<lparr>hw_cpu := \<lparr>ncli = 0, intena = True, eflags_IF = True\<rparr>\<rparr>\<rparr>"

theorem wait_first_child_witness:
  "\<exists>k'. wait_begin kern_wait_demo = Some (WaitSleep 1, k') \<and> p_state (procp k' 0) = SLEEPING"
proof -
  have "\<exists>k'. wait_begin kern_wait_demo = Some (WaitSleep 1, k') \<and> p_state (procp k' 0) = SLEEPING \<and> p_chan (procp k' 0) = ProcChan 0"
    by (rule wait_first_child [where z = 2])
       (simp_all add: kern_wait_demo_def kern_demo_def proc_demo_def proc_zero_def NPROC_def initlock_free numeral_2_eq_2 nth_Cons')
  then show ?thesis by blast
qed

end
