(* ===== verification/Xk_Umem.thy ===== *)
theory Xk_Umem
  imports Xk_Proc
begin

text \<open>
  The kernel and the memory of the running process: the page-fault part of \<open>trap\<close> in \<open>kernel/trap.c\<close> (copy-on-write and
  growth of the stack), and what a load or store of the kernel at a user address does through the page table in \<open>cr3\<close>.
  The write-protect bit of \<open>CR0\<close> is set in \<open>kernel/entry.S\<close>, so a store of the kernel to a read-only page faults like one of
  the user; a fault of the kernel that the handler cannot mend panics.
\<close>

section \<open>State (kernel/trap.c)\<close>

text \<open>
  \<open>fault_lock\<close> and \<open>fault_locking\<close> are \<open>kmem_3\<close>; \<open>sym_ticks\<close> is the address of \<open>ticks\<close>, on which \<open>sys_sleep\<close> waits.
\<close>

record machine =
  mk :: kern
  ticks :: u32
  tickslock :: spinlock
  fault_lock :: spinlock
  fault_locking :: bool
  num_page_faults :: int
  sym_ticks :: u64

definition upd_vspace :: "nat \<Rightarrow> vspace \<Rightarrow> kmem \<Rightarrow> machine \<Rightarrow> machine" where
  "upd_vspace me vs s m = m\<lparr>mk := upd_proc me (p_vspace_update (\<lambda>_. vs)) (set_kmem s (mk m))\<rparr>"

definition lock_fault :: "machine \<Rightarrow> machine option" where
  "lock_fault m = (if fault_locking m then do { l \<leftarrow> acquire_lk (fault_lock m); Some (m\<lparr>fault_lock := l\<rparr>) } else Some m)"

definition unlock_fault :: "machine \<Rightarrow> machine option" where
  "unlock_fault m = (if fault_locking m then do { l \<leftarrow> release_lk (fault_lock m); Some (m\<lparr>fault_lock := l\<rparr>) } else Some m)"

section \<open>Page faults\<close>

text \<open>\<open>vspaceinvalidate(&myproc()->vspace); vspaceinstall(myproc());\<close>\<close>

definition reload_vspace :: "nat \<Rightarrow> machine \<Rightarrow> machine option" where
  "reload_vspace me m = do {
     (vs, s) \<leftarrow> vspaceinvalidate (p_vspace (procp (mk m) me)) (kmem_of (mk m));
     let m = upd_vspace me vs s m;
     h \<leftarrow> vspaceinstall (kstack (procp (mk m) me)) vs (hw (mk m));
     Some (m\<lparr>mk := (mk m)\<lparr>hw := h\<rparr>\<rparr>) }"

definition page_copy :: "u64 \<Rightarrow> u64 \<Rightarrow> kmem \<Rightarrow> kmem option" where
  "page_copy dst src s = (case frames s (frame_of src) of
      Bytes b \<Rightarrow> Some (s\<lparr>frames := (frames s)(frame_of dst := Bytes b)\<rparr>)
    | _ \<Rightarrow> None)"

text \<open>
  A fault on a copy-on-write page with descriptor \<open>vpi\<close> at \<open>(p, i)\<close>, whose core map entry is \<open>c\<close>. With other references to the frame
  the process gets a copy of its own; the last owner gets the frame itself. When \<open>kalloc\<close> has no page the copy goes
  to address 0 and the null page ends up in the page table, where \<open>mappages\<close> panics.
\<close>

definition cow_copy :: "nat \<Rightarrow> u64 \<Rightarrow> nat \<Rightarrow> vpage_info \<Rightarrow> nat \<Rightarrow> machine \<Rightarrow> machine option" where
  "cow_copy me p i vpi c m = do {
     (new_frame, s) \<leftarrow> kalloc (kmem_of (mk m));
     m \<leftarrow> lock_fault m;
     (if new_frame = 0 then None
      else do {
        let s = clear_page zero_bytes new_frame s;
        s \<leftarrow> page_copy new_frame (page_of_vpi vpi) s;
        let s = set_cme c ((core_map s ! c)\<lparr>cref := c_short (cref (core_map s ! c) - 1)\<rparr>) s;
        s \<leftarrow> vpi_write p i \<lparr>vused = 1, ppn = PGNUM (V2P new_frame), vpresent = 1, writable = 1, copy_on_write = 0\<rparr> s;
        m \<leftarrow> unlock_fault (m\<lparr>mk := set_kmem s (mk m)\<rparr>);
        reload_vspace me m }) }"

definition cow_own :: "nat \<Rightarrow> u64 \<Rightarrow> nat \<Rightarrow> vpage_info \<Rightarrow> machine \<Rightarrow> machine option" where
  "cow_own me p i vpi m = do {
     m \<leftarrow> lock_fault m;
     s \<leftarrow> vpi_write p i (vpi\<lparr>writable := 1, copy_on_write := 0\<rparr>) (kmem_of (mk m));
     m \<leftarrow> reload_vspace me (m\<lparr>mk := set_kmem s (mk m)\<rparr>);
     unlock_fault m }"

text \<open>The result tells whether the fault is dealt with.\<close>

definition cow_fault :: "nat \<Rightarrow> nat \<Rightarrow> u64 \<Rightarrow> machine \<Rightarrow> (bool \<times> machine) option" where
  "cow_fault me k addr m = do {
     let vs = p_vspace (procp (mk m) me);
     (r, vr, s) \<leftarrow> va2vpage_info (regions vs ! k) addr (kmem_of (mk m));
     let m = upd_vspace me (upd_region k (\<lambda>_. vr) vs) s m;
     (case r of None \<Rightarrow> None | Some (p, i) \<Rightarrow> do {
        vpi \<leftarrow> vpi_read p i s;
        c \<leftarrow> pa2page (push_bit PT_SHIFT (ppn vpi)) s;
        (if cref (core_map s ! c) > 1 \<and> copy_on_write vpi = 1 \<and> writable vpi = 0 then do {
           m \<leftarrow> cow_copy me p i vpi c m; Some (True, m) }
         else if cref (core_map s ! c) = 1 \<and> copy_on_write vpi = 1 \<and> writable vpi = 0 then do {
           m \<leftarrow> cow_own me p i vpi m; Some (True, m) }
         else Some (False, m)) }) }"

definition grow_stack :: "nat \<Rightarrow> u64 \<Rightarrow> machine \<Rightarrow> (bool \<times> machine) option" where
  "grow_stack me addr m =
     (if addr \<ge> SZ_2G - 10 * PGSIZE \<and> addr < SZ_2G then do {
        let vs = p_vspace (procp (mk m) me);
        let vr = regions vs ! VR_USTACK;
        let base = va_base vr;
        let bound = base - vr_size vr;
        (if base - PGROUNDDOWN bound < 10 * PGSIZE then do {
           (ret, vr, s) \<leftarrow> vregionaddmap vr (PGROUNDDOWN bound - PGSIZE) PGSIZE 1 1 (kmem_of (mk m));
           let vs = upd_region VR_USTACK (\<lambda>_. vr) vs;
           (if ret \<ge> 0 then do {
              let vs = upd_region VR_USTACK (vr_size_update (\<lambda>z. z + PGSIZE)) vs;
              (vs, s) \<leftarrow> vspaceinvalidate vs s;
              Some (True, upd_vspace me vs s m) }
            else Some (False, upd_vspace me vs s m)) }
         else Some (False, m)) }
      else Some (False, m))"

definition page_fault :: "u64 \<Rightarrow> machine \<Rightarrow> (bool \<times> machine) option" where
  "page_fault addr m = do {
     let m = m\<lparr>num_page_faults := c_int (num_page_faults m + 1)\<rparr>;
     me \<leftarrow> curproc (mk m);
     (done, m) \<leftarrow> (case va2vregion (p_vspace (procp (mk m) me)) addr of
        None \<Rightarrow> Some (False, m)
      | Some k \<Rightarrow> cow_fault me k addr m);
     (if done then Some (True, m) else grow_stack me addr m) }"

section \<open>Loads and stores of the kernel at user addresses\<close>

text \<open>The entry the hardware finds for \<open>va\<close>; \<open>None\<close> inside when a level is missing.\<close>

definition hw_pte :: "u64 \<Rightarrow> machine \<Rightarrow> u64 option option" where
  "hw_pte va m = pte_at (P2V (cr3 (hw (mk m)))) va (kmem_of (mk m))"

text \<open>A faulting access is tried again after the fault has been dealt with, otherwise the kernel panics.\<close>

partial_function (option) uload :: "u64 \<Rightarrow> machine \<Rightarrow> (u8 \<times> machine) option" where
  "uload va m = do {
     e \<leftarrow> hw_pte va m;
     (case e of
        Some e \<Rightarrow> (case frames (kmem_of (mk m)) (frame_of (P2V (PTE_ADDR e))) of
            Bytes b \<Rightarrow> Some (b (unat (va mod PGSIZE)), m)
          | _ \<Rightarrow> None)
      | None \<Rightarrow> do {
          (ok, m) \<leftarrow> page_fault va m;
          (if ok then uload va m else None) }) }"

partial_function (option) ustore :: "u64 \<Rightarrow> u8 \<Rightarrow> machine \<Rightarrow> machine option" where
  "ustore va c m = do {
     e \<leftarrow> hw_pte va m;
     (case e of
        Some e \<Rightarrow>
          (if e AND PTE_W \<noteq> 0 then do {
             s \<leftarrow> page_store (P2V (PTE_ADDR e)) (unat (va mod PGSIZE)) [c] (kmem_of (mk m));
             Some (m\<lparr>mk := set_kmem s (mk m)\<rparr>) }
           else do {
             (ok, m) \<leftarrow> page_fault va m;
             (if ok then ustore va c m else None) })
      | None \<Rightarrow> do {
          (ok, m) \<leftarrow> page_fault va m;
          (if ok then ustore va c m else None) }) }"

primrec uload_list :: "nat \<Rightarrow> u64 \<Rightarrow> machine \<Rightarrow> (u8 list \<times> machine) option" where
  "uload_list 0 va m = Some ([], m)"
| "uload_list (Suc n) va m = do {
     (c, m) \<leftarrow> uload va m;
     (cs, m) \<leftarrow> uload_list n (va + 1) m;
     Some (c # cs, m) }"

primrec ustore_list :: "u8 list \<Rightarrow> u64 \<Rightarrow> machine \<Rightarrow> machine option" where
  "ustore_list [] va m = Some m"
| "ustore_list (c # cs) va m = do { m \<leftarrow> ustore va c m; ustore_list cs (va + 1) m }"

text \<open>The string at a user address, up to its NUL, as the routines of the kernel read it.\<close>

partial_function (option) ustring :: "u64 \<Rightarrow> machine \<Rightarrow> (u8 list \<times> machine) option" where
  "ustring va m = do {
     (c, m) \<leftarrow> uload va m;
     (if c = 0 then Some ([], m)
      else do {
        (cs, m) \<leftarrow> ustring (va + 1) m;
        Some (c # cs, m) }) }"

section \<open>Copy-on-write\<close>

lemma fault_lock_bracket:
  assumes "fault_locking m \<Longrightarrow> lk_free (fault_lock m)"
  obtains m' where "lock_fault m = Some m'" "mk m' = mk m" "unlock_fault (m'\<lparr>mk := k\<rparr>) = Some (m\<lparr>mk := k\<rparr>)"
  using assms by (cases "fault_locking m") (auto simp: lock_fault_def unlock_fault_def)

lemma dec_ref_ok:
  assumes ok: "kmem_ok s" and l: "page_live s c" and r: "1 < page_ref s c"
  shows "kmem_ok (set_cme c ((core_map s ! c)\<lparr>cref := c_short (cref (core_map s ! c) - 1)\<rparr>) s)"
    "c_short (cref (core_map s ! c) - 1) = page_ref s c - 1"
proof -
  have n: "c < npages s" and lv: "live (core_map s ! c)" using l by (simp_all add: page_live_def)
  have e: "entry_ok (core_map s ! c)" using kmem_okD(1) [OF ok n] .
  then show short: "c_short (cref (core_map s ! c) - 1) = page_ref s c - 1" using r by (simp add: page_ref_def entry_ok_def)
  have "kmem_ok (s\<lparr>core_map := (core_map s)[c := (core_map s ! c)\<lparr>cref := page_ref s c - 1\<rparr>],
     pages_in_use := pages_in_use s, free_pages := free_pages s, frames := frames s\<rparr>)"
    by (rule kmem_ok_update [OF ok n]) (use lv r e kmem_okD(2) [OF ok n] in \<open>auto simp: entry_ok_def avail_def live_def page_ref_def\<close>)
  then show "kmem_ok (set_cme c ((core_map s ! c)\<lparr>cref := c_short (cref (core_map s ! c) - 1)\<rparr>) s)"
    by (simp add: set_cme_def short)
qed

text \<open>
  C9. A fault on a copy-on-write page whose frame \<open>f\<close> has other owners gives the process a frame of its own: the lowest free page \<open>d\<close> gets the bytes of
  \<open>f\<close> and one reference, the descriptor of the page points to it and is writable, \<open>f\<close> keeps its bytes for the others and has one
  reference less, and nothing else changes before the page table is rebuilt.
\<close>

theorem cow_copy_private:
  fixes m me p i vpi d b infos nx
  defines "s \<equiv> kmem_of (mk m)" and "f \<equiv> unat (ppn vpi)"
  assumes "kmem_ok s" "fault_locking m \<longrightarrow> lk_free (fault_lock m)" "page_avail s d" "\<forall>j < d. \<not> page_avail s j"
    and "page_live s f" "1 < page_ref s f" "frames s f = Bytes b"
    and "frame_of p \<noteq> d" "frames s (frame_of p) = VpiPage infos nx"
  shows "\<exists>s'. cow_copy me p i vpi f m = reload_vspace me (m\<lparr>mk := set_kmem s' (mk m)\<rparr>) \<and> kmem_ok s' \<and>
    frames s' = (frames s)(d := Bytes b,
      frame_of p := VpiPage (infos[i := \<lparr>vused = 1, ppn = word_of_nat d, vpresent = 1, writable = 1, copy_on_write = 0\<rparr>]) nx) \<and>
    page_ref s' d = 1 \<and> page_ref s' f = page_ref s f - 1 \<and> (\<forall>j < npages s. j \<noteq> d \<longrightarrow> j \<noteq> f \<longrightarrow> core_map s' ! j = core_map s ! j)"
proof -
  note ok = assms(3)
  have d: "d < npages s" "d < max_pages" "d < length (core_map s)" using assms(5) kmem_ok_max [OF ok] kmem_okD(3) [OF ok] by (auto simp: page_avail_def)
  note lv = take_page_live [OF ok assms(5)]
  have ne: "d \<noteq> f" "d \<noteq> frame_of p" using lv(3) assms(7,10) by auto
  have f: "f < npages s" "f < max_pages" "f < length (core_map s)"
    using assms(7) kmem_ok_max [OF ok] kmem_okD(3) [OF ok] by (auto simp: page_live_def)
  have ka: "kalloc s = Some (page_va d, take_page d s)"
    by (rule kalloc_lowest [OF ok assms(5,6)])
  define s1 where "s1 = (take_page d s)\<lparr>frames := (frames s)(d := Bytes b)\<rparr>"
  have ref: "page_live s1 f" "page_ref s1 f = page_ref s f" using lv(2) [OF assms(7)] ne by (simp_all add: s1_def page_ref_def nth_upd)
  have ok1: "kmem_ok s1" using take_page_ok [OF ok assms(5)] by (simp add: s1_def)
  define s2 where "s2 = set_cme f ((core_map s1 ! f)\<lparr>cref := c_short (cref (core_map s1 ! f) - 1)\<rparr>) s1"
  have ok2: "kmem_ok s2" using dec_ref_ok(1) [OF ok1 ref(1)] ref(2) assms(8) by (simp add: s2_def)
  define s' where "s' = s2\<lparr>frames := (frames s2)(frame_of p :=
      VpiPage (infos[i := \<lparr>vused = 1, ppn = word_of_nat d, vpresent = 1, writable = 1, copy_on_write = 0\<rparr>]) nx)\<rparr>"
  have src: "frame_of (page_of_vpi vpi) = f" using f(2) by (simp add: page_of_vpi_def page2pa_ppn f_def)
  obtain m' where l: "lock_fault m = Some m'" "mk m' = mk m" "unlock_fault (m'\<lparr>mk := set_kmem s' (mk m)\<rparr>) = Some (m\<lparr>mk := set_kmem s' (mk m)\<rparr>)"
    using fault_lock_bracket [of m "set_kmem s' (mk m)"] assms(4) by blast
  have cp: "page_copy (page_va d) (page_of_vpi vpi) (clear_page zero_bytes (page_va d) (take_page d s)) = Some s1"
    using src d(2) ne assms(9) by (simp add: page_copy_def clear_page_def s1_def)
  have w: "vpi_write p i \<lparr>vused = 1, ppn = PGNUM (V2P (page_va d)), vpresent = 1, writable = 1, copy_on_write = 0\<rparr> s2 = Some s'"
  proof -
    have "PGNUM (V2P (page_va d)) = word_of_nat (unat (PGNUM (page2pa d)))" by simp
    then have "PGNUM (V2P (page_va d)) = word_of_nat d" by (simp only: unat_PGNUM_page2pa [OF d(2)])
    then show ?thesis using assms(11) ne by (simp add: vpi_write_def s'_def s2_def set_cme_def s1_def)
  qed
  have "cow_copy me p i vpi f m = reload_vspace me (m\<lparr>mk := set_kmem s' (mk m)\<rparr>)"
    using ka l cp w d(2) by (simp add: cow_copy_def s_def s2_def)
  moreover have "kmem_ok s'" using ok2 by (simp add: s'_def)
  moreover have "frames s' = (frames s)(d := Bytes b,
      frame_of p := VpiPage (infos[i := \<lparr>vused = 1, ppn = word_of_nat d, vpresent = 1, writable = 1, copy_on_write = 0\<rparr>]) nx)"
    by (simp add: s'_def s2_def set_cme_def s1_def)
  moreover have "page_ref s' d = 1" "page_ref s' f = page_ref s f - 1" "\<forall>j < npages s. j \<noteq> d \<longrightarrow> j \<noteq> f \<longrightarrow> core_map s' ! j = core_map s ! j"
    using dec_ref_ok(2) [OF ok1 ref(1)] ref(2) assms(8) d f ne
    by (simp_all add: s'_def s2_def set_cme_def page_ref_def nth_upd) (simp_all add: s1_def nth_upd)
  ultimately show ?thesis by blast
qed

definition mach_cow :: machine where
  "mach_cow = \<lparr>mk = set_kmem kmem_cow kern_demo, ticks = 0, tickslock = initlock ''time'', fault_lock = initlock ''kmem_3'',
     fault_locking = True, num_page_faults = 0, sym_ticks = 0x1000\<rparr>"

theorem cow_copy_private_witness:
  "\<exists>s'. cow_copy 0 (page_va 0) 0 (vpi_demo\<lparr>writable := 0, copy_on_write := 1\<rparr>) 1 mach_cow = reload_vspace 0 (mach_cow\<lparr>mk := set_kmem s' (mk mach_cow)\<rparr>) \<and>
     kmem_ok s' \<and> frames s' 2 = zero_bytes \<and> page_ref s' 2 = 1 \<and> page_ref s' 1 = 1"
proof -
  let ?v = "vpi_demo\<lparr>writable := 0, copy_on_write := 1\<rparr>"
  have k: "kmem_of (mk mach_cow) = kmem_cow" by (simp add: mach_cow_def kmem_of_def set_kmem_def)
  have ok: "kmem_ok kmem_cow" using kmem_demo_ok by (simp add: kmem_cow_def)
  have av: "page_avail kmem_cow 2" "\<forall>j < 2. \<not> page_avail kmem_cow j" "page_live kmem_cow 1" "page_ref kmem_cow 1 = 2"
    by (auto simp: page_avail_def page_live_def page_ref_def kmem_cow_def kmem_demo_def avail_def live_def cme_free_def cme_zero_def less_2_cases_iff)
  have f0: "frame_of (page_va 0) = 0" by (simp add: max_pages_def)
  have fr: "frames kmem_cow 0 = VpiPage (vpi_demo # replicate (VPIPPAGE - 1) vpi_zero) 0" "frames kmem_cow 1 = Bytes (\<lambda>_. 0)"
    by (simp_all add: kmem_cow_def zero_bytes_def)
  have v: "unat (ppn ?v) = 1" by (simp add: vpi_demo_def)
  have l: "fault_locking mach_cow \<longrightarrow> lk_free (fault_lock mach_cow)" by (simp add: mach_cow_def initlock_free)
  show ?thesis
    using cow_copy_private [of mach_cow 2 ?v "\<lambda>_. 0" "page_va 0" _ _ 0 0] ok av fr l unfolding k v f0 by (auto simp: zero_bytes_def)
qed

end
