(* ===== verification/Xk_Syscall.thy ===== *)
theory Xk_Syscall
  imports Xk_Umem
begin

text \<open>
  System calls: fetching and checking arguments and the dispatch of \<open>kernel/syscall.c\<close>, the handlers of \<open>kernel/sysproc.c\<close>
  and \<open>kernel/sysfile.c\<close>, and \<open>exec\<close> of \<open>kernel/exec.c\<close>. A handler returns a value, or it leaves the CPU with
  something still to be done when its process runs again (\<open>SysBlock\<close>), or it never returns (\<open>SysExit\<close>). The parameters
  are the device switch \<open>dv\<close>, the bytes \<open>behind\<close> the path array on the stack of \<open>fileopen\<close>, and the old contents \<open>junk\<close> of a pipe's page.
\<close>

section \<open>Fetching from user memory\<close>

abbreviation mypr :: "nat \<Rightarrow> machine \<Rightarrow> proc" where "mypr me m \<equiv> procp (mk m) me"

text \<open>The first region that holds all \<open>n\<close> bytes at \<open>addr\<close>.\<close>

definition find_region :: "u64 \<Rightarrow> int \<Rightarrow> vspace \<Rightarrow> nat option" where
  "find_region addr n vs = for_first (\<lambda>i. vregioncontains (regions vs ! i) addr n) 0 NREGIONS"

definition fetchint :: "u64 \<Rightarrow> machine \<Rightarrow> (int option \<times> machine) option" where
  "fetchint addr m = do {
     me \<leftarrow> curproc (mk m);
     (case find_region addr 4 (p_vspace (mypr me m)) of
        None \<Rightarrow> Some (None, m)
      | Some _ \<Rightarrow> do { (bs, m) \<leftarrow> uload_list 4 addr m; Some (Some (sint (get32 bs 0)), m) }) }"

definition fetchint64_t :: "u64 \<Rightarrow> machine \<Rightarrow> (u64 option \<times> machine) option" where
  "fetchint64_t addr m = do {
     me \<leftarrow> curproc (mk m);
     (case find_region addr 8 (p_vspace (mypr me m)) of
        None \<Rightarrow> Some (None, m)
      | Some _ \<Rightarrow> do { (bs, m) \<leftarrow> uload_list 8 addr m; Some (Some (get64 bs 0), m) }) }"

text \<open>The scan for the NUL from \<open>s\<close> below \<open>ep\<close>: the number of bytes before it.\<close>

partial_function (option) strscan :: "u64 \<Rightarrow> u64 \<Rightarrow> nat \<Rightarrow> machine \<Rightarrow> (nat option \<times> machine) option" where
  "strscan s ep n m =
     (if s < ep then do {
        (c, m) \<leftarrow> uload s m;
        (if c = 0 then Some (Some n, m) else strscan (s + 1) ep (Suc n) m) }
      else Some (None, m))"

text \<open>\<open>fetchstr\<close> goes on with the next region when a region has no NUL behind the address.\<close>

fun fetchstr_loop :: "nat \<Rightarrow> u64 \<Rightarrow> nat list \<Rightarrow> machine \<Rightarrow> (int \<times> machine) option" where
  "fetchstr_loop me addr [] m = Some (-1, m)"
| "fetchstr_loop me addr (i # is) m =
     (let r = regions (p_vspace (mypr me m)) ! i in
      if vregioncontains r addr 0 then do {
        (n, m) \<leftarrow> strscan addr (VRTOP r) 0 m;
        (case n of Some n \<Rightarrow> Some (c_int (int n), m) | None \<Rightarrow> fetchstr_loop me addr is m) }
      else fetchstr_loop me addr is m)"

definition fetchstr :: "u64 \<Rightarrow> machine \<Rightarrow> (int \<times> machine) option" where
  "fetchstr addr m = do { me \<leftarrow> curproc (mk m); fetchstr_loop me addr [0..<NREGIONS] m }"

section \<open>Arguments\<close>

definition fetcharg :: "nat \<Rightarrow> machine \<Rightarrow> u64 option" where
  "fetcharg n m = do {
     me \<leftarrow> curproc (mk m);
     let tf = p_tf (mypr me m);
     (if n = 0 then Some (tf_rdi tf)
      else if n = 1 then Some (tf_rsi tf)
      else if n = 2 then Some (tf_rdx tf)
      else if n = 3 then Some (tf_rcx tf)
      else if n = 4 then Some (tf_r8 tf)
      else if n = 5 then Some (tf_r9 tf)
      else None) }"

text \<open>\<open>argint\<close> and \<open>argint64\<close> always return 0; what they store is the result.\<close>

definition argint :: "nat \<Rightarrow> machine \<Rightarrow> int option" where
  "argint n m = do { a \<leftarrow> fetcharg n m; Some (c_int (uint a)) }"

definition argint64 :: "nat \<Rightarrow> machine \<Rightarrow> u64 option" where
  "argint64 n m = fetcharg n m"

text \<open>A failing \<open>argptr\<close> or \<open>argstr\<close> is \<open>None\<close> inside.\<close>

definition argptr :: "nat \<Rightarrow> int \<Rightarrow> machine \<Rightarrow> u64 option option" where
  "argptr n sz m = do {
     i \<leftarrow> argint64 n m;
     (if sz < 0 then Some None
      else do {
        me \<leftarrow> curproc (mk m);
        Some (case find_region i sz (p_vspace (mypr me m)) of None \<Rightarrow> None | Some _ \<Rightarrow> Some i) }) }"

definition argstr :: "nat \<Rightarrow> machine \<Rightarrow> (u64 option \<times> machine) option" where
  "argstr n m = do {
     a \<leftarrow> argint64 n m;
     (r, m) \<leftarrow> fetchstr a m;
     Some (if r < 0 then None else Some a, m) }"

definition argfd :: "int \<Rightarrow> bool" where
  "argfd fd \<longleftrightarrow> \<not> (fd < 0 \<or> fd \<ge> int NOFILE)"

section \<open>Outcomes\<close>

text \<open>
  What is left to do when a blocked process runs again: read on from a pipe (the pipe, the user address, the bytes to go, the count so
  far), write on to a pipe (the pipe, the user address, the bytes to go, the count of the whole call), wait for a child, sleep until \<open>n\<close> ticks after
  \<open>ticks0\<close>.
\<close>

datatype pending = PendRead u64 u64 nat int | PendWrite u64 u64 nat int | PendWait nat | PendSleep int u32

datatype sys_out = SysRet int | SysBlock pending | SysExit

definition on_kern :: "(kern \<Rightarrow> ('a \<times> kern) option) \<Rightarrow> machine \<Rightarrow> ('a \<times> machine) option" where
  "on_kern f m = do { (a, k) \<leftarrow> f (mk m); Some (a, m\<lparr>mk := k\<rparr>) }"

definition on_files :: "nat \<Rightarrow> (files \<Rightarrow> ('a \<times> files) option) \<Rightarrow> machine \<Rightarrow> ('a \<times> machine) option" where
  "on_files me f = on_kern (with_files me f)"

text \<open>\<open>sleep(chan, lk)\<close> after the lock of the pipe has been given up.\<close>

definition sleep_pipe :: "chan \<Rightarrow> kern \<Rightarrow> kern option" where
  "sleep_pipe ch k = do { k \<leftarrow> acquire_pt k; sleep_out_pt (PipeChan ch) k }"

definition wake_pipe :: "kern \<Rightarrow> kern option" where
  "wake_pipe k = do { k \<leftarrow> sleep_in_pt k; release_pt k }"

section \<open>Processes (kernel/sysproc.c)\<close>

definition sys_crashn :: "machine \<Rightarrow> (int \<times> machine) option" where
  "sys_crashn m = do {
     n \<leftarrow> argint 0 m;
     let f = ffs (kfiles (mk m));
     let f = f\<lparr>fbc := (fbc f)\<lparr>crashn_enable := 1, crashn := n\<rparr>\<rparr>;
     Some (0, m\<lparr>mk := (mk m)\<lparr>kfiles := (kfiles (mk m))\<lparr>ffs := f\<rparr>\<rparr>\<rparr>) }"

definition sys_fork :: "machine \<Rightarrow> (int \<times> machine) option" where
  "sys_fork m = on_kern fork m"

definition sys_exit :: "machine \<Rightarrow> machine option" where
  "sys_exit m = do { k \<leftarrow> exit_out (mk m); Some (m\<lparr>mk := k\<rparr>) }"

definition wait_result :: "wait_out \<times> machine \<Rightarrow> sys_out \<times> machine" where
  "wait_result = (\<lambda>(w, m). (case w of WaitDone r \<Rightarrow> SysRet r | WaitSleep i \<Rightarrow> SysBlock (PendWait i), m))"

definition sys_wait :: "machine \<Rightarrow> (sys_out \<times> machine) option" where
  "sys_wait m = do { r \<leftarrow> on_kern wait_begin m; Some (wait_result r) }"

definition sys_kill :: "machine \<Rightarrow> (int \<times> machine) option" where
  "sys_kill m = do { pid \<leftarrow> argint 0 m; on_kern (kill pid) m }"

definition sys_getpid :: "machine \<Rightarrow> (int \<times> machine) option" where
  "sys_getpid m = do { me \<leftarrow> curproc (mk m); Some (p_pid (mypr me m), m) }"

definition sys_sbrk :: "machine \<Rightarrow> (int \<times> machine) option" where
  "sys_sbrk m = do { n \<leftarrow> argint 0 m; on_kern (sbrk n) m }"

definition acquire_ticks :: "machine \<Rightarrow> machine option" where
  "acquire_ticks m = do {
     (c, l) \<leftarrow> acquire (hw_cpu (hw (mk m))) (tickslock m);
     Some (m\<lparr>mk := (mk m)\<lparr>hw := (hw (mk m))\<lparr>hw_cpu := c\<rparr>\<rparr>, tickslock := l\<rparr>) }"

definition release_ticks :: "machine \<Rightarrow> machine option" where
  "release_ticks m = do {
     (c, l) \<leftarrow> release (hw_cpu (hw (mk m))) (tickslock m);
     Some (m\<lparr>mk := (mk m)\<lparr>hw := (hw (mk m))\<lparr>hw_cpu := c\<rparr>\<rparr>, tickslock := l\<rparr>) }"

text \<open>
  The head of the loop of \<open>sys_sleep\<close>, with \<open>tickslock\<close> held; \<open>ticks - ticks0 < n\<close> compares unsigned numbers.
\<close>

definition sleep_test :: "int \<Rightarrow> u32 \<Rightarrow> machine \<Rightarrow> (sys_out \<times> machine) option" where
  "sleep_test n ticks0 m =
     (if ticks m - ticks0 < word_of_int n then do {
        me \<leftarrow> curproc (mk m);
        (if p_killed (mypr me m) \<noteq> 0 then do { m \<leftarrow> release_ticks m; Some (SysRet (-1), m) }
         else do {
           (l, k) \<leftarrow> sleep_out (AddrChan (sym_ticks m)) (tickslock m) (mk m);
           Some (SysBlock (PendSleep n ticks0), m\<lparr>mk := k, tickslock := l\<rparr>) }) }
      else do { m \<leftarrow> release_ticks m; Some (SysRet 0, m) })"

definition sys_sleep :: "machine \<Rightarrow> (sys_out \<times> machine) option" where
  "sys_sleep m = do {
     n \<leftarrow> argint 0 m;
     m \<leftarrow> acquire_ticks m;
     sleep_test n (ticks m) m }"

definition sys_uptime :: "machine \<Rightarrow> (int \<times> machine) option" where
  "sys_uptime m = do {
     m \<leftarrow> acquire_ticks m;
     let xticks = ticks m;
     m \<leftarrow> release_ticks m;
     Some (c_int (uint xticks), m) }"

section \<open>Files (kernel/sysfile.c)\<close>

definition sys_dup :: "machine \<Rightarrow> (int \<times> machine) option" where
  "sys_dup m = do {
     me \<leftarrow> curproc (mk m);
     fd \<leftarrow> argint 0 m;
     (if \<not> argfd fd then Some (-1, m) else on_files me (filedup (p_pid (mypr me m)) (nat fd)) m) }"

text \<open>
  A read from a pipe delivers what it got to the user address \<open>dst\<close>; then it returns, or it sleeps with \<open>left\<close> bytes to
  go. \<open>ret\<close> counts the bytes of earlier rounds.
\<close>

definition pipe_deliver :: "u64 \<Rightarrow> u64 \<Rightarrow> int \<Rightarrow> read_out \<times> machine \<Rightarrow> (sys_out \<times> machine) option" where
  "pipe_deliver a dst ret = (\<lambda>(r, m). case r of
      Returned v bs \<Rightarrow> do {
        m \<leftarrow> ustore_list bs dst m;
        Some (SysRet (ret + v), m) }
    | Sleeping bs left \<Rightarrow> do {
        m \<leftarrow> ustore_list bs dst m;
        k \<leftarrow> sleep_pipe (ReaderChan a) (mk m);
        Some (SysBlock (PendRead a (dst + word_of_nat (length bs)) left (ret + int (length bs))), m\<lparr>mk := k\<rparr>) })"

text \<open>The pipe behind a descriptor, for the continuation of a blocked call.\<close>

definition fd_pipe :: "nat \<Rightarrow> nat \<Rightarrow> machine \<Rightarrow> u64" where
  "fd_pipe me fd m = (case p_fds (mypr me m) ! fd of None \<Rightarrow> 0 | Some i \<Rightarrow> f_pipe (filep (kfiles (mk m)) i))"

definition sys_read :: "devsw \<Rightarrow> machine \<Rightarrow> (sys_out \<times> machine) option" where
  "sys_read dv m = do {
     me \<leftarrow> curproc (mk m);
     fd \<leftarrow> argint 0 m;
     n \<leftarrow> argint 2 m;
     p \<leftarrow> argptr 1 n m;
     (case (argfd fd, p) of
        (True, Some p) \<Rightarrow> do {
          r \<leftarrow> on_files me (fileread (p_pid (mypr me m)) dv (nat fd) n) m;
          pipe_deliver (fd_pipe me (nat fd) m) p 0 r }
      | _ \<Rightarrow> Some (SysRet (-1), m)) }"

text \<open>
  Whether \<open>filewrite\<close> gets to read its source: a descriptor that is closed or read-only, or a pipe without readers, is refused before.
\<close>

definition write_open :: "nat \<Rightarrow> nat \<Rightarrow> machine \<Rightarrow> bool" where
  "write_open me fd m = (case p_fds (mypr me m) ! fd of
      None \<Rightarrow> False
    | Some i \<Rightarrow>
        let f = filep (kfiles (mk m)) i in
        f_mode f \<noteq> O_RDONLY \<and>
        (is_pipe f = 1 \<longrightarrow> (case pipes (kfiles (mk m)) (f_pipe f) of None \<Rightarrow> False | Some pp \<Rightarrow> p_reader pp \<noteq> 0)))"

definition write_finish :: "u64 \<Rightarrow> u64 \<Rightarrow> nat \<Rightarrow> int \<Rightarrow> (int + nat) \<times> machine \<Rightarrow> (sys_out \<times> machine) option" where
  "write_finish a src n count = (\<lambda>(r, m). case r of
      Inl v \<Rightarrow> Some (SysRet (if v < 0 then v else count), m)
    | Inr left \<Rightarrow> do {
        k \<leftarrow> sleep_pipe (WriterChan a) (mk m);
        Some (SysBlock (PendWrite a (src + word_of_nat (n - left)) left count), m\<lparr>mk := k\<rparr>) })"

definition sys_write :: "devsw \<Rightarrow> machine \<Rightarrow> (sys_out \<times> machine) option" where
  "sys_write dv m = do {
     me \<leftarrow> curproc (mk m);
     fd \<leftarrow> argint 0 m;
     (if \<not> argfd fd then Some (SysRet (-1), m)
      else do {
        n \<leftarrow> argint 2 m;
        (str, m) \<leftarrow> argstr 1 m;
        p \<leftarrow> argptr 1 n m;
        (case (str, p) of
           (Some _, Some p) \<Rightarrow>
             if write_open me (nat fd) m then do {
               (bs, m) \<leftarrow> uload_list (nat n) p m;
               (r, m') \<leftarrow> on_files me (filewrite (p_pid (mypr me m)) dv bs (nat fd)) m;
               (case r of
                  Inl v \<Rightarrow> Some (SysRet v, m')
                | Inr left \<Rightarrow> write_finish (fd_pipe me (nat fd) m) p (nat n) n (r, m')) }
             else do {
               (r, m) \<leftarrow> on_files me (filewrite (p_pid (mypr me m)) dv (replicate (nat n) 0) (nat fd)) m;
               (case r of Inl v \<Rightarrow> Some (SysRet v, m) | Inr _ \<Rightarrow> None) }
         | _ \<Rightarrow> Some (SysRet (-1), m)) }) }"

definition sys_close :: "machine \<Rightarrow> (int \<times> machine) option" where
  "sys_close m = do {
     me \<leftarrow> curproc (mk m);
     fd \<leftarrow> argint 0 m;
     (if \<not> argfd fd then Some (-1, m) else on_files me (fileclose (p_pid (mypr me m)) (nat fd)) m) }"

text \<open>\<open>struct stat\<close> is stored field by field: \<open>type\<close> at offset 0, \<open>dev\<close> at 4, \<open>ino\<close> at 8, \<open>size\<close> at 12.\<close>

definition sizeof_stat :: int where "sizeof_stat = 16"

definition store_stat :: "stat \<Rightarrow> u64 \<Rightarrow> machine \<Rightarrow> machine option" where
  "store_stat st a m = do {
     m \<leftarrow> ustore_list (le16 (word_of_int (st_type st))) a m;
     m \<leftarrow> ustore_list (le32 (word_of_int (st_dev st))) (a + 4) m;
     m \<leftarrow> ustore_list (le32 (st_ino st)) (a + 8) m;
     ustore_list (le32 (st_size st)) (a + 12) m }"

definition sys_fstat :: "devsw \<Rightarrow> machine \<Rightarrow> (int \<times> machine) option" where
  "sys_fstat dv m = do {
     me \<leftarrow> curproc (mk m);
     fd \<leftarrow> argint 0 m;
     p \<leftarrow> argptr 1 sizeof_stat m;
     (case (argfd fd, p) of
        (True, Some p) \<Rightarrow> do {
          ((r, st), m) \<leftarrow> on_files me (\<lambda>s. do {
             (r, st, s) \<leftarrow> filestat (p_pid (mypr me m)) dv (nat fd) s;
             Some ((r, st), s) }) m;
          (case st of None \<Rightarrow> Some (r, m) | Some st \<Rightarrow> do { m \<leftarrow> store_stat st p m; Some (r, m) }) }
      | _ \<Rightarrow> Some (-1, m)) }"

definition sys_open :: "devsw \<Rightarrow> u8 list \<Rightarrow> machine \<Rightarrow> (int \<times> machine) option" where
  "sys_open dv behind m = do {
     me \<leftarrow> curproc (mk m);
     (path, m) \<leftarrow> argstr 0 m;
     mode \<leftarrow> argint 1 m;
     (case path of
        None \<Rightarrow> Some (-1, m)
      | Some a \<Rightarrow> do {
          (path, m) \<leftarrow> ustring a m;
          on_files me (fileopen (p_pid (mypr me m)) dv behind path mode) m }) }"

text \<open>\<open>filepipe\<close> has stored the descriptors it found even when it fails.\<close>

definition sys_pipe :: "u8 list \<Rightarrow> machine \<Rightarrow> (int \<times> machine) option" where
  "sys_pipe junk m = do {
     me \<leftarrow> curproc (mk m);
     p \<leftarrow> argptr 0 8 m;
     (case p of
        None \<Rightarrow> Some (-1, m)
      | Some p \<Rightarrow> do {
          ((r, fds), m) \<leftarrow> on_files me (\<lambda>s. do {
             (r, fds, s) \<leftarrow> filepipe (p_pid (mypr me m)) junk s;
             Some ((r, fds), s) }) m;
          m \<leftarrow> ustore_list (concat (map (\<lambda>fd. le32 (word_of_nat fd)) fds)) p m;
          Some (r, m) }) }"

text \<open>\<open>fileunlink\<close> copies the bytes at address 0, where the code region of every program starts, into the entry it clears.\<close>

definition sys_unlink :: "devsw \<Rightarrow> machine \<Rightarrow> (int \<times> machine) option" where
  "sys_unlink dv m = do {
     me \<leftarrow> curproc (mk m);
     (a, m) \<leftarrow> argstr 0 m;
     (case a of
        None \<Rightarrow> Some (-1, m)
      | Some a \<Rightarrow> do {
          (path, m) \<leftarrow> ustring a m;
          p \<leftarrow> argptr 0 (c_int (int (length path))) m;
          (case p of
             None \<Rightarrow> Some (-1, m)
           | Some _ \<Rightarrow> do {
               (null_bytes, m) \<leftarrow> uload_list DIRSIZ 0 m;
               on_files me (\<lambda>s. do {
                 (r, f) \<leftarrow> fileunlink (p_pid (mypr me m)) dv null_bytes path (ffs s);
                 Some (r, s\<lparr>ffs := f\<rparr>) }) m }) }) }"

section \<open>Replacing the program (kernel/exec.c)\<close>

text \<open>
  The loop of \<open>exec\<close> over the argument strings, which are still in the memory of the old program: each is written below \<open>stack_p\<close> in
  the new address space. The result is \<open>None\<close> inside when a write fails, else the addresses of the strings and the stack pointer.
\<close>

fun exec_args :: "u64 list \<Rightarrow> u64 \<Rightarrow> vspace \<Rightarrow> machine \<Rightarrow> ((u64 list \<times> u64) option \<times> vspace \<times> machine) option" where
  "exec_args [] stack_p tmp m = Some (Some ([], stack_p), tmp, m)"
| "exec_args (a # as) stack_p tmp m = do {
     (str, m) \<leftarrow> ustring a m;
     let len = c_int (int (length str) + 1);
     let stack_p = stack_p - word_of_int len;
     (ret, tmp, s) \<leftarrow> vspacewritetova tmp stack_p (str @ [0]) len (kmem_of (mk m));
     let m = m\<lparr>mk := set_kmem s (mk m)\<rparr>;
     (if ret < 0 then Some (None, tmp, m)
      else do {
        (r, tmp, m) \<leftarrow> exec_args as stack_p tmp m;
        Some (case r of None \<Rightarrow> None | Some (ps, sp) \<Rightarrow> Some (stack_p # ps, sp), tmp, m) }) }"

definition le64 :: "u64 \<Rightarrow> u8 list" where
  "le64 w = le32 (ucast w) @ le32 (ucast (drop_bit 32 w))"

definition exec_fail :: "vspace \<Rightarrow> machine \<Rightarrow> (int \<times> machine) option" where
  "exec_fail tmp m = do {
     (_, s) \<leftarrow> vspacefree tmp (kmem_of (mk m));
     Some (-1, m\<lparr>mk := set_kmem s (mk m)\<rparr>) }"

definition upd_tf :: "nat \<Rightarrow> (trap_frame \<Rightarrow> trap_frame) \<Rightarrow> machine \<Rightarrow> machine" where
  "upd_tf me f m = m\<lparr>mk := upd_proc me (p_tf_update f) (mk m)\<rparr>"

text \<open>The part of \<open>exec\<close> after the strings: the pointer array, the registers and the switch to the new address space.\<close>

definition exec_switch :: "nat \<Rightarrow> vspace \<Rightarrow> u64 list \<Rightarrow> u64 \<Rightarrow> vspace \<Rightarrow> machine \<Rightarrow> (int \<times> machine) option" where
  "exec_switch me old ps sp tmp m = do {
     let sz = length ps;
     let sp = sp - word_of_int (c_rem (c_int (uint sp)) 8);
     let sp = sp - 8 * word_of_nat (sz + 2);
     (ret, tmp, s) \<leftarrow> vspacewritetova tmp sp (concat (map le64 (0 # ps @ [0]))) (8 * (int sz + 2)) (kmem_of (mk m));
     let m = m\<lparr>mk := set_kmem s (mk m)\<rparr>;
     (if ret < 0 then exec_fail tmp m
      else do {
        let m = upd_tf me (\<lambda>tf. tf\<lparr>tf_rdi := word_of_nat sz, tf_rsi := sp + 8, tf_rsp := sp\<rparr>) m;
        let m = m\<lparr>mk := upd_proc me (p_vspace_update (\<lambda>_. tmp)) (mk m)\<rparr>;
        h \<leftarrow> vspaceinstall (kstack (mypr me m)) tmp (hw (mk m));
        let m = m\<lparr>mk := (mk m)\<lparr>hw := h\<rparr>\<rparr>;
        (_, s) \<leftarrow> vspacefree old (kmem_of (mk m));
        Some (0, m\<lparr>mk := set_kmem s (mk m)\<rparr>) }) }"

text \<open>\<open>exec(path, argv)\<close> with \<open>argv\<close> up to its null pointer. The instruction pointer of the caller is set before the call can no longer fail.\<close>

definition exec :: "devsw \<Rightarrow> u64 \<Rightarrow> u64 list \<Rightarrow> machine \<Rightarrow> (int \<times> machine) option" where
  "exec dv path argv m = do {
     me \<leftarrow> curproc (mk m);
     let old = p_vspace (mypr me m);
     (r, tmp, s) \<leftarrow> vspaceinit (sym_data (mk m)) vspace_zero (kmem_of (mk m));
     let m = m\<lparr>mk := set_kmem s (mk m)\<rparr>;
     (if r = -1 then Some (-1, m)
      else do {
        (path, m) \<leftarrow> ustring path m;
        (sz, rip, tmp, f, s) \<leftarrow> vspaceloadcode (p_pid (mypr me m)) dv tmp path (ffs (kfiles (mk m))) (kmem_of (mk m));
        let m = m\<lparr>mk := set_kmem s ((mk m)\<lparr>kfiles := (kfiles (mk m))\<lparr>ffs := f\<rparr>\<rparr>)\<rparr>;
        (if sz = 0 then exec_fail tmp m
         else do {
           let m = upd_tf me (tf_rip_update (\<lambda>_. rip)) m;
           (r, tmp, s) \<leftarrow> vspaceinitstack tmp SZ_2G (kmem_of (mk m));
           let m = m\<lparr>mk := set_kmem s (mk m)\<rparr>;
           (if r = -1 then exec_fail tmp m
            else do {
              (r, tmp, m) \<leftarrow> exec_args argv SZ_2G tmp m;
              (case r of
                 None \<Rightarrow> exec_fail tmp m
               | Some (ps, sp) \<Rightarrow> exec_switch me old ps sp tmp m) }) }) }) }"

definition MAXARG :: nat where "MAXARG = 32"

text \<open>
  The loop of \<open>sys_exec\<close> over the user's pointer array: \<open>Some\<close> of the addresses before the null pointer, \<open>None\<close> inside on
  a bad pointer or more than \<open>MAXARG - 1\<close> arguments.
\<close>

fun exec_argv :: "nat \<Rightarrow> u64 \<Rightarrow> machine \<Rightarrow> (u64 list option \<times> machine) option" where
  "exec_argv 0 addr m = Some (None, m)"
| "exec_argv (Suc n) addr m = do {
     (a, m) \<leftarrow> fetchint64_t addr m;
     (case a of
        None \<Rightarrow> Some (None, m)
      | Some a \<Rightarrow>
          if a = 0 then Some (Some [], m)
          else do {
            (r, m) \<leftarrow> fetchstr a m;
            (if r = -1 then Some (None, m)
             else do {
               (as, m) \<leftarrow> exec_argv n (addr + 8) m;
               Some (map_option ((#) a) as, m) }) }) }"

definition sys_exec :: "devsw \<Rightarrow> machine \<Rightarrow> (int \<times> machine) option" where
  "sys_exec dv m = do {
     (path, m) \<leftarrow> argstr 0 m;
     (case path of
        None \<Rightarrow> Some (-1, m)
      | Some path \<Rightarrow> do {
          addr \<leftarrow> argint64 1 m;
          (as, m) \<leftarrow> exec_argv MAXARG addr m;
          (case as of None \<Rightarrow> Some (-1, m) | Some as \<Rightarrow> exec dv path as m) }) }"

section \<open>Dispatch (kernel/syscall.c, inc/syscall.h)\<close>

text \<open>\<open>sizeof(info)\<close> is the size of a pointer; the five counters that are stored take 20 bytes.\<close>

definition sys_sysinfo :: "machine \<Rightarrow> (int \<times> machine) option" where
  "sys_sysinfo m = do {
     info \<leftarrow> argptr 0 8 m;
     (case info of
        None \<Rightarrow> Some (-1, m)
      | Some a \<Rightarrow> do {
          m \<leftarrow> ustore_list (le32 (word_of_int (pages_in_use (kmem_of (mk m))))) a m;
          m \<leftarrow> ustore_list (le32 (word_of_int (pages_in_swap (kmem_of (mk m))))) (a + 4) m;
          m \<leftarrow> ustore_list (le32 (word_of_int (free_pages (kmem_of (mk m))))) (a + 8) m;
          m \<leftarrow> ustore_list (le32 (word_of_int (num_page_faults m))) (a + 12) m;
          m \<leftarrow> ustore_list (le32 (word_of_int (num_disk_reads (fbc (ffs (kfiles (mk m))))))) (a + 16) m;
          Some (0, m) }) }"

text \<open>The system call numbers; 9, 17, 19 and 20 (\<open>chdir\<close>, \<open>mknod\<close>, \<open>link\<close>, \<open>mkdir\<close>) have no handler.\<close>

datatype sysno = SYS_fork | SYS_exit | SYS_wait | SYS_pipe | SYS_read | SYS_kill | SYS_exec | SYS_fstat | SYS_dup
  | SYS_getpid | SYS_sbrk | SYS_sleep | SYS_uptime | SYS_open | SYS_write | SYS_unlink | SYS_close | SYS_sysinfo | SYS_crashn

definition syscalls :: "(int \<times> sysno) list" where
  "syscalls = [(1, SYS_fork), (2, SYS_exit), (3, SYS_wait), (4, SYS_pipe), (5, SYS_read), (6, SYS_kill), (7, SYS_exec),
     (8, SYS_fstat), (10, SYS_dup), (11, SYS_getpid), (12, SYS_sbrk), (13, SYS_sleep), (14, SYS_uptime), (15, SYS_open),
     (16, SYS_write), (18, SYS_unlink), (21, SYS_close), (22, SYS_sysinfo), (23, SYS_crashn)]"

definition returns :: "(int \<times> machine) option \<Rightarrow> (sys_out \<times> machine) option" where
  "returns c = do { (r, m) \<leftarrow> c; Some (SysRet r, m) }"

fun run_syscall :: "devsw \<Rightarrow> u8 list \<Rightarrow> u8 list \<Rightarrow> sysno \<Rightarrow> machine \<Rightarrow> (sys_out \<times> machine) option" where
  "run_syscall dv behind junk SYS_fork m = returns (sys_fork m)"
| "run_syscall dv behind junk SYS_exit m = do { m \<leftarrow> sys_exit m; Some (SysExit, m) }"
| "run_syscall dv behind junk SYS_wait m = sys_wait m"
| "run_syscall dv behind junk SYS_pipe m = returns (sys_pipe junk m)"
| "run_syscall dv behind junk SYS_read m = sys_read dv m"
| "run_syscall dv behind junk SYS_kill m = returns (sys_kill m)"
| "run_syscall dv behind junk SYS_exec m = returns (sys_exec dv m)"
| "run_syscall dv behind junk SYS_fstat m = returns (sys_fstat dv m)"
| "run_syscall dv behind junk SYS_dup m = returns (sys_dup m)"
| "run_syscall dv behind junk SYS_getpid m = returns (sys_getpid m)"
| "run_syscall dv behind junk SYS_sbrk m = returns (sys_sbrk m)"
| "run_syscall dv behind junk SYS_sleep m = sys_sleep m"
| "run_syscall dv behind junk SYS_uptime m = returns (sys_uptime m)"
| "run_syscall dv behind junk SYS_open m = returns (sys_open dv behind m)"
| "run_syscall dv behind junk SYS_write m = sys_write dv m"
| "run_syscall dv behind junk SYS_unlink m = returns (sys_unlink dv m)"
| "run_syscall dv behind junk SYS_close m = returns (sys_close m)"
| "run_syscall dv behind junk SYS_sysinfo m = returns (sys_sysinfo m)"
| "run_syscall dv behind junk SYS_crashn m = returns (sys_crashn m)"

text \<open>The handler's value goes to \<open>rax\<close> of the caller when the handler returns.\<close>

definition set_rax :: "nat \<Rightarrow> sys_out \<times> machine \<Rightarrow> sys_out \<times> machine" where
  "set_rax me = (\<lambda>(r, m). (r, case r of SysRet v \<Rightarrow> upd_tf me (tf_rax_update (\<lambda>_. word_of_int v)) m | _ \<Rightarrow> m))"

definition syscall :: "devsw \<Rightarrow> u8 list \<Rightarrow> u8 list \<Rightarrow> machine \<Rightarrow> (sys_out \<times> machine) option" where
  "syscall dv behind junk m = do {
     me \<leftarrow> curproc (mk m);
     (case map_of syscalls (c_int (uint (tf_rax (p_tf (mypr me m))))) of
        Some n \<Rightarrow> do { r \<leftarrow> run_syscall dv behind junk n m; Some (set_rax me r) }
      | None \<Rightarrow> Some (set_rax me (SysRet (-1), m))) }"

text \<open>A blocked call when its process has been put on the CPU again.\<close>

fun resume :: "pending \<Rightarrow> machine \<Rightarrow> (sys_out \<times> machine) option" where
  "resume (PendRead a dst left ret) m = do {
     me \<leftarrow> curproc (mk m);
     k \<leftarrow> wake_pipe (mk m);
     r \<leftarrow> on_files me (pipe_read a left) (m\<lparr>mk := k\<rparr>);
     r \<leftarrow> pipe_deliver a dst ret r;
     Some (set_rax me r) }"
| "resume (PendWrite a src left count) m = do {
     me \<leftarrow> curproc (mk m);
     k \<leftarrow> wake_pipe (mk m);
     (bs, m) \<leftarrow> uload_list left src (m\<lparr>mk := k\<rparr>);
     r \<leftarrow> on_files me (pipe_write a bs) m;
     r \<leftarrow> write_finish a src left count r;
     Some (set_rax me r) }"
| "resume (PendWait i) m = do {
     me \<leftarrow> curproc (mk m);
     r \<leftarrow> on_kern (wait_again i) m;
     Some (set_rax me (wait_result r)) }"
| "resume (PendSleep n ticks0) m = do {
     me \<leftarrow> curproc (mk m);
     (l, k) \<leftarrow> sleep_in (tickslock m) (mk m);
     r \<leftarrow> sleep_test n ticks0 (m\<lparr>mk := k, tickslock := l\<rparr>);
     Some (set_rax me r) }"

section \<open>Which pointers a system call accepts\<close>

definition inside :: "vregion \<Rightarrow> u64 \<Rightarrow> int \<Rightarrow> bool" where
  "inside r p n \<longleftrightarrow> uint (VRBOT r) \<le> uint p \<and> uint p + n \<le> uint (VRTOP r)"

lemma contains_inside:
  assumes "0 \<le> n" "uint p + n < 2 ^ 64" "vregioncontains r p n"
  shows "inside r p n"
proof -
  have "uint (p + word_of_int n) = (uint p + n) mod 2 ^ 64" by (simp add: uint_word_ariths uint_word_of_int mod_simps)
  then have "uint (p + word_of_int n) = uint p + n" using assms(1,2) by simp
  then show ?thesis using assms(3) by (simp add: vregioncontains_def inside_def word_le_def)
qed

lemma contains_wrapped:
  assumes "VRBOT r = 0" "n = 2 ^ 64 - uint p" "n \<noteq> 0"
  shows "vregioncontains r p n"
proof -
  have "(word_of_int n :: u64) = - p" by (simp add: assms(2) wi_hom_neg [symmetric] word_of_int_eq_iff take_bit_eq_mod)
  then have "p + word_of_int n = 0" by simp
  then show ?thesis using assms(1,3) by (simp add: vregioncontains_def)
qed

text \<open>
  C23. When \<open>argptr\<close> accepts a pointer and a size and their sum does not wrap around, the bytes lie inside one region of the process. When the sum wraps around
  the check is passed from outside: with the code region at 0, where every program has it, each kernel address above \<open>KERNBASE\<close> is
  accepted with a positive size that is an \<open>int\<close>.
\<close>

theorem argptr_range:
  assumes "curproc (mk m) = Some me" "argint64 k m = Some p" "0 \<le> n"
  shows "(uint p + n < 2 ^ 64 \<longrightarrow> argptr k n m = Some (Some p) \<longrightarrow>
      (\<exists>i < NREGIONS. inside (regions (p_vspace (mypr me m)) ! i) p n)) \<and>
    (VRBOT (regions (p_vspace (mypr me m)) ! VR_CODE) = 0 \<and> p > KERNBASE \<and> n = 2 ^ 64 - uint p \<longrightarrow>
      argptr k n m = Some (Some p) \<and> 0 < n \<and> n < 2 ^ 31)"
proof (intro conjI impI)
  assume h: "uint p + n < 2 ^ 64" "argptr k n m = Some (Some p)"
  then obtain i where "find_region p n (p_vspace (mypr me m)) = Some i"
    using assms by (auto simp: argptr_def split: option.splits)
  then have "i < NREGIONS" "vregioncontains (regions (p_vspace (mypr me m)) ! i) p n" by (auto simp: find_region_def for_first_Some)
  then show "\<exists>i < NREGIONS. inside (regions (p_vspace (mypr me m)) ! i) p n" using contains_inside assms(3) h(1) by blast
next
  assume h: "VRBOT (regions (p_vspace (mypr me m)) ! VR_CODE) = 0 \<and> p > KERNBASE \<and> n = 2 ^ 64 - uint p"
  have "uint p < 2 ^ 64" using uint_lt2p [of p] by simp
  moreover have "uint p > uint KERNBASE" using h by (simp add: word_less_def)
  ultimately show n: "0 < n" "n < 2 ^ 31" using h by (simp_all add: KERNBASE_def)
  have "vregioncontains (regions (p_vspace (mypr me m)) ! VR_CODE) p n" using h n(1) by (intro contains_wrapped) auto
  then have "find_region p n (p_vspace (mypr me m)) = Some 0"
    by (simp add: find_region_def for_first.simps [of _ 0] VR_CODE_def NREGIONS_def)
  then show "argptr k n m = Some (Some p)" using assms by (simp add: argptr_def)
qed

text \<open>A process that passes the kernel address \<open>0xFFFFFFFF80100000\<close> as the first argument.\<close>

definition mach_demo :: machine where
  "mach_demo = \<lparr>mk = kern_demo\<lparr>curproc := Some 0, procs := proc_demo\<lparr>p_tf := tf_zero\<lparr>tf_rdi := 0xFFFFFFFF80100000\<rparr>\<rparr> # replicate 63 proc_zero\<rparr>,
     ticks = 0, tickslock = initlock ''time'', fault_lock = initlock ''kmem_3'', fault_locking = True, num_page_faults = 0, sym_ticks = 0x1000\<rparr>"

theorem argptr_range_witness: "argptr 0 0x7FF00000 mach_demo = Some (Some 0xFFFFFFFF80100000)"
proof -
  have c: "curproc (mk mach_demo) = Some 0" and a: "argint64 0 mach_demo = Some 0xFFFFFFFF80100000"
    by (simp_all add: mach_demo_def argint64_def fetcharg_def)
  have "VRBOT (regions (p_vspace (mypr 0 mach_demo)) ! VR_CODE) = 0"
    by (simp add: mach_demo_def proc_demo_def vspace_zero_def NREGIONS_def VR_CODE_def VRBOT_def vregion_zero_def)
  then show ?thesis using conjunct2 [OF argptr_range [OF c a, of "0x7FF00000"]] by (simp add: KERNBASE_def)
qed

end
