(* ===== verification/Xk_Console.thy ===== *)
theory Xk_Console
  imports Xk_Locks
begin

text \<open>
  The console: the keyboard of \<open>kernel/kbd.c\<close> with the tables of \<open>inc/kbd.h\<close>, the serial port of \<open>kernel/uart.c\<close>, and
  \<open>kernel/console.c\<close> with the screen, formatted output, and the line discipline between interrupts and readers.
  The devices are queues: \<open>kb_queue\<close> and \<open>rx_queue\<close> hold the bytes that the keyboard controller and the serial port have received, \<open>tx_bytes\<close> what was
  sent. The cursor registers of the screen are \<open>crt14\<close> and \<open>crt15\<close>, its memory \<open>crt_mem\<close>. \<open>in_woken\<close> counts the calls \<open>wakeup(&input.r)\<close>.
\<close>

section \<open>State\<close>

record console =
  cons_lock :: spinlock
  cons_locking :: int
  panicked :: int
  crt14 :: u8
  crt15 :: u8
  crt_mem :: "nat \<Rightarrow> u16"
  has_uart :: bool
  tx_bytes :: "u8 list"
  rx_queue :: "u8 list"
  kb_queue :: "u8 list"
  kb_shift :: u32
  in_buf :: "u8 list"
  in_r :: u32
  in_w :: u32
  in_e :: u32
  in_woken :: nat

section \<open>Keyboard (inc/kbd.h, kernel/kbd.c)\<close>

definition SHIFT :: u32 where "SHIFT = 1"
definition CTL :: u32 where "CTL = 2"
definition ALT :: u32 where "ALT = 4"
definition CAPSLOCK :: u32 where "CAPSLOCK = 8"
definition NUMLOCK :: u32 where "NUMLOCK = 16"
definition SCROLLLOCK :: u32 where "SCROLLLOCK = 32"
definition E0ESC :: u32 where "E0ESC = 64"

text \<open>A table of 256 entries with the given first entries and designated entries; the others are 0.\<close>

definition table256 :: "'a :: zero list \<Rightarrow> (nat \<times> 'a) list \<Rightarrow> 'a list" where
  "table256 xs ps = fold (\<lambda>(i, c) t. t[i := c]) ps (xs @ replicate (256 - length xs) 0)"

definition chars :: "string \<Rightarrow> u8 list" where "chars = map of_char"

definition shiftcode :: "u32 list" where
  "shiftcode = table256 [] [(0x1D, CTL), (0x2A, SHIFT), (0x36, SHIFT), (0x38, ALT), (0x9D, CTL), (0xB8, ALT)]"

definition togglecode :: "u32 list" where
  "togglecode = table256 [] [(0x3A, CAPSLOCK), (0x45, NUMLOCK), (0x46, SCROLLLOCK)]"

text \<open>The cursor and editing keys, in all three maps: \<open>KEY_HOME\<close> is \<open>0xE0\<close> and so on to \<open>KEY_DEL\<close>, \<open>0xE9\<close>.\<close>

definition special_keys :: "(nat \<times> u8) list" where
  "special_keys = [(0xC8, 0xE2), (0xD0, 0xE3), (0xC9, 0xE6), (0xD1, 0xE7), (0xCB, 0xE4), (0xCD, 0xE5), (0x97, 0xE0),
     (0xCF, 0xE1), (0xD2, 0xE8), (0xD3, 0xE9)]"

definition keypad :: "u8 list" where
  "keypad = replicate 13 0 @ chars ''789-456+1230.'' @ [0, 0, 0, 0]"

definition normalmap :: "u8 list" where
  "normalmap = table256
     ([0, 0x1B] @ chars ''1234567890-='' @ [8, 9] @ chars ''qwertyuiop[]'' @ [10, 0] @ chars ''asdfghjkl;'' @ [39, 96, 0, 92] @
      chars ''zxcvbnm,./'' @ [0] @ chars ''*'' @ [0] @ chars '' '' @ keypad)
     ((0x9C, 10) # (0xB5, 47) # special_keys)"

definition shiftmap :: "u8 list" where
  "shiftmap = table256
     ([0, 27] @ chars ''!@#$%^&*()_+'' @ [8, 9] @ chars ''QWERTYUIOP{}'' @ [10, 0] @ chars ''ASDFGHJKL:'' @ [34, 126, 0, 124] @
      chars ''ZXCVBNM<>?'' @ [0] @ chars ''*'' @ [0] @ chars '' '' @ keypad)
     ((0x9C, 10) # (0xB5, 47) # special_keys)"

text \<open>\<open>C(x)\<close> is \<open>x - '@'\<close>, kept as an unsigned byte.\<close>

definition ctl :: "string \<Rightarrow> u8 list" where "ctl s = map (\<lambda>c. c - 64) (chars s)"

definition ctlmap :: "u8 list" where
  "ctlmap = table256
     (replicate 16 0 @ ctl ''QWERTYUIOP'' @ [0, 0, 13, 0] @ ctl ''ASDFGHJKL'' @ [0, 0, 0, 0, 28] @ ctl ''ZXCVBNM'' @ [0, 0] @
      ctl ''/'' @ [0, 0])
     ((0x9C, 13) # (0xB5, 0xEF) # special_keys)"

definition charcode :: "u8 list list" where "charcode = [normalmap, shiftmap, ctlmap, ctlmap]"

text \<open>What \<open>kbdgetc\<close> does with one scan code: the new shift state and the character.\<close>

definition kbd_code :: "u8 \<Rightarrow> u32 \<Rightarrow> u32 \<times> int" where
  "kbd_code data shift =
     (if data = 0xE0 then (shift OR E0ESC, 0)
      else if data AND 0x80 \<noteq> 0 then
        let data = (if shift AND E0ESC \<noteq> 0 then data else data AND 0x7F)
        in (shift AND NOT (shiftcode ! unat data OR E0ESC), 0)
      else
        let (data, shift) = (if shift AND E0ESC \<noteq> 0 then (data OR 0x80, shift AND NOT E0ESC) else (data, shift));
            shift = shift OR shiftcode ! unat data;
            shift = shift XOR togglecode ! unat data;
            c = uint (charcode ! unat (shift AND (CTL OR SHIFT)) ! unat data);
            c = (if shift AND CAPSLOCK \<noteq> 0 then
                   (if 97 \<le> c \<and> c \<le> 122 then c - 32 else if 65 \<le> c \<and> c \<le> 90 then c + 32 else c)
                 else c)
        in (shift, c))"

definition kbdgetc :: "console \<Rightarrow> int \<times> console" where
  "kbdgetc s = (case kb_queue s of
      [] \<Rightarrow> (-1, s)
    | data # rest \<Rightarrow>
        let (shift, c) = kbd_code data (kb_shift s) in (c, s\<lparr>kb_queue := rest, kb_shift := shift\<rparr>))"

section \<open>Serial port (kernel/uart.c)\<close>

definition uartputc :: "int \<Rightarrow> console \<Rightarrow> console" where
  "uartputc c s = (if has_uart s then s\<lparr>tx_bytes := tx_bytes s @ [word_of_int c]\<rparr> else s)"

definition uartgetc :: "console \<Rightarrow> int \<times> console" where
  "uartgetc s = (if \<not> has_uart s then (-1, s)
     else case rx_queue s of [] \<Rightarrow> (-1, s) | c # rest \<Rightarrow> (uint c, s\<lparr>rx_queue := rest\<rparr>))"

section \<open>Screen (kernel/console.c)\<close>

definition BACKSPACE :: int where "BACKSPACE = 0x100"

text \<open>\<open>cgaputc\<close>; a cursor behind the 25 lines panics.\<close>

definition cga_pos :: "console \<Rightarrow> int" where
  "cga_pos s = uint (crt14 s) * 256 + uint (crt15 s)"

definition cga_scroll :: "int \<Rightarrow> console \<Rightarrow> int \<times> console" where
  "cga_scroll pos s =
     (if pos div 80 \<ge> 24 then
        let mem = (\<lambda>i. if i < 23 * 80 then crt_mem s (i + 80) else crt_mem s i);
            pos = pos - 80;
            mem = (\<lambda>i. if nat pos \<le> i \<and> i < 24 * 80 then 0 else mem i)
        in (pos, s\<lparr>crt_mem := mem\<rparr>)
      else (pos, s))"

definition cga_move :: "int \<Rightarrow> console \<Rightarrow> int \<times> console" where
  "cga_move c s =
     (let pos = cga_pos s in
      if c = 10 then (pos + (80 - pos mod 80), s)
      else if c = BACKSPACE then (if pos > 0 then pos - 1 else pos, s)
      else (pos + 1, s\<lparr>crt_mem := (crt_mem s)(nat pos := word_of_int c AND 0xFF OR 0x0700)\<rparr>))"

definition cgaputc :: "int \<Rightarrow> console \<Rightarrow> console option" where
  "cgaputc c s =
     (let (pos, s) = cga_move c s in
      if pos < 0 \<or> pos > 25 * 80 then None
      else let (pos, s) = cga_scroll pos s
           in Some (s\<lparr>crt14 := word_of_int (pos div 256), crt15 := word_of_int pos,
                    crt_mem := (crt_mem s)(nat pos := 0x0720)\<rparr>))"

definition consputc :: "int \<Rightarrow> console \<Rightarrow> console option" where
  "consputc c s =
     (if panicked s \<noteq> 0 then None
      else if c = BACKSPACE then cgaputc c (uartputc 8 (uartputc 32 (uartputc 8 s)))
      else cgaputc c (uartputc c s))"

primrec consputs :: "int list \<Rightarrow> console \<Rightarrow> console option" where
  "consputs [] s = Some s"
| "consputs (c # cs) s = do { s \<leftarrow> consputc c s; consputs cs s }"

section \<open>Formatted output\<close>

text \<open>The digits of \<open>x\<close>, the lowest first, as the loops of \<open>printint\<close> and \<open>printint64\<close> put them into \<open>buf\<close>.\<close>

definition digit :: "nat \<Rightarrow> u8" where "digit d = chars ''0123456789abcdef'' ! d"

function digits_rev :: "nat \<Rightarrow> nat \<Rightarrow> u8 list" where
  "digits_rev base x = digit (x mod base) # (if base > 1 \<and> x div base \<noteq> 0 then digits_rev base (x div base) else [])"
  by pat_completeness auto
termination
  by (relation "measure snd") (auto simp: div_eq_0_iff not_less)

declare digits_rev.simps [simp del]

text \<open>
  \<open>printint\<close> and \<open>printint64\<close>: the bytes that are put out. The magnitude of a negative number is taken modulo the
  width of the type.
\<close>

definition printint :: "int \<Rightarrow> nat \<Rightarrow> bool \<Rightarrow> u8 list" where
  "printint xx base sign =
     (let neg = (sign \<and> xx < 0); x = (word_of_int (if neg then - xx else xx) :: u32)
      in rev (digits_rev base (unat x) @ (if neg then [45] else [])))"

definition printint64 :: "int \<Rightarrow> nat \<Rightarrow> bool \<Rightarrow> u8 list" where
  "printint64 xx base sign =
     (let neg = (sign \<and> xx < 0); x = (word_of_int (if neg then - xx else xx) :: u64)
      in rev (digits_rev base (unat x) @ (if neg then [45] else [])))"

text \<open>The arguments of \<open>cprintf\<close>: an integer, or a string without its NUL (\<open>None\<close> for a null pointer).\<close>

datatype farg = FInt int | FStr "u8 list option"

text \<open>
  \<open>cprintf\<close> up to the output of each byte: \<open>fmt_text\<close> runs in plain text, \<open>fmt_conv\<close> behind a \<open>%\<close> with \<open>lflag\<close>. An argument of the
  wrong kind is undefined.
\<close>

function fmt_text :: "u8 list \<Rightarrow> farg list \<Rightarrow> u8 list option"
  and fmt_conv :: "bool \<Rightarrow> u8 list \<Rightarrow> farg list \<Rightarrow> u8 list option" where
  "fmt_text [] as = Some []"
| "fmt_text (c # cs) as =
     (if c \<noteq> 37 then map_option ((#) c) (fmt_text cs as) else fmt_conv False cs as)"
| "fmt_conv l [] as = Some []"
| "fmt_conv l (c # cs) as =
     (if c = of_char CHR ''d'' then
        (case as of FInt i # as \<Rightarrow> map_option ((@) (if l then printint64 i 10 True else printint i 10 True)) (fmt_text cs as) | _ \<Rightarrow> None)
      else if c = of_char CHR ''l'' then fmt_conv (\<not> l) cs as
      else if c = of_char CHR ''x'' \<or> c = of_char CHR ''p'' then
        (case as of FInt i # as \<Rightarrow> map_option ((@) (if l then printint64 i 16 False else printint i 16 False)) (fmt_text cs as) | _ \<Rightarrow> None)
      else if c = of_char CHR ''s'' then
        (case as of FStr s # as \<Rightarrow> map_option ((@) (case s of None \<Rightarrow> chars ''(null)'' | Some s \<Rightarrow> s)) (fmt_text cs as) | _ \<Rightarrow> None)
      else if c = 37 then map_option ((#) 37) (fmt_text cs as)
      else map_option (\<lambda>bs. 37 # c # bs) (fmt_text cs as))"
  by pat_completeness auto
termination
  by (relation "measure (\<lambda>x. case x of Inl (cs, as) \<Rightarrow> length cs | Inr (l, cs, as) \<Rightarrow> length cs)") auto

definition acquire_cons :: "console \<Rightarrow> console option" where
  "acquire_cons s = do { l \<leftarrow> acquire_lk (cons_lock s); Some (s\<lparr>cons_lock := l\<rparr>) }"

definition release_cons :: "console \<Rightarrow> console option" where
  "release_cons s = do { l \<leftarrow> release_lk (cons_lock s); Some (s\<lparr>cons_lock := l\<rparr>) }"

definition cprintf :: "u8 list \<Rightarrow> farg list \<Rightarrow> console \<Rightarrow> console option" where
  "cprintf fmt as s = do {
     let locking = cons_locking s;
     s \<leftarrow> (if locking \<noteq> 0 then acquire_cons s else Some s);
     out \<leftarrow> fmt_text fmt as;
     s \<leftarrow> consputs (map uint out) s;
     (if locking \<noteq> 0 then release_cons s else Some s) }"

section \<open>Input lines\<close>

definition INPUT_BUF :: nat where "INPUT_BUF = 128"

definition in_byte :: "console \<Rightarrow> u32 \<Rightarrow> u8" where
  "in_byte s i = in_buf s ! (unat i mod INPUT_BUF)"

text \<open>Control-U: back to the last newline or to what was handed to the readers.\<close>

partial_function (option) kill_line :: "console \<Rightarrow> console option" where
  "kill_line s =
     (if in_e s \<noteq> in_w s \<and> in_byte s (in_e s - 1) \<noteq> 10 then do {
        s \<leftarrow> consputc BACKSPACE (s\<lparr>in_e := in_e s - 1\<rparr>);
        kill_line s }
      else Some s)"

text \<open>One round of the loop of \<open>consoleintr\<close>, with the character \<open>c\<close>; Control-P only asks for a process listing.\<close>

definition cons_char :: "int \<Rightarrow> console \<Rightarrow> console option" where
  "cons_char c s =
     (if c = 16 then Some s
      else if c = 21 then kill_line s
      else if c = 8 \<or> c = 127 then
        (if in_e s \<noteq> in_w s then consputc BACKSPACE (s\<lparr>in_e := in_e s - 1\<rparr>) else Some s)
      else if c \<noteq> 0 \<and> in_e s - in_r s < word_of_nat INPUT_BUF then do {
        let c = (if c = 13 then 10 else c);
        let s = s\<lparr>in_buf := (in_buf s)[unat (in_e s) mod INPUT_BUF := word_of_int c], in_e := in_e s + 1\<rparr>;
        s \<leftarrow> consputc c s;
        Some (if c = 10 \<or> c = 4 \<or> in_e s = in_r s + word_of_nat INPUT_BUF
              then s\<lparr>in_w := in_e s, in_woken := Suc (in_woken s)\<rparr> else s) }
      else Some s)"

text \<open>The loop; the result tells whether Control-P was seen.\<close>

partial_function (option) consoleintr_loop :: "(console \<Rightarrow> int \<times> console) \<Rightarrow> bool \<Rightarrow> console \<Rightarrow> (bool \<times> console) option" where
  "consoleintr_loop getc doprocdump s =
     (let (c, s) = getc s in
      if c \<ge> 0 then do {
        s \<leftarrow> cons_char c s;
        consoleintr_loop getc (doprocdump \<or> c = 16) s }
      else Some (doprocdump, s))"

definition consoleintr :: "(console \<Rightarrow> int \<times> console) \<Rightarrow> console \<Rightarrow> (bool \<times> console) option" where
  "consoleintr getc s = do {
     s \<leftarrow> acquire_cons s;
     (d, s) \<leftarrow> consoleintr_loop getc False s;
     s \<leftarrow> release_cons s;
     Some (d, s) }"

definition kbdintr :: "console \<Rightarrow> (bool \<times> console) option" where "kbdintr = consoleintr kbdgetc"

definition uartintr :: "console \<Rightarrow> (bool \<times> console) option" where "uartintr = consoleintr uartgetc"

text \<open>
  The loop of \<open>consoleread\<close> with \<open>n\<close> of \<open>target\<close> bytes to go: the bytes, and the number still to be read when it has to
  sleep for input (the outer \<open>None\<close> when it is done).
\<close>

fun consoleread_loop :: "nat \<Rightarrow> nat \<Rightarrow> console \<Rightarrow> u8 list \<times> nat option \<times> console" where
  "consoleread_loop target 0 s = ([], None, s)"
| "consoleread_loop target (Suc n) s =
     (if in_r s = in_w s then ([], Some (Suc n), s)
      else
        let c = in_byte s (in_r s); s' = s\<lparr>in_r := in_r s + 1\<rparr> in
        if c = 4 then ([], None, if Suc n < target then s else s')
        else if c = 10 then ([c], None, s')
        else let (bs, r, s'') = consoleread_loop target n s' in (c # bs, r, s''))"

datatype con_read = ConReturned int "u8 list" | ConSleeping "u8 list" nat

text \<open>\<open>consoleread\<close> until it returns or sleeps; \<open>killed\<close> is the flag of the caller, and \<open>n\<close> of \<open>target\<close> bytes are to go.\<close>

definition consoleread :: "bool \<Rightarrow> nat \<Rightarrow> nat \<Rightarrow> console \<Rightarrow> (con_read \<times> console) option" where
  "consoleread killed target n s = do {
     s \<leftarrow> acquire_cons s;
     let (bs, r, s) = consoleread_loop target n s;
     s \<leftarrow> release_cons s;
     Some (case r of
        None \<Rightarrow> ConReturned (int (target - n + length bs)) bs
      | Some left \<Rightarrow> if killed then ConReturned (-1) bs else ConSleeping bs left, s) }"

definition consolewrite :: "u8 list \<Rightarrow> console \<Rightarrow> (int \<times> console) option" where
  "consolewrite bs s = do {
     s \<leftarrow> acquire_cons s;
     s \<leftarrow> consputs (map uint bs) s;
     s \<leftarrow> release_cons s;
     Some (int (length bs), s) }"

definition consoleinit :: "console \<Rightarrow> console" where
  "consoleinit s = s\<lparr>cons_lock := initlock ''console'', cons_locking := 1\<rparr>"

section \<open>The cursor stays on the screen\<close>

definition on_screen :: "console \<Rightarrow> bool" where
  "on_screen s \<longleftrightarrow> cga_pos s < 24 * 80"

text \<open>Output changes only the screen and what was sent; behind the 24 lines in use the screen memory is left alone.\<close>

definition out_only :: "console \<Rightarrow> console \<Rightarrow> bool" where
  "out_only s s' \<longleftrightarrow>
     (\<exists>a b m t. s' = s\<lparr>crt14 := a, crt15 := b, crt_mem := m, tx_bytes := t\<rparr> \<and> (\<forall>i \<ge> 24 * 80. m i = crt_mem s i))"

lemma out_only_refl [simp]: "out_only s s"
  unfolding out_only_def
  by (rule exI [of _ "crt14 s"], rule exI [of _ "crt15 s"], rule exI [of _ "crt_mem s"], rule exI [of _ "tx_bytes s"]) simp

lemma out_onlyI:
  "s' = s\<lparr>crt14 := a, crt15 := b, crt_mem := m, tx_bytes := t\<rparr> \<Longrightarrow> (\<And>i. i \<ge> 24 * 80 \<Longrightarrow> m i = crt_mem s i) \<Longrightarrow> out_only s s'"
  unfolding out_only_def by blast

lemma out_only_trans:
  assumes "out_only s1 s2" "out_only s2 s3"
  shows "out_only s1 s3"
proof -
  from assms(1) obtain a b m t where 1: "s2 = s1\<lparr>crt14 := a, crt15 := b, crt_mem := m, tx_bytes := t\<rparr>" "\<forall>i \<ge> 24 * 80. m i = crt_mem s1 i"
    unfolding out_only_def by blast
  from assms(2) obtain a' b' m' t' where 2: "s3 = s2\<lparr>crt14 := a', crt15 := b', crt_mem := m', tx_bytes := t'\<rparr>" "\<forall>i \<ge> 24 * 80. m' i = crt_mem s2 i"
    unfolding out_only_def by blast
  from 1 2 show ?thesis by (intro out_onlyI [where a = a' and b = b' and m = m' and t = t']) auto
qed

lemma out_only_fields:
  assumes "out_only s s'"
  shows "panicked s' = panicked s" "cons_lock s' = cons_lock s" "in_buf s' = in_buf s" "in_r s' = in_r s" "in_w s' = in_w s"
    "in_e s' = in_e s" "in_woken s' = in_woken s" "kb_queue s' = kb_queue s" "rx_queue s' = rx_queue s"
    "has_uart s' = has_uart s" "kb_shift s' = kb_shift s" "cons_locking s' = cons_locking s"
    "i \<ge> 24 * 80 \<Longrightarrow> crt_mem s' i = crt_mem s i"
  using assms unfolding out_only_def by auto

lemma out_only_uartputc [simp]: "out_only s (uartputc c s)"
  by (cases "has_uart s") (auto simp: uartputc_def
    intro!: out_onlyI [where a = "crt14 s" and b = "crt15 s" and m = "crt_mem s" and t = "tx_bytes s @ [word_of_int c]"])

lemma on_screen_uartputc [simp]: "on_screen (uartputc c s) = on_screen s" "panicked (uartputc c s) = panicked s"
  by (simp_all add: on_screen_def uartputc_def cga_pos_def)

lemma cga_pos_nonneg: "0 \<le> cga_pos s"
  by (simp add: cga_pos_def)

lemma cga_pos_store:
  assumes "0 \<le> pos" "pos < 65536"
  shows "cga_pos (s\<lparr>crt14 := word_of_int (pos div 256), crt15 := word_of_int pos, crt_mem := m\<rparr>) = pos"
proof -
  have "(pos div 256) mod 256 = pos div 256" using assms by (intro mod_pos_pos_trivial) (auto simp: div_less_iff_less_mult)
  then show ?thesis
    by (simp add: cga_pos_def uint_word_of_int)
qed

lemma cga_scroll_ok:
  assumes "0 \<le> pos" "pos \<le> 24 * 80" "cga_scroll pos s = (pos', s')"
  shows "0 \<le> pos' \<and> pos' < 24 * 80 \<and> (\<exists>m. s' = s\<lparr>crt_mem := m\<rparr> \<and> (\<forall>i \<ge> 24 * 80. m i = crt_mem s i))"
proof (cases "pos div 80 \<ge> 24")
  case True
  with assms have "pos = 24 * 80" by linarith
  with assms show ?thesis by (auto simp: cga_scroll_def Let_def)
next
  case False
  with assms show ?thesis by (auto simp: cga_scroll_def intro: exI [of _ "crt_mem s"])
qed

lemma cga_move_ok:
  assumes "on_screen s" "cga_move c s = (pos, s')"
  shows "0 \<le> pos \<and> pos \<le> 24 * 80 \<and> (\<exists>m. s' = s\<lparr>crt_mem := m\<rparr> \<and> (\<forall>i \<ge> 24 * 80. m i = crt_mem s i))"
proof -
  let ?p = "cga_pos s"
  have p: "0 \<le> ?p" "?p < 24 * 80" using assms cga_pos_nonneg [of s] by (simp_all add: on_screen_def)
  have "?p + (80 - ?p mod 80) = 80 * (?p div 80 + 1)" by (simp add: algebra_simps minus_mod_eq_mult_div [symmetric])
  moreover have "?p div 80 < 24" using p by (simp add: div_less_iff_less_mult)
  ultimately have "0 \<le> ?p + (80 - ?p mod 80)" "?p + (80 - ?p mod 80) \<le> 24 * 80" using p by auto
  with p assms(2) have "0 \<le> pos \<and> pos \<le> 24 * 80" by (auto simp: cga_move_def Let_def split: if_splits)
  moreover have "s' = s\<lparr>crt_mem := crt_mem s'\<rparr>" "\<forall>i \<ge> 24 * 80. crt_mem s' i = crt_mem s i"
    using p assms(2) by (auto simp: cga_move_def Let_def split: if_splits)
  ultimately show ?thesis by blast
qed

lemma cgaputc_ok:
  assumes "on_screen s"
  obtains s' where "cgaputc c s = Some s'" "on_screen s'" "out_only s s'"
proof -
  obtain p t where mv: "cga_move c s = (p, t)" by (cases "cga_move c s")
  from cga_move_ok [OF assms mv] obtain m where p: "0 \<le> p" "p \<le> 24 * 80" and t: "t = s\<lparr>crt_mem := m\<rparr>" "\<forall>i \<ge> 24 * 80. m i = crt_mem s i" by blast
  obtain q u where sc: "cga_scroll p t = (q, u)" by (cases "cga_scroll p t")
  from cga_scroll_ok [OF p sc] obtain n where q: "0 \<le> q" "q < 24 * 80" and u: "u = t\<lparr>crt_mem := n\<rparr>" "\<forall>i \<ge> 24 * 80. n i = crt_mem t i" by blast
  let ?s' = "u\<lparr>crt14 := word_of_int (q div 256), crt15 := word_of_int q, crt_mem := (crt_mem u)(nat q := 0x0720)\<rparr>"
  have "cgaputc c s = Some ?s'" using mv sc p by (simp add: cgaputc_def)
  moreover have "on_screen ?s'" using q by (simp add: on_screen_def cga_pos_store)
  moreover have "out_only s ?s'" using t u q
    by (intro out_onlyI [where a = "word_of_int (q div 256)" and b = "word_of_int q" and m = "n(nat q := 0x0720)" and t = "tx_bytes s"]) auto
  ultimately show ?thesis using that by blast
qed

lemma consputc_ok:
  assumes "on_screen s" "panicked s = 0"
  obtains s' where "consputc c s = Some s'" "on_screen s'" "out_only s s'"
proof -
  let ?t = "if c = BACKSPACE then uartputc 8 (uartputc 32 (uartputc 8 s)) else uartputc c s"
  have "out_only s ?t" by (auto intro!: out_only_trans [OF out_only_uartputc out_only_trans [OF out_only_uartputc out_only_uartputc]])
  moreover have "on_screen ?t" using assms by simp
  then obtain s' where "cgaputc c ?t = Some s'" "on_screen s'" "out_only ?t s'" by (rule cgaputc_ok)
  moreover have "consputc c s = cgaputc c ?t" using assms by (simp add: consputc_def)
  ultimately show ?thesis using that by (metis out_only_trans)
qed

lemma consputs_ok:
  assumes "on_screen s" "panicked s = 0"
  shows "\<exists>s'. consputs cs s = Some s' \<and> on_screen s' \<and> out_only s s'"
  using assms
proof (induction cs arbitrary: s)
  case (Cons c cs)
  from consputc_ok [OF Cons.prems] obtain t where t: "consputc c s = Some t" "on_screen t" "out_only s t" by blast
  then have "panicked t = 0" using Cons.prems out_only_fields(1) by simp
  from Cons.IH [OF t(2) this] t show ?case by (auto intro: out_only_trans)
qed simp

text \<open>
  C30. Whatever bytes are written to a console whose cursor is in the first 24 lines, \<open>consolewrite\<close> returns with their number: it never
  panics, leaves the cursor in these lines, and changes no screen memory behind them.
\<close>

theorem cursor_on_screen:
  assumes "cga_pos s < 24 * 80" "panicked s = 0" "lk_free (cons_lock s)"
  shows "\<exists>s'. consolewrite bs s = Some (int (length bs), s') \<and> cga_pos s' < 24 * 80 \<and> lk_free (cons_lock s') \<and>
    (\<forall>i \<ge> 24 * 80. crt_mem s' i = crt_mem s i)"
proof -
  let ?t = "s\<lparr>cons_lock := (cons_lock s)\<lparr>locked := 1, lkcpu := mycpu\<rparr>\<rparr>"
  have "on_screen ?t" "panicked ?t = 0" using assms by (simp_all add: on_screen_def cga_pos_def)
  from consputs_ok [OF this, of "map uint bs"] obtain u where u: "consputs (map uint bs) ?t = Some u" "on_screen u" "out_only ?t u" by blast
  from out_only_fields(2) [OF u(3)] have l: "cons_lock u = (cons_lock s)\<lparr>locked := 1, lkcpu := mycpu\<rparr>" by simp
  have "cga_pos (u\<lparr>cons_lock := x\<rparr>) = cga_pos u" for x by (simp add: cga_pos_def)
  with u l assms show ?thesis
    by (auto simp: consolewrite_def acquire_cons_def release_cons_def on_screen_def out_only_fields(13) [OF u(3)])
qed

definition con_demo :: console where
  "con_demo = \<lparr>cons_lock = initlock ''console'', cons_locking = 1, panicked = 0, crt14 = 7, crt15 = 0x7F, crt_mem = (\<lambda>_. 0),
     has_uart = True, tx_bytes = [], rx_queue = [], kb_queue = [], kb_shift = 0, in_buf = replicate INPUT_BUF 0, in_r = 0, in_w = 0, in_e = 0,
     in_woken = 0\<rparr>"

theorem cursor_on_screen_witness:
  "cga_pos con_demo = 1919 \<and>
   (\<exists>s'. consolewrite [65, 10, 66] con_demo = Some (3, s') \<and> cga_pos s' < 24 * 80 \<and> lk_free (cons_lock s') \<and>
      (\<forall>i \<ge> 24 * 80. crt_mem s' i = 0))"
proof -
  have p: "cga_pos con_demo = 1919" by (simp add: con_demo_def cga_pos_def)
  have "\<exists>s'. consolewrite [65, 10, 66] con_demo = Some (int (length [65 :: u8, 10, 66]), s') \<and> cga_pos s' < 24 * 80 \<and> lk_free (cons_lock s') \<and>
    (\<forall>i \<ge> 24 * 80. crt_mem s' i = crt_mem con_demo i)"
    by (rule cursor_on_screen) (simp_all add: p, simp_all add: con_demo_def initlock_free)
  moreover have "crt_mem con_demo i = 0" for i by (simp add: con_demo_def)
  ultimately show ?thesis using p by simp
qed
section \<open>The line discipline\<close>

text \<open>
  The input buffer as two lists: what is handed to readers (\<open>committed\<close>, from \<open>r\<close> to \<open>w\<close>) and the line that is being
  typed (\<open>editing\<close>, from \<open>w\<close> to \<open>e\<close>). Positions are counted from \<open>r\<close>; the indices wrap modulo \<open>2 ^ 32\<close>.
\<close>

definition ring :: "console \<Rightarrow> nat \<Rightarrow> u8" where
  "ring s i = in_byte s (in_r s + word_of_nat i)"

definition n_done :: "console \<Rightarrow> nat" where "n_done s = unat (in_w s - in_r s)"

definition n_all :: "console \<Rightarrow> nat" where "n_all s = unat (in_e s - in_r s)"

definition committed :: "console \<Rightarrow> u8 list" where "committed s = map (ring s) [0..<n_done s]"

definition editing :: "console \<Rightarrow> u8 list" where "editing s = map (ring s) [n_done s..<n_all s]"

definition input_ok :: "console \<Rightarrow> bool" where
  "input_ok s \<longleftrightarrow> length (in_buf s) = INPUT_BUF \<and> n_done s \<le> n_all s \<and> n_all s \<le> INPUT_BUF \<and> 10 \<notin> set (editing s)"

text \<open>The effect of one character on the two lists.\<close>

definition line_step :: "int \<Rightarrow> u8 list \<times> u8 list \<Rightarrow> u8 list \<times> u8 list" where
  "line_step c = (\<lambda>(done, ed).
     if c = 16 then (done, ed)
     else if c = 21 then (done, [])
     else if c = 8 \<or> c = 127 then (done, butlast ed)
     else if c \<noteq> 0 \<and> length done + length ed < INPUT_BUF then
       let c = (if c = 13 then 10 else c); ed = ed @ [word_of_int c] in
       if c = 10 \<or> c = 4 \<or> length done + length ed = INPUT_BUF then (done @ ed, []) else (done, ed)
     else (done, ed))"

lemma ring_eq: "ring s i = in_buf s ! ((unat (in_r s) + i) mod 128)"
proof -
  have "(x mod (2 ^ 32)) mod 128 = x mod (128 :: nat)" for x by (rule mod_mod_cancel) (simp add: dvd_def exI [of _ "2 ^ 25"])
  then show ?thesis by (simp add: ring_def in_byte_def INPUT_BUF_def unat_word_ariths unat_of_nat mod_simps)
qed

lemma in_e_eq: "in_e s = in_r s + word_of_nat (n_all s)" and in_w_eq: "in_w s = in_r s + word_of_nat (n_done s)"
  by (simp_all add: n_all_def n_done_def)

lemma in_byte_e: "in_byte s (in_e s) = ring s (n_all s)"
  by (simp add: ring_def in_e_eq [symmetric])

lemma in_e_index: "unat (in_e s) mod 128 = (unat (in_r s) + n_all s) mod 128"
proof -
  have "(x mod (2 ^ 32)) mod 128 = x mod (128 :: nat)" for x by (rule mod_mod_cancel) (simp add: dvd_def exI [of _ "2 ^ 25"])
  then show ?thesis by (subst in_e_eq) (simp add: unat_word_ariths unat_of_nat mod_simps)
qed

lemma lengths [simp]: "length (committed s) = n_done s" "length (editing s) = n_all s - n_done s"
  by (simp_all add: committed_def editing_def)

text \<open>Output does not touch the input buffer.\<close>

lemma out_only_input:
  assumes "out_only s s'"
  shows "committed s' = committed s" "editing s' = editing s" "n_all s' = n_all s" "n_done s' = n_done s" "input_ok s' = input_ok s"
proof -
  have "ring s' = ring s" by (rule ext) (simp add: ring_eq out_only_fields [OF assms])
  then show 1: "committed s' = committed s" "editing s' = editing s" "n_all s' = n_all s" "n_done s' = n_done s"
    by (simp_all add: committed_def editing_def n_all_def n_done_def out_only_fields [OF assms])
  then show "input_ok s' = input_ok s" by (simp add: input_ok_def out_only_fields [OF assms])
qed

lemma e_w_same: "in_e s = in_w s \<longleftrightarrow> n_all s = n_done s"
proof
  assume "n_all s = n_done s"
  then have "in_r s + word_of_nat (n_all s) = in_r s + (word_of_nat (n_done s) :: u32)" by simp
  then show "in_e s = in_w s" by (simp only: in_e_eq [symmetric] in_w_eq [symmetric])
qed (simp add: n_all_def n_done_def)

text \<open>Taking back the last character.\<close>

lemma take_back:
  assumes "input_ok s" "in_e s \<noteq> in_w s"
  defines "s' \<equiv> s\<lparr>in_e := in_e s - 1\<rparr>"
  shows "committed s' = committed s" "editing s' = butlast (editing s)" "input_ok s'" "editing s = editing s' @ [in_byte s (in_e s - 1)]"
proof -
  have lt: "n_done s < n_all s" using assms by (auto simp: input_ok_def e_w_same)
  have "in_e s - 1 = in_r s + word_of_nat (n_all s) - 1" by (simp only: in_e_eq [symmetric])
  then have "in_e s - 1 = in_r s + word_of_nat (n_all s - 1)" using lt by (simp add: of_nat_diff)
  then have r: "in_byte s (in_e s - 1) = ring s (n_all s - 1)" by (simp add: ring_def)
  have "n_all s' = unat (in_e s - in_r s - 1)" by (simp add: s'_def n_all_def algebra_simps)
  also have "\<dots> = n_all s - 1" using lt unfolding n_all_def by (subst unat_minus_one) (auto simp: unat_gt_0)
  finally have n: "n_all s' = n_all s - 1" .
  have [simp]: "n_done s' = n_done s" "ring s' = ring s" by (auto simp: s'_def n_done_def ring_def in_byte_def)
  show "committed s' = committed s" by (simp add: committed_def)
  have "[n_done s..<n_all s] = [n_done s..<n_all s - 1] @ [n_all s - 1]"
    using lt upt_Suc_append [of "n_done s" "n_all s - 1"] by simp
  then show e: "editing s = editing s' @ [in_byte s (in_e s - 1)]" by (simp add: editing_def n r)
  then show "editing s' = butlast (editing s)" by simp
  show "input_ok s'" using assms(1) lt e by (auto simp: input_ok_def n) (auto simp: s'_def)
qed

text \<open>Adding a character, and handing the line over.\<close>

lemma add_char:
  fixes b :: u8
  assumes "input_ok s" "n_all s < INPUT_BUF"
  defines "s' \<equiv> s\<lparr>in_buf := (in_buf s)[unat (in_e s) mod INPUT_BUF := b], in_e := in_e s + 1\<rparr>"
  shows "committed s' = committed s" "editing s' = editing s @ [b]" "n_all s' = Suc (n_all s)" "n_done s' = n_done s"
    "length (in_buf s') = INPUT_BUF"
proof -
  have ok: "length (in_buf s) = 128" "n_done s \<le> n_all s" "n_all s < 128" using assms by (simp_all add: input_ok_def INPUT_BUF_def)
  have "n_all s' = unat (in_e s - in_r s + 1)" by (simp add: s'_def n_all_def algebra_simps)
  also have "\<dots> = Suc (n_all s)" using ok(3) unfolding n_all_def by (simp add: unat_word_ariths)
  finally show n: "n_all s' = Suc (n_all s)" .
  show [simp]: "n_done s' = n_done s" by (simp add: s'_def n_done_def)
  have old: "ring s' i = ring s i" if "i < n_all s" for i
  proof -
    have "(unat (in_r s) + n_all s) mod 128 \<noteq> (unat (in_r s) + i) mod 128"
      using that ok(3) by (subst mod_eq_dvd_iff_nat) (auto dest: dvd_imp_le)
    then show ?thesis by (simp add: ring_eq s'_def INPUT_BUF_def in_e_index)
  qed
  have new: "ring s' (n_all s) = b" using ok by (simp add: ring_eq s'_def INPUT_BUF_def in_e_index)
  show "committed s' = committed s" using ok old by (auto simp: committed_def)
  show "editing s' = editing s @ [b]" using ok old new by (auto simp: editing_def n)
  show "length (in_buf s') = INPUT_BUF" using ok by (simp add: s'_def INPUT_BUF_def)
qed

lemma hand_over:
  assumes "n_done s \<le> n_all s"
  defines "s' \<equiv> s\<lparr>in_w := in_e s, in_woken := Suc (in_woken s)\<rparr>"
  shows "committed s' = committed s @ editing s" "editing s' = []" "n_all s' = n_all s" "n_done s' = n_all s" "in_buf s' = in_buf s"
proof -
  show n: "n_all s' = n_all s" "n_done s' = n_all s" "in_buf s' = in_buf s" by (simp_all add: s'_def n_all_def n_done_def)
  have [simp]: "ring s' = ring s" by (auto simp: s'_def ring_def in_byte_def)
  show "editing s' = []" by (simp add: editing_def n)
  have "[0..<n_all s] = [0..<n_done s] @ [n_done s..<n_all s]" using assms(1) by (metis le0 upt_add_eq_append le_add_diff_inverse)
  then show "committed s' = committed s @ editing s" by (simp add: committed_def editing_def n)
qed
definition cons_ok :: "console \<Rightarrow> bool" where
  "cons_ok s \<longleftrightarrow> on_screen s \<and> panicked s = 0 \<and> input_ok s"

lemma cons_ok_out: "cons_ok s \<Longrightarrow> on_screen s' \<Longrightarrow> out_only s s' \<Longrightarrow> cons_ok s'"
  by (simp add: cons_ok_def out_only_input out_only_fields)

lemma on_screen_input [simp]:
  "on_screen (s\<lparr>in_e := x\<rparr>) = on_screen s" "on_screen (s\<lparr>in_buf := y\<rparr>) = on_screen s"
  "on_screen (s\<lparr>in_w := x, in_woken := k\<rparr>) = on_screen s" "on_screen (s\<lparr>rx_queue := q\<rparr>) = on_screen s"
  "on_screen (s\<lparr>cons_lock := l\<rparr>) = on_screen s"
  by (simp_all add: on_screen_def cga_pos_def)

text \<open>Fields the input routines leave alone.\<close>

definition same_dev :: "console \<Rightarrow> console \<Rightarrow> bool" where
  "same_dev s s' \<longleftrightarrow> rx_queue s' = rx_queue s \<and> kb_queue s' = kb_queue s \<and> has_uart s' = has_uart s \<and> cons_lock s' = cons_lock s"

lemma same_dev_out: "out_only s s' \<Longrightarrow> same_dev s s'"
  by (simp add: same_dev_def out_only_fields)

lemma erase_one:
  assumes "cons_ok s" "in_e s \<noteq> in_w s"
  obtains s' where "consputc BACKSPACE (s\<lparr>in_e := in_e s - 1\<rparr>) = Some s'" "cons_ok s'" "same_dev s s'"
    "committed s' = committed s" "editing s' = butlast (editing s)" "in_byte s (in_e s - 1) \<in> set (editing s)"
proof -
  let ?t = "s\<lparr>in_e := in_e s - 1\<rparr>"
  have ok: "input_ok s" "on_screen ?t" "panicked ?t = 0" using assms by (simp_all add: cons_ok_def)
  note tb = take_back [OF ok(1) assms(2)]
  from consputc_ok [OF ok(2,3)] obtain s' where s': "consputc BACKSPACE ?t = Some s'" "on_screen s'" "out_only ?t s'" by blast
  show ?thesis
  proof (rule that [OF s'(1)])
    have "cons_ok ?t" using ok tb(3) by (simp add: cons_ok_def)
    then show "cons_ok s'" using s'(2,3) by (rule cons_ok_out)
    show "same_dev s s'" using same_dev_out [OF s'(3)] by (simp add: same_dev_def)
    show "in_byte s (in_e s - 1) \<in> set (editing s)" by (subst tb(4)) simp
    show "committed s' = committed s" "editing s' = butlast (editing s)" using out_only_input [OF s'(3)] tb(1,2) by simp_all
  qed
qed

lemma kill_line_ok:
  assumes "cons_ok s"
  shows "\<exists>s'. kill_line s = Some s' \<and> cons_ok s' \<and> same_dev s s' \<and> committed s' = committed s \<and> editing s' = []"
  using assms
proof (induction "length (editing s)" arbitrary: s rule: less_induct)
  case less
  show ?case
  proof (cases "in_e s = in_w s")
    case True
    then have "editing s = []" by (simp add: e_w_same editing_def)
    with True less.prems show ?thesis by (subst kill_line.simps) (simp add: same_dev_def)
  next
    case False
    with less.prems obtain t where t: "consputc BACKSPACE (s\<lparr>in_e := in_e s - 1\<rparr>) = Some t" "cons_ok t" "same_dev s t"
      "committed t = committed s" "editing t = butlast (editing s)" "in_byte s (in_e s - 1) \<in> set (editing s)" by (rule erase_one)
    have "in_byte s (in_e s - 1) \<noteq> 10" using t(6) less.prems by (auto simp: cons_ok_def input_ok_def)
    then have "kill_line s = kill_line t" using False t(1) by (subst kill_line.simps) simp
    moreover have "length (editing t) < length (editing s)" using t(5,6) by (cases "editing s") (auto simp del: lengths)
    ultimately show ?thesis using less.hyps [of t] t by (auto simp: same_dev_def)
  qed
qed

lemma type_char:
  assumes "cons_ok s" "n_all s < INPUT_BUF" "b \<noteq> 10 \<or> commit"
    "commit \<longleftrightarrow> c = 10 \<or> c = 4 \<or> Suc (n_all s) = INPUT_BUF" "b = word_of_int c"
  shows "\<exists>t. consputc c (s\<lparr>in_buf := (in_buf s)[unat (in_e s) mod INPUT_BUF := b], in_e := in_e s + 1\<rparr>) = Some t \<and>
    (let s' = (if c = 10 \<or> c = 4 \<or> in_e t = in_r t + word_of_nat INPUT_BUF then t\<lparr>in_w := in_e t, in_woken := Suc (in_woken t)\<rparr> else t)
     in cons_ok s' \<and> same_dev s s' \<and>
        (committed s', editing s') = (if commit then (committed s @ editing s @ [b], []) else (committed s, editing s @ [b])))"
proof -
  let ?u = "s\<lparr>in_buf := (in_buf s)[unat (in_e s) mod INPUT_BUF := b], in_e := in_e s + 1\<rparr>"
  have ok: "input_ok s" "on_screen ?u" "panicked ?u = 0" using assms(1) by (simp_all add: cons_ok_def)
  note ac = add_char [OF ok(1) assms(2), of b]
  from consputc_ok [OF ok(2,3)] obtain t where t: "consputc c ?u = Some t" "on_screen t" "out_only ?u t" by blast
  note f = out_only_input [OF t(3)] out_only_fields [OF t(3)]
  have n: "n_all t = Suc (n_all s)" "n_done t = n_done s" "committed t = committed s" "editing t = editing s @ [b]"
    "length (in_buf t) = INPUT_BUF" using ac f by simp_all
  have "in_e t = in_r t + word_of_nat INPUT_BUF \<longleftrightarrow> n_all t = INPUT_BUF"
  proof
    assume "in_e t = in_r t + word_of_nat INPUT_BUF"
    then show "n_all t = INPUT_BUF" by (simp add: n_all_def INPUT_BUF_def)
  next
    assume "n_all t = INPUT_BUF"
    then show "in_e t = in_r t + word_of_nat INPUT_BUF" using in_e_eq [of t] by simp
  qed
  then have c: "(c = 10 \<or> c = 4 \<or> in_e t = in_r t + word_of_nat INPUT_BUF) = commit" using assms(4) n by simp
  have le: "n_done t \<le> n_all t" "n_all t \<le> INPUT_BUF" using ok(1) assms(2) n by (simp_all add: input_ok_def)
  have dev: "same_dev s t" using same_dev_out [OF t(3)] by (simp add: same_dev_def)
  show ?thesis
  proof (cases commit)
    case True
    note ho = hand_over [OF le(1)]
    from True t n c dev ho le ok f show ?thesis
      by (intro exI [of _ t]) (simp add: Let_def cons_ok_def input_ok_def same_dev_def)
  next
    case False
    then have "b \<noteq> 10" using assms(3) by simp
    then have "input_ok t" using ok(1) n le by (simp add: input_ok_def)
    with False t n c dev f ok show ?thesis by (intro exI [of _ t]) (simp add: Let_def cons_ok_def)
  qed
qed

lemma byte_newline:
  assumes "0 \<le> c" "c < 256" "(word_of_int c :: u8) = 10"
  shows "c = 10"
proof -
  have "uint (word_of_int c :: u8) = c" using assms(1,2) by (simp add: uint_word_of_int)
  then show ?thesis using assms(3) by simp
qed

lemma cons_char_ok:
  assumes "cons_ok s" "0 \<le> c" "c < 256"
  shows "\<exists>s'. cons_char c s = Some s' \<and> cons_ok s' \<and> same_dev s s' \<and>
    (committed s', editing s') = line_step c (committed s, editing s)"
proof -
  have le: "n_done s \<le> n_all s" using assms by (simp add: cons_ok_def input_ok_def)
  have room: "in_e s - in_r s < word_of_nat INPUT_BUF \<longleftrightarrow> n_all s < INPUT_BUF"
    by (simp add: n_all_def INPUT_BUF_def word_less_nat_alt)
  consider "c = 16" | "c = 21" | "c = 8 \<or> c = 127" | "c \<noteq> 16" "c \<noteq> 21" "\<not> (c = 8 \<or> c = 127)" by blast
  then show ?thesis
  proof cases
    case 1 then show ?thesis using assms by (simp add: cons_char_def line_step_def same_dev_def)
  next
    case 2 then show ?thesis using kill_line_ok [OF assms(1)] by (simp add: cons_char_def line_step_def)
  next
    case 3
    show ?thesis
    proof (cases "in_e s = in_w s")
      case True
      then have "editing s = []" by (simp add: e_w_same editing_def)
      with True 3 assms show ?thesis by (auto simp: cons_char_def line_step_def same_dev_def)
    next
      case False
      with assms(1) obtain t where "consputc BACKSPACE (s\<lparr>in_e := in_e s - 1\<rparr>) = Some t" "cons_ok t" "same_dev s t"
        "committed t = committed s" "editing t = butlast (editing s)" by (rule erase_one)
      with 3 False show ?thesis by (auto simp: cons_char_def line_step_def)
    qed
  next
    case 4
    show ?thesis
    proof (cases "c \<noteq> 0 \<and> n_all s < INPUT_BUF")
      case False
      with 4 assms le room show ?thesis by (auto simp: cons_char_def line_step_def same_dev_def)
    next
      case True
      let ?c = "if c = 13 then 10 else c"
      let ?commit = "?c = 10 \<or> ?c = 4 \<or> Suc (n_all s) = INPUT_BUF"
      have "(word_of_int ?c :: u8) \<noteq> 10 \<or> ?commit"
        using byte_newline [of ?c] assms by auto
      from type_char [OF assms(1) conjunct2 [OF True] this refl refl]
      show ?thesis using 4 True le room by (auto simp: cons_char_def line_step_def Let_def)
    qed
  qed
qed
text \<open>The loop of the interrupt handler runs until the device is empty.\<close>

lemma consoleintr_loop_uart:
  assumes "cons_ok s" "has_uart s"
  shows "\<exists>d s'. consoleintr_loop uartgetc dump s = Some (d, s') \<and> cons_ok s' \<and> rx_queue s' = [] \<and> cons_lock s' = cons_lock s \<and>
    (committed s', editing s') = fold line_step (map uint (rx_queue s)) (committed s, editing s)"
  using assms
proof (induction "rx_queue s" arbitrary: s dump)
  case Nil
  then show ?case by (subst consoleintr_loop.simps) (simp add: uartgetc_def Let_def)
next
  case (Cons c q)
  let ?t = "s\<lparr>rx_queue := q\<rparr>"
  have g: "uartgetc s = (uint c, ?t)" using Cons by (auto simp: uartgetc_def split: list.split)
  have same: "committed ?t = committed s" "editing ?t = editing s" "input_ok ?t = input_ok s"
    by (auto simp: committed_def editing_def input_ok_def n_all_def n_done_def ring_def in_byte_def)
  have "cons_ok ?t" using Cons.prems same by (simp add: cons_ok_def)
  moreover have "uint c < 256" using uint_lt2p [of c] by simp
  ultimately obtain u where u: "cons_char (uint c) ?t = Some u" "cons_ok u" "same_dev ?t u"
    "(committed u, editing u) = line_step (uint c) (committed s, editing s)"
    using cons_char_ok [of ?t "uint c"] same by auto
  have q: "rx_queue u = q" "has_uart u" "cons_lock u = cons_lock s" using u(3) Cons.prems by (simp_all add: same_dev_def)
  have step: "consoleintr_loop uartgetc dump s = consoleintr_loop uartgetc (dump \<or> uint c = 16) u"
    by (subst consoleintr_loop.simps) (simp add: g u(1) Let_def)
  from Cons.hyps(1) [of u "dump \<or> uint c = 16"] q u(2) obtain d s' where "consoleintr_loop uartgetc (dump \<or> uint c = 16) u = Some (d, s')"
    "cons_ok s'" "rx_queue s' = []" "cons_lock s' = cons_lock s"
    "(committed s', editing s') = fold line_step (map uint q) (committed u, editing u)" by auto
  then show ?case using step u(4) Cons.hyps(2) [symmetric] by auto
qed

text \<open>
  C11. The serial interrupt hands every received byte to the line discipline: from any well-formed state it returns with the queue of the device empty,
  and the finished lines and the line being typed are what the received bytes make of them (erase, kill, end of line, end of file, full buffer).
\<close>

theorem line_discipline:
  assumes "input_ok s" "cga_pos s < 24 * 80" "panicked s = 0" "lk_free (cons_lock s)" "has_uart s"
  shows "\<exists>d s'. uartintr s = Some (d, s') \<and> input_ok s' \<and> rx_queue s' = [] \<and> lk_free (cons_lock s') \<and>
    (committed s', editing s') = fold line_step (map uint (rx_queue s)) (committed s, editing s)"
proof -
  let ?t = "s\<lparr>cons_lock := (cons_lock s)\<lparr>locked := 1, lkcpu := mycpu\<rparr>\<rparr>"
  have same: "committed (x\<lparr>cons_lock := l\<rparr>) = committed x" "editing (x\<lparr>cons_lock := l\<rparr>) = editing x"
    "input_ok (x\<lparr>cons_lock := l\<rparr>) = input_ok x" for x l
    by (auto simp: committed_def editing_def input_ok_def n_all_def n_done_def ring_def in_byte_def)
  have "cons_ok ?t" "has_uart ?t" using assms same by (simp_all add: cons_ok_def, simp add: on_screen_def)
  from consoleintr_loop_uart [OF this, of False] obtain d u where u: "consoleintr_loop uartgetc False ?t = Some (d, u)"
    "cons_ok u" "rx_queue u = []" "cons_lock u = (cons_lock s)\<lparr>locked := 1, lkcpu := mycpu\<rparr>"
    "(committed u, editing u) = fold line_step (map uint (rx_queue s)) (committed s, editing s)" using same by auto
  then show ?thesis using assms(4)
    by (auto simp: uartintr_def consoleintr_def acquire_cons_def release_cons_def same cons_ok_def)
qed

theorem line_discipline_witness:
  "\<exists>d s'. uartintr (con_demo\<lparr>rx_queue := [108, 115, 127, 115, 13, 97]\<rparr>) = Some (d, s') \<and> committed s' = [108, 115, 10] \<and> editing s' = [97]"
proof -
  let ?s = "con_demo\<lparr>rx_queue := [108, 115, 127, 115, 13, 97]\<rparr>"
  have e: "committed ?s = []" "editing ?s = []" by (simp_all add: committed_def editing_def n_done_def n_all_def con_demo_def)
  have "\<exists>d s'. uartintr ?s = Some (d, s') \<and> input_ok s' \<and> rx_queue s' = [] \<and> lk_free (cons_lock s') \<and>
    (committed s', editing s') = fold line_step (map uint (rx_queue ?s)) (committed ?s, editing ?s)"
    by (rule line_discipline)
      (simp_all only: input_ok_def e, simp_all add: n_done_def n_all_def con_demo_def cga_pos_def initlock_free)
  then show ?thesis by (auto simp: e line_step_def INPUT_BUF_def)
qed
section \<open>Printed numbers\<close>

text \<open>The number a decimal numeral stands for.\<close>

definition digit_val :: "u8 \<Rightarrow> nat" where "digit_val c = unat c - 48"

fun num_rev :: "u8 list \<Rightarrow> nat" where
  "num_rev [] = 0"
| "num_rev (c # cs) = digit_val c + 10 * num_rev cs"

definition read_decimal :: "u8 list \<Rightarrow> int" where
  "read_decimal s = (case s of
      c # cs \<Rightarrow> if c = 45 then - int (num_rev (rev cs)) else int (num_rev (rev s))
    | [] \<Rightarrow> 0)"

lemma digit_char: "d < 10 \<Longrightarrow> digit d = word_of_nat (48 + d)"
proof -
  have "\<forall>d \<in> set [0..<10]. digit d = word_of_nat (48 + d)" by (simp add: digit_def chars_def upt_rec)
  then show "d < 10 \<Longrightarrow> digit d = word_of_nat (48 + d)" by (simp add: set_upt)
qed

lemma digit_val_digit: "d < 10 \<Longrightarrow> digit_val (digit d) = d"
  by (simp add: digit_char digit_val_def unat_word_ariths unat_of_nat)

lemma digit_not_minus: "d < 10 \<Longrightarrow> digit d \<noteq> 45"
proof
  assume d: "d < 10" "digit d = 45"
  have "unat (digit d) = 48 + d" using d(1) by (simp add: digit_char [OF d(1)] unat_of_nat del: of_nat_add)
  then show False by (simp add: d(2))
qed

lemma num_rev_digits: "num_rev (digits_rev 10 x) = x"
proof (induction x rule: less_induct)
  case (less x)
  show ?case
  proof (cases "x div 10 = 0")
    case True
    then show ?thesis by (subst digits_rev.simps) (simp add: digit_val_digit)
  next
    case False
    then have "x div 10 < x" by (simp add: div_eq_0_iff)
    from less [OF this] False show ?thesis by (subst digits_rev.simps) (simp add: digit_val_digit)
  qed
qed

lemma digits_rev_plain: "45 \<notin> set (digits_rev 10 x) \<and> digits_rev 10 x \<noteq> []"
proof (induction x rule: less_induct)
  case (less x)
  then show ?case
    by (subst (1 2) digits_rev.simps) (auto simp: digit_not_minus [of "x mod 10", symmetric] div_eq_0_iff)
qed

lemma read_decimal_rev:
  "read_decimal (rev (digits_rev 10 x @ (if neg then [45] else []))) = (if neg then - int x else int x)"
proof (cases neg)
  case True then show ?thesis by (simp add: read_decimal_def num_rev_digits)
next
  case False
  obtain c cs where cs: "rev (digits_rev 10 x) = c # cs" using digits_rev_plain [of x] by (cases "rev (digits_rev 10 x)") auto
  then have "c \<in> set (digits_rev 10 x)" by (metis list.set_intros(1) set_rev)
  then have "c \<noteq> 45" using digits_rev_plain [of x] by auto
  then have "read_decimal (rev (digits_rev 10 x)) = int (num_rev (rev (rev (digits_rev 10 x))))" by (simp add: read_decimal_def cs del: rev_rev_ident)
  then show ?thesis using False by (simp add: num_rev_digits)
qed

lemma length_digits_rev: "x < 10 ^ Suc k \<Longrightarrow> length (digits_rev 10 x) \<le> Suc k"
proof (induction k arbitrary: x)
  case 0
  then show ?case by (subst digits_rev.simps) simp
next
  case (Suc k)
  then have "x div 10 < 10 ^ Suc k" by (simp add: div_less_iff_less_mult)
  from Suc.IH [OF this] show ?case by (subst digits_rev.simps) simp
qed

text \<open>
  C31. A number printed with \<open>%d\<close> and read back is the number, for every \<open>int\<close>; the smallest one, whose negation overflows,
  is printed right as well, and the numeral fits the buffer of 16 bytes.
\<close>

theorem printint_decimal:
  assumes "- (2 ^ 31) \<le> i" "i < 2 ^ 31"
  shows "read_decimal (printint i 10 True) = i \<and> length (printint i 10 True) \<le> 16"
proof -
  let ?x = "unat (word_of_int (if i < 0 then - i else i) :: u32)"
  have "take_bit 32 (if i < 0 then - i else i) = (if i < 0 then - i else i)"
    using assms by (intro take_bit_int_eq_self) auto
  then have x: "?x = nat (if i < 0 then - i else i)" by (simp add: unsigned_of_int)
  then have "?x < 10 ^ Suc 9" using assms by auto
  then have "length (digits_rev 10 ?x) \<le> Suc 9" by (rule length_digits_rev)
  then have "length (printint i 10 True) \<le> 16" by (auto simp: printint_def Let_def)
  moreover have "read_decimal (printint i 10 True) = i"
  proof -
    have "printint i 10 True = rev (digits_rev 10 (nat (if i < 0 then - i else i)) @ (if i < 0 then [45] else []))"
      by (simp only: printint_def Let_def x simp_thms)
    then show ?thesis by (simp only: read_decimal_rev) simp
  qed
  ultimately show ?thesis by simp
qed

theorem printint_decimal_witness:
  "read_decimal (printint (- 2147483648) 10 True) = - 2147483648 \<and> length (printint (- 2147483648) 10 True) \<le> 16"
  by (rule printint_decimal) simp_all

section \<open>Letters\<close>

text \<open>The scan codes of the keys A to Z.\<close>

definition letter_codes :: "nat list" where
  "letter_codes = [0x1E, 0x30, 0x2E, 0x20, 0x12, 0x21, 0x22, 0x23, 0x17, 0x24, 0x25, 0x26, 0x32, 0x31, 0x18, 0x19, 0x10, 0x13, 0x1F,
     0x14, 0x16, 0x2F, 0x11, 0x2D, 0x15, 0x2C]"

lemma letters_table:
  "\<forall>k \<in> set [0..<26]. normalmap ! (letter_codes ! k) = 97 + word_of_nat k \<and> shiftmap ! (letter_codes ! k) = 65 + word_of_nat k \<and>
     shiftcode ! (letter_codes ! k) = 0 \<and> togglecode ! (letter_codes ! k) = 0 \<and> letter_codes ! k < 0x80 \<and>
     (word_of_nat (letter_codes ! k) :: u8) AND 0x80 = 0"
  by (simp add: letter_codes_def upt_rec normalmap_def shiftmap_def shiftcode_def togglecode_def table256_def keypad_def special_keys_def chars_def)

text \<open>
  C40. The key of a letter, pressed without Control, gives the capital letter exactly when one of Shift and Caps Lock is on,
  the small letter otherwise, and leaves the shift state as it was.
\<close>

theorem kbd_letter_case:
  assumes "kb_queue s = word_of_nat (letter_codes ! k) # q" "k < 26" "kb_shift s AND (CTL OR E0ESC) = 0"
  shows "kbdgetc s = ((if (kb_shift s AND SHIFT \<noteq> 0) \<noteq> (kb_shift s AND CAPSLOCK \<noteq> 0) then 65 else 97) + int k, s\<lparr>kb_queue := q\<rparr>)"
proof -
  let ?n = "letter_codes ! k" and ?sh = "kb_shift s"
  have t: "normalmap ! ?n = 97 + word_of_nat k" "shiftmap ! ?n = 65 + word_of_nat k" "shiftcode ! ?n = 0" "togglecode ! ?n = 0" "?n < 0x80"
    "(word_of_nat ?n :: u8) AND 0x80 = 0"
    using bspec [OF letters_table, of k] assms(2) by auto
  have n: "unat (word_of_nat ?n :: u8) = ?n" using t(5) by (simp add: unat_of_nat)
  have "?sh AND CTL OR ?sh AND E0ESC = 0" using assms(3) by (simp add: bit.conj_disj_distrib)
  then have e: "?sh AND E0ESC = 0" "?sh AND CTL = 0" by (simp_all add: or_eq_0_iff)
  then have idx: "?sh AND (CTL OR SHIFT) = ?sh AND SHIFT" by (simp add: bit.conj_disj_distrib)
  have sh: "?sh AND SHIFT = 0 \<or> ?sh AND SHIFT = 1" by (simp add: SHIFT_def and_one_eq mod_2_eq_odd)
  have ne: "(word_of_nat ?n :: u8) \<noteq> 0xE0" using n t(5) by auto
  have c: "uint (97 + word_of_nat k :: u8) = 97 + int k" "uint (65 + word_of_nat k :: u8) = 65 + int k"
    using assms(2) by (simp_all add: uint_nat unat_word_ariths unat_of_nat)
  show ?thesis using sh assms(2)
    by (auto simp: kbdgetc_def assms(1) kbd_code_def Let_def n t e idx ne charcode_def c)
qed

theorem kbd_letter_case_witness:
  "letter_codes ! 7 = 0x23 \<and> kbdgetc (con_demo\<lparr>kb_queue := [0x23], kb_shift := CAPSLOCK\<rparr>) = (72, con_demo\<lparr>kb_queue := [], kb_shift := CAPSLOCK\<rparr>)"
proof -
  let ?s = "con_demo\<lparr>kb_queue := [0x23], kb_shift := CAPSLOCK\<rparr>"
  have "kbdgetc ?s = ((if (kb_shift ?s AND SHIFT \<noteq> 0) \<noteq> (kb_shift ?s AND CAPSLOCK \<noteq> 0) then 65 else 97) + int 7, ?s\<lparr>kb_queue := []\<rparr>)"
    by (rule kbd_letter_case) (simp_all add: letter_codes_def CAPSLOCK_def CTL_def E0ESC_def)
  then show ?thesis by (simp add: letter_codes_def CAPSLOCK_def SHIFT_def)
qed

end
