(* ===== verification/Xk_Trap.thy ===== *)
theory Xk_Trap
  imports Xk_Syscall Xk_Console
begin

text \<open>
  Traps: the entry stubs of \<open>kernel/vectors.S\<close>, the saving and restoring of registers in \<open>kernel/trapasm.S\<close> and \<open>kernel/swtch.S\<close>, the
  interrupt descriptor table and the handler \<open>trap\<close> of \<open>kernel/trap.c\<close>. A stack is the list of its 64-bit words, the top first. What \<open>trap\<close>
  does ends in a return to the interrupted code, in a system call that waits, in \<open>yield\<close>, or in \<open>exit\<close>.
\<close>

section \<open>Entry and return (kernel/vectors.S, kernel/trapasm.S)\<close>

record regs =
  rg_rax :: u64
  rg_rbx :: u64
  rg_rcx :: u64
  rg_rdx :: u64
  rg_rbp :: u64
  rg_rsi :: u64
  rg_rdi :: u64
  rg_r8 :: u64
  rg_r9 :: u64
  rg_r10 :: u64
  rg_r11 :: u64
  rg_r12 :: u64
  rg_r13 :: u64
  rg_r14 :: u64
  rg_r15 :: u64
  rg_rip :: u64
  rg_cs :: u64
  rg_rflags :: u64
  rg_rsp :: u64
  rg_ss :: u64

definition push :: "u64 \<Rightarrow> u64 list \<Rightarrow> u64 list" where "push x stk = x # stk"

text \<open>
  The exceptions for which the processor pushes an error code itself, by the manuals of the architecture: \<open>#DF\<close> (8), \<open>#TS\<close>, \<open>#NP\<close>,
  \<open>#SS\<close>, \<open>#GP\<close>, \<open>#PF\<close> (10 to 14), \<open>#AC\<close> (17), \<open>#CP\<close> (21), \<open>#VC\<close> (29) and \<open>#SX\<close> (30).
\<close>

definition has_err :: "nat \<Rightarrow> bool" where "has_err n \<longleftrightarrow> n \<in> {8, 10, 11, 12, 13, 14, 17, 21, 29, 30}"

text \<open>What the processor pushes on the kernel stack before it enters the stub.\<close>

definition hw_trap :: "nat \<Rightarrow> u64 \<Rightarrow> regs \<Rightarrow> u64 list" where
  "hw_trap n err r =
     (let stk = push (rg_rip r) (push (rg_cs r) (push (rg_rflags r) (push (rg_rsp r) (push (rg_ss r) []))))
      in if has_err n then push err stk else stk)"

text \<open>The stub \<open>vector\<close>n: the stubs 8, 10 to 14 and 17 push only the number.\<close>

definition vector :: "nat \<Rightarrow> u64 list \<Rightarrow> u64 list" where
  "vector n stk =
     (if n = 8 \<or> n = 10 \<or> n = 11 \<or> n = 12 \<or> n = 13 \<or> n = 14 \<or> n = 17 then push (word_of_nat n) stk
      else push (word_of_nat n) (push 0 stk))"

definition alltraps :: "regs \<Rightarrow> u64 list \<Rightarrow> u64 list" where
  "alltraps r stk =
     (let stk = push (rg_r15 r) stk;
          stk = push (rg_r14 r) stk;
          stk = push (rg_r13 r) stk;
          stk = push (rg_r12 r) stk;
          stk = push (rg_r11 r) stk;
          stk = push (rg_r10 r) stk;
          stk = push (rg_r9 r) stk;
          stk = push (rg_r8 r) stk;
          stk = push (rg_rdi r) stk;
          stk = push (rg_rsi r) stk;
          stk = push (rg_rbp r) stk;
          stk = push (rg_rdx r) stk;
          stk = push (rg_rcx r) stk;
          stk = push (rg_rbx r) stk
      in push (rg_rax r) stk)"

text \<open>The stack pointer is handed to \<open>trap\<close> as a \<open>struct trap_frame *\<close>: the words of the struct in the order of \<open>inc/trap.h\<close>.\<close>

definition frame_words :: "u64 list \<Rightarrow> trap_frame" where
  "frame_words w = \<lparr>tf_rax = w ! 0, tf_rbx = w ! 1, tf_rcx = w ! 2, tf_rdx = w ! 3, tf_rbp = w ! 4, tf_rsi = w ! 5, tf_rdi = w ! 6,
     tf_r8 = w ! 7, tf_r9 = w ! 8, tf_r10 = w ! 9, tf_r11 = w ! 10, tf_r12 = w ! 11, tf_r13 = w ! 12, tf_r14 = w ! 13, tf_r15 = w ! 14,
     tf_trapno = w ! 15, tf_err = w ! 16, tf_rip = w ! 17, tf_cs = w ! 18, tf_rflags = w ! 19, tf_rsp = w ! 20, tf_ss = w ! 21\<rparr>"

text \<open>\<open>trapret\<close>: the pops, \<open>add $16, %rsp\<close> and \<open>iretq\<close>.\<close>

fun trapret :: "u64 list \<Rightarrow> regs option" where
  "trapret (rax # rbx # rcx # rdx # rbp # rsi # rdi # r8 # r9 # r10 # r11 # r12 # r13 # r14 # r15 # _ # _ #
      rip # cs # rflags # rsp # ss # _) =
     Some \<lparr>rg_rax = rax, rg_rbx = rbx, rg_rcx = rcx, rg_rdx = rdx, rg_rbp = rbp, rg_rsi = rsi, rg_rdi = rdi, rg_r8 = r8, rg_r9 = r9,
       rg_r10 = r10, rg_r11 = r11, rg_r12 = r12, rg_r13 = r13, rg_r14 = r14, rg_r15 = r15, rg_rip = rip, rg_cs = cs,
       rg_rflags = rflags, rg_rsp = rsp, rg_ss = ss\<rparr>"
| "trapret _ = None"

text \<open>
  \<open>swtch\<close>: the return address is on the stack already; the saved registers form a \<open>struct context\<close>, and those of the other context are
  popped with its return address.
\<close>

definition swtch_save :: "regs \<Rightarrow> u64 list \<Rightarrow> u64 list" where
  "swtch_save r stk =
     (let stk = push (rg_rbp r) stk;
          stk = push (rg_rbx r) stk;
          stk = push (rg_r11 r) stk;
          stk = push (rg_r12 r) stk;
          stk = push (rg_r13 r) stk;
          stk = push (rg_r14 r) stk
      in push (rg_r15 r) stk)"

definition ctx_words :: "u64 list \<Rightarrow> ctx" where
  "ctx_words w = \<lparr>c_r15 = w ! 0, c_r14 = w ! 1, c_r13 = w ! 2, c_r12 = w ! 3, c_r11 = w ! 4, c_rbx = w ! 5, c_rbp = w ! 6, c_rip = w ! 7\<rparr>"

definition swtch_load :: "ctx \<Rightarrow> regs \<Rightarrow> regs" where
  "swtch_load c r = r\<lparr>rg_r15 := c_r15 c, rg_r14 := c_r14 c, rg_r13 := c_r13 c, rg_r12 := c_r12 c, rg_r11 := c_r11 c,
     rg_rbx := c_rbx c, rg_rbp := c_rbp c, rg_rip := c_rip c\<rparr>"

section \<open>Interrupt descriptors (inc/segment.h, kernel/trap.c)\<close>

record gate_desc =
  off_15_0 :: u16
  g_sel :: u16
  g_ist :: nat
  g_rsv1 :: nat
  g_type :: nat
  g_s :: nat
  g_dpl :: nat
  g_p :: nat
  off_31_16 :: u16
  off_63_32 :: u32
  g_rsv2 :: u32

definition STS_IG64 :: nat where "STS_IG64 = 0xe"
definition STS_TG64 :: nat where "STS_TG64 = 0xf"
definition KERNEL_PL :: nat where "KERNEL_PL = 0"
definition USER_PL :: nat where "USER_PL = 3"
definition SEG_KCODE :: u16 where "SEG_KCODE = 1"

definition set_gate_desc :: "bool \<Rightarrow> u16 \<Rightarrow> u64 \<Rightarrow> nat \<Rightarrow> gate_desc" where
  "set_gate_desc istrap sel off dpl =
     \<lparr>off_15_0 = ucast off, g_sel = sel, g_ist = 0, g_rsv1 = 0, g_type = (if istrap then STS_TG64 else STS_IG64), g_s = 0,
      g_dpl = dpl, g_p = 1, off_31_16 = ucast (drop_bit 16 off), off_63_32 = ucast (drop_bit 32 off), g_rsv2 = 0\<rparr>"

definition TRAP_PF :: nat where "TRAP_PF = 14"
definition TRAP_IRQ0 :: nat where "TRAP_IRQ0 = 32"
definition TRAP_SYSCALL :: nat where "TRAP_SYSCALL = 64"
definition IRQ_TIMER :: nat where "IRQ_TIMER = 0"
definition IRQ_KBD :: nat where "IRQ_KBD = 1"
definition IRQ_COM1 :: nat where "IRQ_COM1 = 4"
definition IRQ_IDE :: nat where "IRQ_IDE = 14"
definition IRQ_SPURIOUS :: nat where "IRQ_SPURIOUS = 31"

text \<open>The computer: the kernel, its console, the table, the number of acknowledged interrupts; \<open>sym_input\<close> is the address of \<open>input.r\<close>.\<close>

record computer =
  cm :: machine
  con :: console
  idt :: "gate_desc list"
  eois :: nat
  sym_input :: u64

text \<open>\<open>vectors\<close> is the table of the addresses of the stubs.\<close>

definition tvinit :: "(nat \<Rightarrow> u64) \<Rightarrow> computer \<Rightarrow> computer" where
  "tvinit vectors s =
     (let gates = map (\<lambda>i. set_gate_desc False (push_bit 3 SEG_KCODE) (vectors i) KERNEL_PL) [0..<256];
          gates = gates[TRAP_SYSCALL := set_gate_desc True (push_bit 3 SEG_KCODE) (vectors TRAP_SYSCALL) USER_PL]
      in s\<lparr>idt := gates, cm := (cm s)\<lparr>tickslock := initlock ''time'', fault_lock := initlock ''kmem_3'', fault_locking := True\<rparr>\<rparr>)"

section \<open>The handler (kernel/trap.c)\<close>

datatype trap_out = TReturn | TBlock pending | TYield | TExit

definition on_k :: "(kern \<Rightarrow> kern option) \<Rightarrow> computer \<Rightarrow> computer option" where
  "on_k f s = do { k \<leftarrow> f (mk (cm s)); Some (s\<lparr>cm := (cm s)\<lparr>mk := k\<rparr>\<rparr>) }"

definition do_exit :: "computer \<Rightarrow> (trap_out \<times> computer) option" where
  "do_exit s = do { s \<leftarrow> on_k exit_out s; Some (TExit, s) }"

definition my_killed :: "computer \<Rightarrow> bool" where
  "my_killed s = (case curproc (mk (cm s)) of None \<Rightarrow> False | Some me \<Rightarrow> p_killed (mypr me (cm s)) \<noteq> 0)"

definition trap_syscall :: "devsw \<Rightarrow> u8 list \<Rightarrow> u8 list \<Rightarrow> trap_frame \<Rightarrow> computer \<Rightarrow> (trap_out \<times> computer) option" where
  "trap_syscall dv behind junk tf s = do {
     me \<leftarrow> curproc (mk (cm s));
     (if my_killed s then do_exit s
      else do {
        (r, m) \<leftarrow> syscall dv behind junk (upd_tf me (\<lambda>_. tf) (cm s));
        let s = s\<lparr>cm := m\<rparr>;
        (case r of
           SysRet _ \<Rightarrow> if my_killed s then do_exit s else Some (TReturn, s)
         | SysBlock p \<Rightarrow> Some (TBlock p, s)
         | SysExit \<Rightarrow> Some (TExit, s)) }) }"

definition lapiceoi :: "computer \<Rightarrow> computer" where "lapiceoi s = s\<lparr>eois := Suc (eois s)\<rparr>"

definition timer_tick :: "machine \<Rightarrow> machine option" where
  "timer_tick m = do {
     m \<leftarrow> acquire_ticks m;
     let m = m\<lparr>ticks := ticks m + 1\<rparr>;
     k \<leftarrow> wakeup (AddrChan (sym_ticks m)) (mk m);
     release_ticks (m\<lparr>mk := k\<rparr>) }"

primrec wake_n :: "nat \<Rightarrow> wchan \<Rightarrow> kern \<Rightarrow> kern option" where
  "wake_n 0 ch k = Some k"
| "wake_n (Suc n) ch k = do { k \<leftarrow> wakeup ch k; wake_n n ch k }"

text \<open>An interrupt of the keyboard or the serial port, with the calls of \<open>wakeup(&input.r)\<close> it makes.\<close>

definition cons_irq :: "(console \<Rightarrow> (bool \<times> console) option) \<Rightarrow> computer \<Rightarrow> computer option" where
  "cons_irq f s = do {
     (_, c) \<leftarrow> f (con s);
     on_k (wake_n (in_woken c - in_woken (con s)) (AddrChan (sym_input s))) (s\<lparr>con := c\<rparr>) }"

text \<open>\<open>ideintr\<close> of \<open>kernel/memide.c\<close>.\<close>

definition ideintr :: "computer \<Rightarrow> computer" where "ideintr s = s"

definition trap_print :: "u8 list \<Rightarrow> farg list \<Rightarrow> computer \<Rightarrow> computer option" where
  "trap_print fmt as s = do { c \<leftarrow> cprintf fmt as (con s); Some (s\<lparr>con := c\<rparr>) }"

text \<open>A trap nobody handles: in the kernel it panics, a user process is marked to be killed.\<close>

definition trap_kill :: "trap_frame \<Rightarrow> u64 \<Rightarrow> computer \<Rightarrow> computer option" where
  "trap_kill tf addr s = (case curproc (mk (cm s)) of
      None \<Rightarrow> None
    | Some me \<Rightarrow>
        if tf_cs tf AND 3 = 0 then None
        else do {
          let p = mypr me (cm s);
          s \<leftarrow> trap_print (chars ''pid %d %s: trap %d err %d on cpu %d rip 0x%lx addr 0x%x--kill proc'' @ [10])
                 [FInt (p_pid p), FStr (Some (chars (p_name p))), FInt (c_int (uint (tf_trapno tf))), FInt (c_int (uint (tf_err tf))),
                  FInt 0, FInt (uint (tf_rip tf)), FInt (c_int (uint addr))] s;
          on_k (\<lambda>k. Some (upd_proc me (p_killed_update (\<lambda>_. 1)) k)) s })"

definition trap_default :: "trap_frame \<Rightarrow> u64 \<Rightarrow> computer \<Rightarrow> computer option" where
  "trap_default tf addr s =
     (if unat (tf_trapno tf) = TRAP_PF then do {
        (done, m) \<leftarrow> page_fault addr (cm s);
        (if done then Some (s\<lparr>cm := m\<rparr>) else trap_kill tf addr (s\<lparr>cm := m\<rparr>)) }
      else trap_kill tf addr s)"

definition trap_dispatch :: "trap_frame \<Rightarrow> u64 \<Rightarrow> computer \<Rightarrow> computer option" where
  "trap_dispatch tf addr s =
     (let no = unat (tf_trapno tf) in
      if no = TRAP_IRQ0 + IRQ_TIMER then do { m \<leftarrow> timer_tick (cm s); Some (lapiceoi (s\<lparr>cm := m\<rparr>)) }
      else if no = TRAP_IRQ0 + IRQ_IDE then Some (lapiceoi (ideintr s))
      else if no = TRAP_IRQ0 + IRQ_IDE + 1 then Some s
      else if no = TRAP_IRQ0 + IRQ_KBD then do { s \<leftarrow> cons_irq kbdintr s; Some (lapiceoi s) }
      else if no = TRAP_IRQ0 + IRQ_COM1 then do { s \<leftarrow> cons_irq uartintr s; Some (lapiceoi s) }
      else if no = TRAP_IRQ0 + 7 \<or> no = TRAP_IRQ0 + IRQ_SPURIOUS then do {
        s \<leftarrow> trap_print (chars ''cpu%d: spurious interrupt at %x:%x'' @ [10])
               [FInt 0, FInt (c_int (uint (tf_cs tf))), FInt (c_int (uint (tf_rip tf)))] s;
        Some (lapiceoi s) }
      else trap_default tf addr s)"

definition from_user :: "trap_frame \<Rightarrow> bool" where "from_user tf \<longleftrightarrow> tf_cs tf AND 3 = DPL_USER"

text \<open>The end of \<open>trap\<close>: up to \<open>yield\<close>, and after it when the process runs again.\<close>

definition trap_end :: "trap_frame \<Rightarrow> computer \<Rightarrow> (trap_out \<times> computer) option" where
  "trap_end tf s =
     (if my_killed s \<and> from_user tf then do_exit s
      else case curproc (mk (cm s)) of
        None \<Rightarrow> Some (TReturn, s)
      | Some me \<Rightarrow>
          if p_state (mypr me (cm s)) = RUNNING \<and> unat (tf_trapno tf) = TRAP_IRQ0 + IRQ_TIMER
          then do { s \<leftarrow> on_k yield_out s; Some (TYield, s) }
          else Some (TReturn, s))"

definition trap_resumed :: "trap_frame \<Rightarrow> computer \<Rightarrow> (trap_out \<times> computer) option" where
  "trap_resumed tf s = do {
     s \<leftarrow> on_k yield_in s;
     (if my_killed s \<and> from_user tf then do_exit s else Some (TReturn, s)) }"

text \<open>\<open>trap\<close>; \<open>cr2\<close> is the faulting address.\<close>

definition trap :: "devsw \<Rightarrow> u8 list \<Rightarrow> u8 list \<Rightarrow> u64 \<Rightarrow> trap_frame \<Rightarrow> computer \<Rightarrow> (trap_out \<times> computer) option" where
  "trap dv behind junk cr2 tf s =
     (if unat (tf_trapno tf) = TRAP_SYSCALL then trap_syscall dv behind junk tf s
      else do { s \<leftarrow> trap_dispatch tf cr2 s; trap_end tf s })"

section \<open>A trap leaves the registers alone\<close>

lemma swtch_context: "swtch_load (ctx_words (swtch_save r (rg_rip r # stk))) r' =
  r'\<lparr>rg_r15 := rg_r15 r, rg_r14 := rg_r14 r, rg_r13 := rg_r13 r, rg_r12 := rg_r12 r, rg_r11 := rg_r11 r, rg_rbx := rg_rbx r,
     rg_rbp := rg_rbp r, rg_rip := rg_rip r\<rparr>"
  by (simp add: swtch_load_def ctx_words_def swtch_save_def push_def)

text \<open>
  C16. For every trap but three the stub and \<open>alltraps\<close> build a frame whose fields, read by their offsets in \<open>struct trap_frame\<close>, are the registers
  of the interrupted code with the number and the error code (0 where the processor has none), and \<open>trapret\<close> on that frame restores all registers. For the
  exceptions 21, 29 and 30 the processor pushes an error code and the stub pushes a 0 as well, so that the frame is shifted by a word:
  \<open>trap\<close> sees the error code as \<open>rip\<close>, and \<open>trapret\<close> would jump to it.
\<close>

theorem trap_frame_roundtrip:
  "let stk = alltraps r (vector n (hw_trap n err r)) in
   if n \<in> {21, 29, 30}
   then tf_err (frame_words stk) = 0 \<and> tf_rip (frame_words stk) = err \<and> tf_cs (frame_words stk) = rg_rip r \<and>
     trapret stk = Some (r\<lparr>rg_rip := err, rg_cs := rg_rip r, rg_rflags := rg_cs r, rg_rsp := rg_rflags r, rg_ss := rg_rsp r\<rparr>)
   else trapret stk = Some r \<and> length stk = 22 \<and>
     frame_words stk = \<lparr>tf_rax = rg_rax r, tf_rbx = rg_rbx r, tf_rcx = rg_rcx r, tf_rdx = rg_rdx r, tf_rbp = rg_rbp r, tf_rsi = rg_rsi r,
       tf_rdi = rg_rdi r, tf_r8 = rg_r8 r, tf_r9 = rg_r9 r, tf_r10 = rg_r10 r, tf_r11 = rg_r11 r, tf_r12 = rg_r12 r, tf_r13 = rg_r13 r,
       tf_r14 = rg_r14 r, tf_r15 = rg_r15 r, tf_trapno = word_of_nat n, tf_err = (if has_err n then err else 0), tf_rip = rg_rip r,
       tf_cs = rg_cs r, tf_rflags = rg_rflags r, tf_rsp = rg_rsp r, tf_ss = rg_ss r\<rparr>"
  by (auto simp: alltraps_def vector_def hw_trap_def has_err_def push_def frame_words_def Let_def)

end
