(* ===== verification/Xk_Grep.thy ===== *)
theory Xk_Grep
  imports Xk_Prelude
begin

text \<open>
  The user program \<open>user/grep.c\<close>: the pattern matcher and the loop that cuts the input into lines. A C string is the list of its
  bytes without the NUL. The matcher is compared with the meaning of patterns as a language.
\<close>

section \<open>The matcher\<close>

abbreviation star :: u8 where "star \<equiv> 42"
abbreviation dollar :: u8 where "dollar \<equiv> 36"
abbreviation dot :: u8 where "dot \<equiv> 46"
abbreviation caret :: u8 where "caret \<equiv> 94"

function matchhere :: "u8 list \<Rightarrow> u8 list \<Rightarrow> bool" and matchstar :: "u8 \<Rightarrow> u8 list \<Rightarrow> u8 list \<Rightarrow> bool" where
  "matchhere re str =
     (case re of
        [] \<Rightarrow> True
      | c # re' \<Rightarrow>
          if re' \<noteq> [] \<and> hd re' = star then matchstar c (tl re') str
          else if c = dollar \<and> re' = [] then str = []
          else if str \<noteq> [] \<and> (c = dot \<or> c = hd str) then matchhere re' (tl str)
          else False)"
| "matchstar c re str =
     (if matchhere re str then True
      else if str \<noteq> [] \<and> (hd str = c \<or> c = dot) then matchstar c re (tl str)
      else False)"
  by pat_completeness auto
termination
  by (relation "measure (\<lambda>x. case x of
      Inl (re, str) \<Rightarrow> 2 * (length re + length str)
    | Inr (c, re, str) \<Rightarrow> 2 * (length re + length str) + 1)") auto

declare matchhere.simps [simp del] matchstar.simps [simp del]

fun match_from :: "u8 list \<Rightarrow> u8 list \<Rightarrow> bool" where
  "match_from re [] = matchhere re []"
| "match_from re (c # str) = (if matchhere re (c # str) then True else match_from re str)"

definition match :: "u8 list \<Rightarrow> u8 list \<Rightarrow> bool" where
  "match re str = (if re \<noteq> [] \<and> hd re = caret then matchhere (tl re) str else match_from re str)"

section \<open>The input loop\<close>





section \<open>The language of a pattern\<close>

datatype atom = Lit u8 | AnyChar

datatype item = One atom | Star atom | EndOfText

definition atom_of :: "u8 \<Rightarrow> atom" where "atom_of c = (if c = dot then AnyChar else Lit c)"

fun matches_atom :: "atom \<Rightarrow> u8 \<Rightarrow> bool" where
  "matches_atom (Lit c) d = (c = d)"
| "matches_atom AnyChar d = True"

fun parse_re :: "u8 list \<Rightarrow> item list" where
  "parse_re [] = []"
| "parse_re [c] = [if c = dollar then EndOfText else One (atom_of c)]"
| "parse_re (c # d # re) = (if d = star then Star (atom_of c) # parse_re re else One (atom_of c) # parse_re (d # re))"

text \<open>The texts that begin with a word of the language: a starred atom stands for any number of characters it matches.\<close>

fun begins :: "item list \<Rightarrow> u8 list \<Rightarrow> bool" where
  "begins [] str = True"
| "begins (One a # re) str = (\<exists>c t. str = c # t \<and> matches_atom a c \<and> begins re t)"
| "begins (Star a # re) str = (\<exists>n \<le> length str. (\<forall>i < n. matches_atom a (str ! i)) \<and> begins re (drop n str))"
| "begins (EndOfText # re) str = (str = [] \<and> begins re str)"

definition in_language :: "u8 list \<Rightarrow> u8 list \<Rightarrow> bool" where
  "in_language re str =
     (if re \<noteq> [] \<and> hd re = caret then begins (parse_re (tl re)) str
      else (\<exists>k \<le> length str. begins (parse_re re) (drop k str)))"

lemma star_unfold:
  "begins (Star a # re) str \<longleftrightarrow>
     begins re str \<or> (str \<noteq> [] \<and> matches_atom a (hd str) \<and> begins (Star a # re) (tl str))"
proof
  assume "begins (Star a # re) str"
  then obtain n where n: "n \<le> length str" "\<forall>i < n. matches_atom a (str ! i)" "begins re (drop n str)" by auto
  show "begins re str \<or> (str \<noteq> [] \<and> matches_atom a (hd str) \<and> begins (Star a # re) (tl str))"
  proof (cases n)
    case 0 with n show ?thesis by simp
  next
    case (Suc k)
    then obtain c t where t: "str = c # t" using n(1) by (cases str) auto
    have "matches_atom a c" using n(2) Suc t by auto
    moreover have "\<forall>i < k. matches_atom a (t ! i)" using n(2) Suc t by auto
    ultimately show ?thesis using n Suc t by auto
  qed
next
  assume "begins re str \<or> (str \<noteq> [] \<and> matches_atom a (hd str) \<and> begins (Star a # re) (tl str))"
  then show "begins (Star a # re) str"
  proof
    assume "begins re str" then show ?thesis by (auto intro: exI [of _ 0])
  next
    assume r: "str \<noteq> [] \<and> matches_atom a (hd str) \<and> begins (Star a # re) (tl str)"
    then obtain c t n where t: "str = c # t" "matches_atom a c" "n \<le> length t" "\<forall>i < n. matches_atom a (t ! i)" "begins re (drop n t)"
      by (cases str) auto
    then have "\<forall>i < Suc n. matches_atom a (str ! i)" by (auto simp: less_Suc_eq_0_disj)
    with t show ?thesis by (auto intro!: exI [of _ "Suc n"])
  qed
qed

lemma matches_atom_of: "matches_atom (atom_of c) d \<longleftrightarrow> c = dot \<or> c = d"
  by (simp add: atom_of_def)

lemma matchhere_Nil [simp]: "matchhere [] str"
  by (simp add: matchhere.simps)

lemma matchhere_single:
  "matchhere [c] str \<longleftrightarrow> (if c = dollar then str = [] else str \<noteq> [] \<and> (c = dot \<or> c = hd str))"
  by (subst matchhere.simps) simp

lemma matchhere_more:
  "matchhere (c # d # re) str \<longleftrightarrow>
     (if d = star then matchstar c re str else str \<noteq> [] \<and> (c = dot \<or> c = hd str) \<and> matchhere (d # re) (tl str))"
  by (subst matchhere.simps) simp

lemma matchhere_begins:
  "matchhere re str = begins (parse_re re) str"
  "matchstar c re str = begins (Star (atom_of c) # parse_re re) str"
proof (induction re str and c re str rule: matchhere_matchstar.induct)
  case (1 re str)
  show ?case
  proof (cases re rule: parse_re.cases)
    case 1 then show ?thesis by (simp add: matchhere.simps)
  next
    case (2 c)
    then show ?thesis by (cases str) (auto simp: matchhere_single matches_atom_of)
  next
    case (3 c d re')
    show ?thesis
    proof (cases "d = star")
      case True
      then show ?thesis using 3 "1.IH"(1) [of c "d # re'"] by (simp add: matchhere_more)
    next
      case False
      then show ?thesis using 3 "1.IH"(2) [of c "d # re'"] by (cases str) (auto simp: matchhere_more matches_atom_of)
    qed
  qed
next
  case (2 c re str)
  have "matchstar c re str \<longleftrightarrow> matchhere re str \<or> (str \<noteq> [] \<and> matches_atom (atom_of c) (hd str) \<and> matchstar c re (tl str))"
    by (subst matchstar.simps) (auto simp: matches_atom_of)
  also have "\<dots> \<longleftrightarrow> begins (parse_re re) str \<or>
      (str \<noteq> [] \<and> matches_atom (atom_of c) (hd str) \<and> begins (Star (atom_of c) # parse_re re) (tl str))"
    using 2 by (simp only: matches_atom_of) blast
  finally show ?case by (simp only: star_unfold [symmetric])
qed

lemma match_from_begins: "match_from re str \<longleftrightarrow> (\<exists>k \<le> length str. begins (parse_re re) (drop k str))"
proof (induction str)
  case (Cons c str)
  have "(\<exists>k \<le> Suc n. P k) \<longleftrightarrow> P 0 \<or> (\<exists>k \<le> n. P (Suc k))" for P n
    by (metis Suc_le_mono le0 not0_implies_Suc)
  from this [of "length str" "\<lambda>k. begins (parse_re re) (drop k (c # str))"]
  have "(\<exists>k \<le> length (c # str). begins (parse_re re) (drop k (c # str))) \<longleftrightarrow>
      begins (parse_re re) (c # str) \<or> (\<exists>k \<le> length str. begins (parse_re re) (drop k str))" by simp
  with Cons show ?case by (auto simp: matchhere_begins)
qed (simp add: matchhere_begins)

text \<open>
  C12. The matcher of Kernighan and Pike decides the language of the pattern: \<open>match\<close> accepts a str exactly when a part of it, at its start for a pattern
  with \<open>^\<close>, is a word of the pattern, where a starred character stands for any number of its matches and not only the longest run.
\<close>

theorem match_language: "match re str = in_language re str"
  by (simp add: match_def in_language_def matchhere_begins match_from_begins)

section \<open>Lines\<close>






end
