(* ===== verification/Xk_Shell.thy ===== *)
theory Xk_Shell
  imports Xk_Prelude
begin

text \<open>
  The parser of the shell \<open>user/sh.c\<close>: tokens, the recursive descent and \<open>nulterminate\<close>. The nodes of the syntax tree, which the code gets
  from \<open>malloc\<close>, are values. It is shown that the parser ends on every line, that the strings handed to \<open>exec\<close> and \<open>open\<close> are the words of
  the line as they were typed, each exactly once, and that it reads back every command printed in the grammar of the shell.
\<close>

section \<open>Tokens\<close>

text \<open>
  The command line is the string without its NUL, \<open>es\<close> is its length and a \<open>char *\<close> into it is an index; the byte at \<open>es\<close> is the NUL.
\<close>

abbreviation NUL :: char where "NUL \<equiv> CHR 0x00"

definition byte_at :: "string \<Rightarrow> nat \<Rightarrow> char" where
  "byte_at buf s = (if s < length buf then buf ! s else NUL)"

definition whitespace :: string where
  "whitespace = [CHR '' '', CHR 0x09, CHR 0x0D, CHR 0x0A, CHR 0x0B]"

definition symbols :: string where
  "symbols = ''<|>&;()''"

text \<open>The condition of the loop over the characters of a word.\<close>

definition word_char :: "char \<Rightarrow> bool" where
  "word_char c \<longleftrightarrow> c \<notin> set whitespace \<and> c \<notin> set symbols"

function skip_while :: "(char \<Rightarrow> bool) \<Rightarrow> string \<Rightarrow> nat \<Rightarrow> nat" where
  "skip_while P buf s = (if s < length buf \<and> P (buf ! s) then skip_while P buf (s + 1) else s)"
  by pat_completeness auto
termination
  by (relation "measure (\<lambda>(P, buf, s). length buf - s)") auto

declare skip_while.simps [simp del]

abbreviation skip_space :: "string \<Rightarrow> nat \<Rightarrow> nat" where
  "skip_space \<equiv> skip_while (\<lambda>c. c \<in> set whitespace)"

text \<open>The switch of \<open>gettoken\<close> at the start \<open>q\<close> of a token: the token and the end of its text.\<close>

definition token_at :: "string \<Rightarrow> nat \<Rightarrow> char \<times> nat" where
  "token_at buf q =
     (let c = byte_at buf q in
      if c = NUL then (c, q)
      else if c \<in> set ''|();&<'' then (c, q + 1)
      else if c = CHR ''>'' then (if byte_at buf (q + 1) = CHR ''>'' then (CHR ''+'', q + 2) else (c, q + 1))
      else (CHR ''a'', skip_while word_char buf q))"

text \<open>\<open>gettoken\<close> returns the token, the bounds \<open>q\<close> and \<open>eq\<close> of its text, and the new \<open>*ps\<close>.\<close>

definition gettoken :: "string \<Rightarrow> nat \<Rightarrow> char \<times> nat \<times> nat \<times> nat" where
  "gettoken buf ps =
     (let q = skip_space buf ps; (ret, eq) = token_at buf q in (ret, q, eq, skip_space buf eq))"

definition peek :: "string \<Rightarrow> nat \<Rightarrow> string \<Rightarrow> bool \<times> nat" where
  "peek buf ps toks =
     (let s = skip_space buf ps in (byte_at buf s \<noteq> NUL \<and> byte_at buf s \<in> set toks, s))"

section \<open>Commands\<close>

text \<open>The structs \<open>execcmd\<close>, \<open>redircmd\<close>, \<open>pipecmd\<close>, \<open>listcmd\<close> and \<open>backcmd\<close>; strings are the bounds of a token in the line.\<close>

datatype cmd =
    Execcmd (argv: "(nat \<times> nat) list")
  | Redircmd cmd nat nat (rmode: int) (rfd: int)
  | Pipecmd cmd cmd
  | Listcmd cmd cmd
  | Backcmd cmd

text \<open>\<open>parseexec\<close> stores an argument in its \<open>execcmd\<close>, which may already be wrapped in redirections.\<close>

fun add_arg :: "nat \<times> nat \<Rightarrow> cmd \<Rightarrow> cmd" where
  "add_arg a (Execcmd as) = Execcmd (as @ [a])"
| "add_arg a (Redircmd c q eq mode fd) = Redircmd (add_arg a c) q eq mode fd"
| "add_arg a c = c"

definition MAXARGS :: nat where "MAXARGS = 10"

text \<open>A parser returns, or it ends the shell process with a message; \<open>Fuel\<close> is the bound on the depth of the recursion.\<close>

datatype 'a parsed = Parsed 'a | Panic string | Fuel

fun pthen :: "'a parsed \<Rightarrow> ('a \<Rightarrow> 'b parsed) \<Rightarrow> 'b parsed" where
  "pthen (Parsed x) f = f x"
| "pthen (Panic m) f = Panic m"
| "pthen Fuel f = Fuel"

definition redir_of :: "char \<Rightarrow> cmd \<Rightarrow> nat \<Rightarrow> nat \<Rightarrow> cmd" where
  "redir_of tok c q eq =
     (if tok = CHR ''<'' then Redircmd c q eq O_RDONLY 0
      else if tok = CHR ''>'' then Redircmd c q eq (or O_WRONLY O_CREATE) 1
      else if tok = CHR ''+'' then Redircmd c q eq (or O_WRONLY O_CREATE) 1
      else c)"

lemma skip_while_eq: "skip_while P buf s = s + length (takeWhile P (drop s buf))"
proof (induction P buf s rule: skip_while.induct)
  case (1 P buf s)
  show ?case
  proof (cases "s < length buf \<and> P (buf ! s)")
    case True
    then have "drop s buf = buf ! s # drop (s + 1) buf" by (simp add: Cons_nth_drop_Suc)
    then show ?thesis using 1 True by (simp add: skip_while.simps [of P buf s])
  next
    case False
    then have "takeWhile P (drop s buf) = []" by (cases "s < length buf") (auto simp: Cons_nth_drop_Suc [symmetric])
    then show ?thesis using False by (auto simp add: skip_while.simps [of P buf s])
  qed
qed

lemma skip_while_ge: "s \<le> skip_while P buf s"
  by (simp add: skip_while_eq)

lemma skip_while_le: "s \<le> length buf \<Longrightarrow> skip_while P buf s \<le> length buf"
  using length_takeWhile_le [of P "drop s buf"] by (simp add: skip_while_eq)

lemma skip_while_stop: "skip_while P buf s < length buf \<Longrightarrow> \<not> P (buf ! skip_while P buf s)"
  by (induction P buf s rule: skip_while.induct) (subst (asm) (2) skip_while.simps, subst skip_while.simps, simp split: if_splits)

lemma peek_bounds:
  assumes "peek buf s toks = (r, s')"
  shows "s \<le> s'" "s \<le> length buf \<Longrightarrow> s' \<le> length buf" "r \<Longrightarrow> s' < length buf" "r \<Longrightarrow> byte_at buf s' \<in> set toks"
  using assms skip_while_ge [of s "\<lambda>c. c \<in> set whitespace" buf] skip_while_le [of s buf "\<lambda>c. c \<in> set whitespace"]
  by (auto simp: peek_def Let_def byte_at_def split: if_splits)

lemma token_at_bounds:
  assumes "token_at buf q = (tok, eq)"
  shows "q \<le> eq" "q \<le> length buf \<Longrightarrow> eq \<le> length buf" "q < length buf \<Longrightarrow> buf ! q \<noteq> NUL \<Longrightarrow> buf ! q \<notin> set whitespace \<Longrightarrow> q < eq"
  using assms skip_while_ge [of q word_char buf] skip_while_ge [of "Suc q" word_char buf] skip_while_le [of q buf word_char]
  by (auto simp: token_at_def Let_def byte_at_def word_char_def symbols_def skip_while.simps [of word_char buf q] split: if_splits)

lemma gettoken_bounds:
  assumes "gettoken buf s = (tok, q, eq, s')"
  shows "s \<le> q" "q \<le> eq" "eq \<le> s'" "s \<le> length buf \<Longrightarrow> s' \<le> length buf"
proof -
  have e: "q = skip_space buf s" "token_at buf q = (tok, eq)" "s' = skip_space buf eq"
    using assms by (auto simp: gettoken_def Let_def split: prod.splits)
  show "s \<le> q" "q \<le> eq" "eq \<le> s'" using e skip_while_ge token_at_bounds(1) by auto
  show "s' \<le> length buf" if "s \<le> length buf" using e that skip_while_le token_at_bounds(2) by metis
qed

lemma peek_gettoken:
  assumes "peek buf s toks = (True, s1)" "gettoken buf s1 = (tok, q, eq, s2)"
  shows "q = s1" "s1 < eq" "eq \<le> s2"
proof -
  have s1: "s1 < length buf" "buf ! s1 \<noteq> NUL" "buf ! s1 \<notin> set whitespace"
    using assms(1) skip_while_stop [of "\<lambda>c. c \<in> set whitespace" buf s] by (auto simp: peek_def Let_def byte_at_def split: if_splits)
  then have "skip_space buf s1 = s1" by (simp add: skip_while.simps [of _ buf s1])
  then show "q = s1" using assms(2) by (auto simp: gettoken_def Let_def split: prod.splits)
  then have "token_at buf s1 = (tok, eq)" using assms(2) by (auto simp: gettoken_def Let_def split: prod.splits)
  then show "s1 < eq" using token_at_bounds(3) s1 by blast
  show "eq \<le> s2" using gettoken_bounds(3) [OF assms(2)] .
qed

section \<open>The parser\<close>

function parseredirs :: "cmd \<Rightarrow> string \<Rightarrow> nat \<Rightarrow> (cmd \<times> nat) parsed" where
  "parseredirs c buf s =
     (case peek buf s ''<>'' of (redir, s1) \<Rightarrow>
        if redir then
          case gettoken buf s1 of (tok, _, _, s2) \<Rightarrow>
          case gettoken buf s2 of (t, q, eq, s3) \<Rightarrow>
            if t \<noteq> CHR ''a'' then Panic ''missing file for redirection''
            else parseredirs (redir_of tok c q eq) buf s3
        else Parsed (c, s1))"
  by pat_completeness auto
termination
proof (relation "measure (\<lambda>(c, buf, s). length buf - s)", goal_cases)
  case (2 c buf s r s1 tok x1 q1 x2 e1 s2 t x3 q x4 eq s3)
  then have p: "peek buf s ''<>'' = (True, s1)" "gettoken buf s1 = (tok, q1, e1, s2)" "gettoken buf s2 = (t, q, eq, s3)" by auto
  have "s \<le> s1" "s1 < length buf" "s1 < s2" "s2 \<le> s3"
    using peek_bounds [OF p(1)] peek_gettoken [OF p(1,2)] gettoken_bounds [OF p(3)] by auto
  then show ?case by simp
qed simp

function parse_backs :: "cmd \<Rightarrow> string \<Rightarrow> nat \<Rightarrow> cmd \<times> nat" where
  "parse_backs c buf s =
     (case peek buf s ''&'' of (back, s1) \<Rightarrow>
        if back then case gettoken buf s1 of (_, _, _, s2) \<Rightarrow> parse_backs (Backcmd c) buf s2
        else (c, s1))"
  by pat_completeness auto
termination
proof (relation "measure (\<lambda>(c, buf, s). length buf - s)", goal_cases)
  case (2 c buf s r s1 tok x1 q1 x2 e1 s2)
  then have p: "peek buf s ''&'' = (True, s1)" "gettoken buf s1 = (tok, q1, e1, s2)" by auto
  have "s \<le> s1" "s1 < length buf" "s1 < s2" using peek_bounds [OF p(1)] peek_gettoken [OF p] by auto
  then show ?case by simp
qed simp

function parse_args :: "nat \<Rightarrow> cmd \<Rightarrow> string \<Rightarrow> nat \<Rightarrow> (cmd \<times> nat) parsed" where
  "parse_args argc ret buf s =
     (case peek buf s ''|)&;'' of (stop, s1) \<Rightarrow>
        if stop then Parsed (ret, s1)
        else case gettoken buf s1 of (tok, q, eq, s2) \<Rightarrow>
          if tok = NUL then Parsed (ret, s2)
          else if tok \<noteq> CHR ''a'' then Panic ''syntax''
          else if argc + 1 \<ge> MAXARGS then Panic ''too many args''
          else pthen (parseredirs (add_arg (q, eq) ret) buf s2) (\<lambda>(ret, s3). parse_args (argc + 1) ret buf s3))"
  by pat_completeness auto
termination by (relation "measure (\<lambda>(argc, ret, buf, s). MAXARGS - argc)") auto

declare parseredirs.simps [simp del] parse_backs.simps [simp del] parse_args.simps [simp del]

fun parseline :: "nat \<Rightarrow> string \<Rightarrow> nat \<Rightarrow> (cmd \<times> nat) parsed"
  and parsepipe :: "nat \<Rightarrow> string \<Rightarrow> nat \<Rightarrow> (cmd \<times> nat) parsed"
  and parseexec :: "nat \<Rightarrow> string \<Rightarrow> nat \<Rightarrow> (cmd \<times> nat) parsed"
  and parseblock :: "nat \<Rightarrow> string \<Rightarrow> nat \<Rightarrow> (cmd \<times> nat) parsed" where
  "parseline 0 buf s = Fuel"
| "parseline (Suc k) buf s =
     pthen (parsepipe k buf s) (\<lambda>(c, s1).
       case parse_backs c buf s1 of (c, s2) \<Rightarrow>
       case peek buf s2 '';'' of (semi, s3) \<Rightarrow>
         if semi then
           case gettoken buf s3 of (_, _, _, s4) \<Rightarrow>
             pthen (parseline k buf s4) (\<lambda>(d, s5). Parsed (Listcmd c d, s5))
         else Parsed (c, s3))"
| "parsepipe 0 buf s = Fuel"
| "parsepipe (Suc k) buf s =
     pthen (parseexec k buf s) (\<lambda>(c, s1).
       case peek buf s1 ''|'' of (bar, s2) \<Rightarrow>
         if bar then
           case gettoken buf s2 of (_, _, _, s3) \<Rightarrow>
             pthen (parsepipe k buf s3) (\<lambda>(d, s4). Parsed (Pipecmd c d, s4))
         else Parsed (c, s2))"
| "parseexec 0 buf s = Fuel"
| "parseexec (Suc k) buf s =
     (case peek buf s ''('' of (par, s1) \<Rightarrow>
        if par then parseblock k buf s1
        else pthen (parseredirs (Execcmd []) buf s1) (\<lambda>(ret, s2). parse_args 0 ret buf s2))"
| "parseblock 0 buf s = Fuel"
| "parseblock (Suc k) buf s =
     (case peek buf s ''('' of (par, s1) \<Rightarrow>
        if \<not> par then Panic ''parseblock''
        else case gettoken buf s1 of (_, _, _, s2) \<Rightarrow>
          pthen (parseline k buf s2) (\<lambda>(c, s3).
            case peek buf s3 '')'' of (close, s4) \<Rightarrow>
              if \<not> close then Panic ''syntax - missing )''
              else case gettoken buf s4 of (_, _, _, s5) \<Rightarrow> parseredirs c buf s5))"

section \<open>The strings of a command\<close>

text \<open>\<open>nulterminate\<close> writes a NUL behind every string, in the memory of the line with its own NUL.\<close>

fun nulterminate :: "cmd \<Rightarrow> string \<Rightarrow> string" where
  "nulterminate (Execcmd as) mem = fold (\<lambda>(q, eq) mem. mem[eq := NUL]) as mem"
| "nulterminate (Redircmd c q eq mode fd) mem = (nulterminate c mem)[eq := NUL]"
| "nulterminate (Pipecmd c d) mem = nulterminate d (nulterminate c mem)"
| "nulterminate (Listcmd c d) mem = nulterminate d (nulterminate c mem)"
| "nulterminate (Backcmd c) mem = nulterminate c mem"

text \<open>\<open>parsecmd\<close>; the bound on the recursion is large enough for every line.\<close>

definition parsecmd :: "string \<Rightarrow> (cmd \<times> string) parsed" where
  "parsecmd s =
     pthen (parseline (4 * length s + 4) s 0) (\<lambda>(c, s1).
       case peek s s1 '''' of (_, s2) \<Rightarrow>
         if s2 \<noteq> length s then Panic ''syntax''
         else Parsed (c, nulterminate c (s @ [NUL])))"

section \<open>Every string is a word of the line\<close>

fun tokens :: "cmd \<Rightarrow> (nat \<times> nat) list" where
  "tokens (Execcmd as) = as"
| "tokens (Redircmd c q eq mode fd) = tokens c @ [(q, eq)]"
| "tokens (Pipecmd c d) = tokens c @ tokens d"
| "tokens (Listcmd c d) = tokens c @ tokens d"
| "tokens (Backcmd c) = tokens c"

definition token_ok :: "string \<Rightarrow> nat \<times> nat \<Rightarrow> bool" where
  "token_ok buf = (\<lambda>(q, eq). q < eq \<and> eq \<le> length buf \<and> (\<forall>i. q \<le> i \<and> i < eq \<longrightarrow> word_char (buf ! i)) \<and>
     (eq < length buf \<longrightarrow> \<not> word_char (buf ! eq)))"

definition cmd_ok :: "string \<Rightarrow> cmd \<Rightarrow> bool" where
  "cmd_ok buf c \<longleftrightarrow> (\<forall>a \<in> set (tokens c). token_ok buf a)"

lemma cmd_ok_simps [simp]:
  "cmd_ok buf (Execcmd as) \<longleftrightarrow> (\<forall>a \<in> set as. token_ok buf a)"
  "cmd_ok buf (Redircmd c q eq mode fd) \<longleftrightarrow> cmd_ok buf c \<and> token_ok buf (q, eq)"
  "cmd_ok buf (Pipecmd c d) \<longleftrightarrow> cmd_ok buf c \<and> cmd_ok buf d"
  "cmd_ok buf (Listcmd c d) \<longleftrightarrow> cmd_ok buf c \<and> cmd_ok buf d"
  "cmd_ok buf (Backcmd c) \<longleftrightarrow> cmd_ok buf c"
  by (auto simp: cmd_ok_def)

lemma cmd_ok_add_arg: "cmd_ok buf c \<Longrightarrow> token_ok buf a \<Longrightarrow> cmd_ok buf (add_arg a c)"
  by (induction a c rule: add_arg.induct) auto

lemma cmd_ok_redir_of: "cmd_ok buf c \<Longrightarrow> token_ok buf (q, eq) \<Longrightarrow> cmd_ok buf (redir_of tok c q eq)"
  by (simp add: redir_of_def)

lemma skip_while_all: "s \<le> i \<Longrightarrow> i < skip_while P buf s \<Longrightarrow> P (buf ! i)"
proof (induction P buf s rule: skip_while.induct)
  case (1 P buf s)
  show ?case
  proof (cases "s < length buf \<and> P (buf ! s)")
    case True
    then show ?thesis using 1 by (cases "i = s") (auto simp: skip_while.simps [of P buf s])
  qed (use 1 in \<open>auto simp: skip_while.simps [of P buf s]\<close>)
qed

lemma gettoken_word:
  assumes "gettoken buf s = (CHR ''a'', q, eq, s')" "s \<le> length buf"
  shows "token_ok buf (q, eq)"
proof -
  have q: "q = skip_space buf s" and t: "token_at buf q = (CHR ''a'', eq)"
    using assms(1) by (auto simp: gettoken_def Let_def split: prod.splits)
  have eq: "eq = skip_while word_char buf q" and b: "byte_at buf q \<noteq> NUL" "byte_at buf q \<notin> set ''|();&<>''"
    using t by (auto simp: token_at_def Let_def split: if_splits)
  have l: "q < length buf" using b(1) by (auto simp: byte_at_def split: if_splits)
  then have "word_char (buf ! q)" using b skip_while_stop [of "\<lambda>c. c \<in> set whitespace" buf s] q
    by (auto simp: byte_at_def word_char_def symbols_def)
  then have "q < eq" using l skip_while_ge [of "Suc q" word_char buf] by (simp add: eq skip_while.simps [of word_char buf q])
  moreover have "eq \<le> length buf" using skip_while_le l eq by simp
  moreover have "word_char (buf ! i)" if "q \<le> i \<and> i < eq" for i using skip_while_all [of q i word_char buf] that eq by auto
  moreover have "\<not> word_char (buf ! eq)" if "eq < length buf" using skip_while_stop that eq by auto
  ultimately show ?thesis by (auto simp: token_ok_def)
qed

text \<open>What a parser that starts at \<open>s\<close> promises.\<close>

definition good :: "string \<Rightarrow> nat \<Rightarrow> (cmd \<times> nat) parsed \<Rightarrow> bool" where
  "good buf s r \<longleftrightarrow> r \<noteq> Fuel \<and> (\<forall>c s'. r = Parsed (c, s') \<longrightarrow> s \<le> s' \<and> s' \<le> length buf \<and> cmd_ok buf c)"

lemma good_simps [simp]:
  "good buf s (Panic m)" "\<not> good buf s Fuel"
  "good buf s (Parsed (c, s')) \<longleftrightarrow> s \<le> s' \<and> s' \<le> length buf \<and> cmd_ok buf c"
  by (auto simp: good_def)

lemma good_le: "good buf s' r \<Longrightarrow> s \<le> s' \<Longrightarrow> good buf s r"
  by (auto simp: good_def)

lemma good_pthen:
  assumes "good buf s r" "\<And>c s'. s \<le> s' \<Longrightarrow> s' \<le> length buf \<Longrightarrow> cmd_ok buf c \<Longrightarrow> good buf s' (f (c, s'))"
  shows "good buf s (pthen r f)"
  using assms good_le by (cases r) fastforce+

lemma parseredirs_good: "s \<le> length buf \<Longrightarrow> cmd_ok buf c \<Longrightarrow> good buf s (parseredirs c buf s)"
proof (induction c buf s rule: parseredirs.induct)
  case (1 c buf s)
  obtain r s1 where p: "peek buf s ''<>'' = (r, s1)" by fastforce
  note b = peek_bounds [OF p]
  show ?case
  proof (cases r)
    case False
    then show ?thesis using p b 1 by (simp add: parseredirs.simps [of c buf s])
  next
    case True
    obtain tok q1 e1 s2 where g1: "gettoken buf s1 = (tok, q1, e1, s2)" by (metis prod_cases4)
    obtain t q eq s3 where g2: "gettoken buf s2 = (t, q, eq, s3)" by (metis prod_cases4)
    note b1 = gettoken_bounds [OF g1] note b2 = gettoken_bounds [OF g2]
    have s: "s1 \<le> length buf" "s2 \<le> length buf" "s3 \<le> length buf" "s \<le> s3" using b 1 b1 b2 by auto
    have "good buf s (parseredirs (redir_of tok c q eq) buf s3)" if t: "t = CHR ''a''"
      using 1(1) [OF p [symmetric] True g1 [symmetric] refl refl g2 [symmetric] refl refl] 
        cmd_ok_redir_of [OF 1(3)] gettoken_word [of buf s2 q eq s3] g2 t s good_le by simp
    then show ?thesis using p True g1 g2 by (simp add: parseredirs.simps [of c buf s])
  qed
qed

lemma parse_backs_good:
  "s \<le> length buf \<Longrightarrow> cmd_ok buf c \<Longrightarrow> good buf s (Parsed (parse_backs c buf s))"
proof (induction c buf s rule: parse_backs.induct)
  case (1 c buf s)
  obtain r s1 where p: "peek buf s ''&'' = (r, s1)" by fastforce
  note b = peek_bounds [OF p]
  show ?case
  proof (cases r)
    case False
    then show ?thesis using p b 1 by (simp add: parse_backs.simps [of c buf s])
  next
    case True
    obtain tok q1 e1 s2 where g1: "gettoken buf s1 = (tok, q1, e1, s2)" by (metis prod_cases4)
    note b1 = gettoken_bounds [OF g1]
    have "s1 \<le> length buf" "s2 \<le> length buf" "s \<le> s2" using b 1 b1 by auto
    then have "good buf s (Parsed (parse_backs (Backcmd c) buf s2))"
      using 1(1) [OF p [symmetric] True g1 [symmetric] refl refl] 1(3) good_le by simp
    then show ?thesis using p True g1 by (simp add: parse_backs.simps [of c buf s])
  qed
qed

lemma parse_args_good: "s \<le> length buf \<Longrightarrow> cmd_ok buf c \<Longrightarrow> good buf s (parse_args n c buf s)"
proof (induction n c buf s rule: parse_args.induct)
  case (1 n c buf s)
  obtain r s1 where p: "peek buf s ''|)&;'' = (r, s1)" by fastforce
  obtain tok q eq s2 where g: "gettoken buf s1 = (tok, q, eq, s2)" by (metis prod_cases4)
  note b = peek_bounds [OF p] note b1 = gettoken_bounds [OF g]
  have s: "s \<le> s1" "s1 \<le> length buf" "s \<le> s2" "s2 \<le> length buf" using b b1 1 by auto
  have "good buf s (pthen (parseredirs (add_arg (q, eq) c) buf s2) (\<lambda>(ret, s3). parse_args (n + 1) ret buf s3))"
    if h: "\<not> r" "tok = CHR ''a''" "\<not> MAXARGS \<le> n + 1"
  proof (rule good_le [OF good_pthen s(3)])
    show "good buf s2 (parseredirs (add_arg (q, eq) c) buf s2)"
      using parseredirs_good [OF s(4)] cmd_ok_add_arg [OF 1(3)] gettoken_word [of buf s1 q eq s2] g h(2) s(2) by simp
    show "good buf s' (case (c', s') of (ret, s3) \<Rightarrow> parse_args (n + 1) ret buf s3)" if "s' \<le> length buf" "cmd_ok buf c'" for c' s'
      using 1(1) [OF p [symmetric] h(1) g [symmetric] refl refl _ _ h(3)] h(2) that by simp
  qed
  then show ?case using p g s 1 by (simp add: parse_args.simps [of n c buf s])
qed


lemma parseline_good:
  assumes s: "s \<le> length buf" and "good buf s (parsepipe k buf s)"
    and "\<And>s'. s < s' \<Longrightarrow> s' \<le> length buf \<Longrightarrow> good buf s' (parseline k buf s')"
  shows "good buf s (parseline (Suc k) buf s)"
  unfolding parseline.simps
proof (rule good_pthen [OF assms(2)], goal_cases)
  case (1 c s1)
  obtain c2 s2 where pb: "parse_backs c buf s1 = (c2, s2)" by fastforce
  obtain r s3 where p: "peek buf s2 '';'' = (r, s3)" by fastforce
  obtain tok q e s4 where g: "gettoken buf s3 = (tok, q, e, s4)" by (metis prod_cases4)
  have c2: "s1 \<le> s2" "s2 \<le> length buf" "cmd_ok buf c2" using parse_backs_good 1 pb by force+
  note b = peek_bounds [OF p] gettoken_bounds [OF g]
  have "good buf s1 (pthen (parseline k buf s4) (\<lambda>(d, s5). Parsed (Listcmd c2 d, s5)))" if r
  proof (rule good_le [OF good_pthen])
    have "s3 < s4" using peek_gettoken [OF _ g] p that by fastforce
    then show "good buf s4 (parseline k buf s4)" using b c2 1 by (intro assms(3)) auto
  qed (use b c2 1 in auto)
  then show ?case using pb p g b c2 by simp
qed

lemma parsepipe_good:
  assumes s: "s \<le> length buf" and "good buf s (parseexec k buf s)"
    and "\<And>s'. s < s' \<Longrightarrow> s' \<le> length buf \<Longrightarrow> good buf s' (parsepipe k buf s')"
  shows "good buf s (parsepipe (Suc k) buf s)"
  unfolding parsepipe.simps
proof (rule good_pthen [OF assms(2)], goal_cases)
  case (1 c s1)
  obtain r s3 where p: "peek buf s1 ''|'' = (r, s3)" by fastforce
  obtain tok q e s4 where g: "gettoken buf s3 = (tok, q, e, s4)" by (metis prod_cases4)
  note b = peek_bounds [OF p] gettoken_bounds [OF g]
  have "good buf s1 (pthen (parsepipe k buf s4) (\<lambda>(d, s5). Parsed (Pipecmd c d, s5)))" if r
  proof (rule good_le [OF good_pthen])
    have "s3 < s4" using peek_gettoken [OF _ g] p that by fastforce
    then show "good buf s4 (parsepipe k buf s4)" using b 1 by (intro assms(3)) auto
  qed (use b 1 in auto)
  then show ?case using p g b 1 by simp
qed

lemma parseexec_good:
  assumes s: "s \<le> length buf" and "\<And>s'. s \<le> s' \<Longrightarrow> s' \<le> length buf \<Longrightarrow> good buf s' (parseblock k buf s')"
  shows "good buf s (parseexec (Suc k) buf s)"
proof -
  obtain r s1 where p: "peek buf s ''('' = (r, s1)" by fastforce
  note b = peek_bounds [OF p]
  have "good buf s (parseblock k buf s1)" using b s by (intro good_le [OF assms(2)]) auto
  moreover have "good buf s (pthen (parseredirs (Execcmd []) buf s1) (\<lambda>(ret, s2). parse_args 0 ret buf s2))"
    using b s by (intro good_le [OF good_pthen [OF parseredirs_good]]) (auto intro: parse_args_good)
  ultimately show ?thesis using p by simp
qed

lemma parseblock_good:
  assumes s: "s \<le> length buf" and "\<And>s'. s < s' \<Longrightarrow> s' \<le> length buf \<Longrightarrow> good buf s' (parseline k buf s')"
  shows "good buf s (parseblock (Suc k) buf s)"
proof -
  obtain r s1 where p: "peek buf s ''('' = (r, s1)" by fastforce
  obtain tok q e s2 where g: "gettoken buf s1 = (tok, q, e, s2)" by (metis prod_cases4)
  note b = peek_bounds [OF p] gettoken_bounds [OF g]
  have "good buf s (pthen (parseline k buf s2) (\<lambda>(c, s3). case peek buf s3 '')'' of (close, s4) \<Rightarrow>
        if \<not> close then Panic ''syntax - missing )'' else case gettoken buf s4 of (_, _, _, s5) \<Rightarrow> parseredirs c buf s5))" if r
  proof (rule good_le [where s' = s2, OF good_pthen], goal_cases)
    case 1
    have "s1 < s2" using peek_gettoken [OF _ g] p that by fastforce
    then show ?case using b s by (intro assms(2)) auto
  next
    case (2 c s3)
    obtain r' s4 where p': "peek buf s3 '')'' = (r', s4)" by fastforce
    obtain tok' q' e' s5 where g': "gettoken buf s4 = (tok', q', e', s5)" by (metis prod_cases4)
    have "good buf s3 (parseredirs c buf s5)"
      using peek_bounds [OF p'] gettoken_bounds [OF g'] 2 by (intro good_le [OF parseredirs_good]) auto
    then show ?case using p' g' by simp
  qed (use b in simp)
  then show ?thesis using p g by simp
qed

lemma parse_good:
  "s \<le> length buf \<Longrightarrow> 4 * (length buf - s) + 4 \<le> k \<Longrightarrow> good buf s (parseline k buf s)"
  "s \<le> length buf \<Longrightarrow> 4 * (length buf - s) + 3 \<le> k \<Longrightarrow> good buf s (parsepipe k buf s)"
  "s \<le> length buf \<Longrightarrow> 4 * (length buf - s) + 2 \<le> k \<Longrightarrow> good buf s (parseexec k buf s)"
  "s \<le> length buf \<Longrightarrow> 4 * (length buf - s) + 1 \<le> k \<Longrightarrow> good buf s (parseblock k buf s)"
proof (induction k arbitrary: s)
  case (Suc k)
  { case 1 then show ?case using Suc.IH by (intro parseline_good) auto
  next case 2 then show ?case using Suc.IH by (intro parsepipe_good) auto
  next case 3 then show ?case using Suc.IH by (intro parseexec_good) auto
  next case 4 then show ?case using Suc.IH by (intro parseblock_good) auto }
qed simp_all

section \<open>No word is lost and none is taken twice\<close>

text \<open>
  The words of a line, as pairs of the place where they start and the place behind them: runs of word characters that can be extended neither to the left nor
  to the right. \<open>words_from\<close> are those that start between two places.
\<close>

definition word_spans :: "string \<Rightarrow> (nat \<times> nat) set" where
  "word_spans buf = {(q, eq). token_ok buf (q, eq) \<and> (q = 0 \<or> \<not> word_char (buf ! (q - 1)))}"

definition words_from :: "string \<Rightarrow> nat \<Rightarrow> nat \<Rightarrow> (nat \<times> nat) set" where
  "words_from buf s s' = {(q, eq) \<in> word_spans buf. s \<le> q \<and> q < s'}"

text \<open>A place that is not inside a word.\<close>

definition boundary :: "string \<Rightarrow> nat \<Rightarrow> bool" where
  "boundary buf s \<longleftrightarrow> s \<le> length buf \<and> (s = 0 \<or> s = length buf \<or> \<not> word_char (buf ! (s - 1)) \<or> \<not> word_char (buf ! s))"

text \<open>The redirections that the parser makes, and the commands in which it stores arguments.\<close>

fun modes_ok :: "cmd \<Rightarrow> bool" where
  "modes_ok (Execcmd as) \<longleftrightarrow> True"
| "modes_ok (Redircmd c q eq mode fd) \<longleftrightarrow> modes_ok c \<and> (mode = O_RDONLY \<and> fd = 0 \<or> mode = or O_WRONLY O_CREATE \<and> fd = 1)"
| "modes_ok (Pipecmd c d) \<longleftrightarrow> modes_ok c \<and> modes_ok d"
| "modes_ok (Listcmd c d) \<longleftrightarrow> modes_ok c \<and> modes_ok d"
| "modes_ok (Backcmd c) \<longleftrightarrow> modes_ok c"

fun exec_node :: "cmd \<Rightarrow> bool" where
  "exec_node (Execcmd as) \<longleftrightarrow> True"
| "exec_node (Redircmd c q eq mode fd) \<longleftrightarrow> exec_node c"
| "exec_node c \<longleftrightarrow> False"

definition fits :: "string \<Rightarrow> nat \<Rightarrow> nat \<Rightarrow> cmd \<Rightarrow> bool" where
  "fits buf s s' c \<longleftrightarrow> s \<le> s' \<and> boundary buf s' \<and> distinct (tokens c) \<and> set (tokens c) = words_from buf s s' \<and> modes_ok c"

definition blank :: "string \<Rightarrow> nat \<Rightarrow> nat \<Rightarrow> bool" where
  "blank buf s s' \<longleftrightarrow> s \<le> s' \<and> boundary buf s' \<and> words_from buf s s' = {}"

lemma words_split: "s \<le> s' \<Longrightarrow> s' \<le> s'' \<Longrightarrow> words_from buf s s'' = words_from buf s s' \<union> words_from buf s' s''"
  "words_from buf s s' \<inter> words_from buf s' s'' = {}"
  by (auto simp: words_from_def)

lemma words_none: "(\<And>i. s \<le> i \<Longrightarrow> i < s' \<Longrightarrow> i < length buf \<Longrightarrow> \<not> word_char (buf ! i)) \<Longrightarrow> words_from buf s s' = {}"
  by (force simp: words_from_def word_spans_def token_ok_def)

lemma blank_trans: "blank buf s s1 \<Longrightarrow> blank buf s1 s2 \<Longrightarrow> blank buf s s2"
  using words_split(1) [of s s1 s2 buf] by (simp add: blank_def)

lemma fits_blank: "fits buf s s1 c \<Longrightarrow> blank buf s1 s2 \<Longrightarrow> fits buf s s2 c"
  using words_split(1) [of s s1 s2 buf] by (simp add: blank_def fits_def)

lemma blank_fits: "blank buf s s1 \<Longrightarrow> fits buf s1 s2 c \<Longrightarrow> fits buf s s2 c"
  using words_split(1) [of s s1 s2 buf] by (simp add: blank_def fits_def)

lemma fits_pair: "fits buf s s1 c \<Longrightarrow> fits buf s1 s2 d \<Longrightarrow> fits buf s s2 (Pipecmd c d) \<and> fits buf s s2 (Listcmd c d)"
  using words_split(1) [of s s1 s2 buf] words_split(2) [of buf s s1 s2] by (simp add: fits_def)

lemma fits_back: "fits buf s s1 c \<Longrightarrow> fits buf s s1 (Backcmd c)"
  by (simp add: fits_def)

lemma skip_blank:
  assumes "boundary buf s"
  shows "blank buf s (skip_space buf s)"
proof -
  let ?q = "skip_space buf s"
  have w: "\<not> word_char (buf ! i)" if "s \<le> i" "i < ?q" for i
    using skip_while_all [OF that] by (simp add: word_char_def)
  have q: "s \<le> ?q" "?q \<le> length buf" using assms skip_while_ge skip_while_le by (auto simp: boundary_def)
  have "boundary buf ?q"
  proof (cases "?q = s")
    case False
    then have "s \<le> ?q - 1" "?q - 1 < ?q" using q by auto
    from w [OF this] show ?thesis using q by (simp add: boundary_def)
  qed (use assms in simp)
  then show ?thesis using q w words_none [of s ?q buf] by (simp add: blank_def)
qed

lemma peek_blank: "peek buf s toks = (r, s1) \<Longrightarrow> boundary buf s \<Longrightarrow> blank buf s s1"
  using skip_blank by (auto simp: peek_def Let_def)

lemma gettoken_parts:
  assumes "gettoken buf s = (tok, q, eq, s')"
  shows "q = skip_space buf s" "token_at buf q = (tok, eq)" "s' = skip_space buf eq"
  using assms by (auto simp: gettoken_def Let_def split: prod.splits)

lemma gettoken_blank:
  assumes "gettoken buf s = (tok, q, eq, s')" "boundary buf s" "tok \<noteq> CHR ''a''"
  shows "blank buf s s'"
proof -
  note p = gettoken_parts [OF assms(1)]
  have q: "blank buf s q" using skip_blank [OF assms(2)] p(1) by simp
  have sym: "\<not> word_char (buf ! i)" if "q \<le> i" "i < eq" for i
    using p(2) assms(3) that by (auto simp: token_at_def Let_def byte_at_def word_char_def symbols_def le_Suc_eq less_Suc_eq split: if_splits)
  have le: "q \<le> eq" "eq \<le> length buf" using token_at_bounds [OF p(2)] q by (auto simp: blank_def boundary_def)
  have "boundary buf eq"
  proof (cases "eq = q")
    case False
    then have "q \<le> eq - 1" "eq - 1 < eq" using le by auto
    from sym [OF this] show ?thesis using le by (simp add: boundary_def)
  qed (use q in \<open>simp add: blank_def\<close>)
  then have "blank buf q eq" using le words_none [of q eq buf] sym by (simp add: blank_def)
  then show ?thesis using q p(3) skip_blank [OF \<open>boundary buf eq\<close>] blank_trans by blast
qed

lemma gettoken_takes:
  assumes "gettoken buf s = (CHR ''a'', q, eq, s')" "boundary buf s"
  shows "words_from buf s s' = {(q, eq)}" "s \<le> s'" "boundary buf s'"
proof -
  note p = gettoken_parts [OF assms(1)]
  have q: "blank buf s q" using skip_blank [OF assms(2)] p(1) by simp
  have t: "token_ok buf (q, eq)" using gettoken_word [OF assms(1)] assms(2) by (simp add: boundary_def)
  then have wc: "q < eq" "eq \<le> length buf" "\<And>i. q \<le> i \<Longrightarrow> i < eq \<Longrightarrow> word_char (buf ! i)" "eq < length buf \<Longrightarrow> \<not> word_char (buf ! eq)"
    by (auto simp: token_ok_def)
  then have "(q, eq) \<in> word_spans buf" using t q wc(3) [of q] by (auto simp: word_spans_def blank_def boundary_def)
  moreover have "q' = q \<and> e' = eq" if "(q', e') \<in> words_from buf q eq" for q' e'
  proof -
    have w: "q \<le> q'" "q' < eq" "token_ok buf (q', e')" "q' = 0 \<or> \<not> word_char (buf ! (q' - 1))"
      using that by (auto simp: words_from_def word_spans_def)
    have e: "q' = q"
    proof (rule ccontr)
      assume "q' \<noteq> q"
      then have "q \<le> q' - 1" "q' - 1 < eq" using w by auto
      then show False using wc(3) w(1,4) \<open>q' \<noteq> q\<close> by auto
    qed
    have w': "e' \<le> length buf" "\<And>i. q \<le> i \<Longrightarrow> i < e' \<Longrightarrow> word_char (buf ! i)" "e' < length buf \<Longrightarrow> \<not> word_char (buf ! e')" "q < e'"
      using w(3) by (auto simp: token_ok_def e)
    have "\<not> e' < eq" using w'(3,4) wc(2) wc(3) [of e'] by fastforce
    moreover have "\<not> eq < e'" using w'(1) w'(2) [of eq] wc(1,4) by fastforce
    ultimately show ?thesis using e by simp
  qed
  ultimately have "words_from buf q eq = {(q, eq)}" using wc(1) by (auto simp: words_from_def)
  moreover have b: "boundary buf eq" using wc by (auto simp: boundary_def)
  ultimately show "words_from buf s s' = {(q, eq)}" "s \<le> s'" "boundary buf s'"
    using q skip_blank [OF b] wc(1) words_split(1) [of s q s' buf] words_split(1) [of q eq s' buf] by (auto simp: blank_def p(3))
qed

lemma peek_symbol:
  assumes "peek buf s toks = (True, s1)" "gettoken buf s1 = (tok, q, eq, s2)" "set toks \<subseteq> set symbols"
  shows "tok \<noteq> CHR ''a''" "toks = ''<>'' \<Longrightarrow> tok \<in> {CHR ''<'', CHR ''>'', CHR ''+''}"
proof -
  have "byte_at buf s1 \<in> set toks" using peek_bounds(4) [OF assms(1)] by simp
  moreover have "token_at buf s1 = (tok, eq)" using gettoken_parts(2) [OF assms(2)] peek_gettoken(1) [OF assms(1,2)] by simp
  ultimately show "tok \<noteq> CHR ''a''" "toks = ''<>'' \<Longrightarrow> tok \<in> {CHR ''<'', CHR ''>'', CHR ''+''}"
    using assms(3) by (auto simp: token_at_def Let_def symbols_def split: if_splits)
qed

text \<open>The token behind a symbol that was peeked.\<close>

lemma symbol_blank:
  assumes "peek buf s toks = (True, s1)" "gettoken buf s1 = (tok, q, eq, s2)" "set toks \<subseteq> set symbols" "boundary buf s"
  shows "blank buf s s2"
proof -
  have b: "blank buf s s1" using peek_blank [OF assms(1,4)] .
  then have "boundary buf s1" by (simp add: blank_def)
  then show ?thesis using blank_trans [OF b] gettoken_blank [OF assms(2)] peek_symbol(1) [OF assms(1-3)] by blast
qed

lemma fits_boundary: "fits buf s s' c \<Longrightarrow> boundary buf s'"
  by (simp add: fits_def)

lemma fits_take:
  assumes "fits buf s s1 c" "gettoken buf s1 = (CHR ''a'', q, eq, s2)" "set (tokens d) = insert (q, eq) (set (tokens c))"
    "(q, eq) \<notin> set (tokens c) \<Longrightarrow> distinct (tokens c) \<Longrightarrow> distinct (tokens d)" "modes_ok c \<Longrightarrow> modes_ok d"
  shows "fits buf s s2 d"
proof -
  note t = gettoken_takes [OF assms(2) fits_boundary [OF assms(1)]]
  have "s \<le> s1" using assms(1) by (simp add: fits_def)
  then show ?thesis using assms t words_split(1) [of s s1 s2 buf] words_split(2) [of buf s s1 s2] by (auto simp: fits_def)
qed

lemma tokens_add_arg: "exec_node c \<Longrightarrow> set (tokens (add_arg a c)) = insert a (set (tokens c)) \<and> exec_node (add_arg a c) \<and>
    modes_ok (add_arg a c) = modes_ok c \<and> (a \<notin> set (tokens c) \<longrightarrow> distinct (tokens c) \<longrightarrow> distinct (tokens (add_arg a c)))"
  by (induction a c rule: add_arg.induct) auto

lemma parseredirs_fits:
  "fits buf s0 s c \<Longrightarrow> parseredirs c buf s = Parsed (c', s') \<Longrightarrow> fits buf s0 s' c' \<and> (exec_node c \<longrightarrow> exec_node c')"
proof (induction c buf s rule: parseredirs.induct)
  case (1 c buf s)
  obtain r s1 where p: "peek buf s ''<>'' = (r, s1)" by fastforce
  show ?case
  proof (cases r)
    case False
    then show ?thesis using p 1(3) fits_blank [OF 1(2) peek_blank [OF p fits_boundary [OF 1(2)]]] by (simp add: parseredirs.simps [of c buf s])
  next
    case True
    obtain tok q1 e1 s2 where g1: "gettoken buf s1 = (tok, q1, e1, s2)" by (metis prod_cases4)
    obtain t q eq s3 where g2: "gettoken buf s2 = (t, q, eq, s3)" by (metis prod_cases4)
    have r: "t = CHR ''a''" "parseredirs (redir_of tok c q eq) buf s3 = Parsed (c', s')"
      using 1(3) p True g1 g2 by (auto simp: parseredirs.simps [of c buf s] split: if_splits)
    have sy: "set ''<>'' \<subseteq> set symbols" by (simp add: symbols_def)
    have tok: "tok \<in> {CHR ''<'', CHR ''>'', CHR ''+''}" using peek_symbol(2) [OF _ g1 sy] p True by simp
    have "fits buf s0 s2 c" using fits_blank [OF 1(2)] symbol_blank [OF _ g1 sy fits_boundary [OF 1(2)]] p True by simp
    then have "fits buf s0 s3 (redir_of tok c q eq)"
      by (rule fits_take) (use g2 r(1) tok in \<open>auto simp: redir_of_def\<close>)
    from 1(1) [OF p [symmetric] True g1 [symmetric] refl refl g2 [symmetric] refl refl _ this r(2)] r(1) tok
    show ?thesis by (auto simp: redir_of_def)
  qed
qed

lemma parse_backs_fits: "fits buf s0 s c \<Longrightarrow> parse_backs c buf s = (c', s') \<Longrightarrow> fits buf s0 s' c'"
proof (induction c buf s rule: parse_backs.induct)
  case (1 c buf s)
  obtain r s1 where p: "peek buf s ''&'' = (r, s1)" by fastforce
  show ?case
  proof (cases r)
    case False
    then show ?thesis using p 1(3) fits_blank [OF 1(2) peek_blank [OF p fits_boundary [OF 1(2)]]] by (simp add: parse_backs.simps [of c buf s])
  next
    case True
    obtain tok q1 e1 s2 where g1: "gettoken buf s1 = (tok, q1, e1, s2)" by (metis prod_cases4)
    have sy: "set ''&'' \<subseteq> set symbols" by (simp add: symbols_def)
    have "fits buf s0 s2 (Backcmd c)"
      using fits_back [OF fits_blank [OF 1(2)]] symbol_blank [OF _ g1 sy fits_boundary [OF 1(2)]] p True by simp
    then show ?thesis
      using 1(1) [OF p [symmetric] True g1 [symmetric] refl refl] 1(3) p True g1 by (simp add: parse_backs.simps [of c buf s])
  qed
qed

lemma parse_args_fits:
  "fits buf s0 s c \<Longrightarrow> exec_node c \<Longrightarrow> parse_args n c buf s = Parsed (c', s') \<Longrightarrow> fits buf s0 s' c'"
proof (induction n c buf s rule: parse_args.induct)
  case (1 n c buf s)
  obtain r s1 where p: "peek buf s ''|)&;'' = (r, s1)" by fastforce
  obtain tok q eq s2 where g: "gettoken buf s1 = (tok, q, eq, s2)" by (metis prod_cases4)
  have f1: "fits buf s0 s1 c" using fits_blank [OF 1(2)] peek_blank [OF p] fits_boundary [OF 1(2)] by blast
  show ?case
  proof (cases "\<not> r \<and> tok = CHR ''a''")
    case True
    then have n: "\<not> MAXARGS \<le> n + 1" using 1(4) p g by (auto simp: parse_args.simps [of n c buf s] split: if_splits)
    obtain c1 s3 where c1: "parseredirs (add_arg (q, eq) c) buf s2 = Parsed (c1, s3)" "parse_args (n + 1) c1 buf s3 = Parsed (c', s')"
      using 1(4) p g True n by (cases "parseredirs (add_arg (q, eq) c) buf s2") (auto simp: parse_args.simps [of n c buf s])
    have "fits buf s0 s2 (add_arg (q, eq) c)" by (rule fits_take [OF f1]) (use g True tokens_add_arg [OF 1(3)] in auto)
    from parseredirs_fits [OF this c1(1)] tokens_add_arg [OF 1(3)] have "fits buf s0 s3 c1" "exec_node c1" by auto
    then show ?thesis
      using 1(1) [OF p [symmetric] _ g [symmetric] refl refl _ _ n _ _ c1(2)] True by simp
  next
    case False
    then have "tok = NUL \<and> c' = c \<and> s' = s2 \<or> c' = c \<and> s' = s1"
      using 1(4) p g by (auto simp: parse_args.simps [of n c buf s] split: if_splits)
    then show ?thesis using f1 fits_blank [OF f1 gettoken_blank [OF g fits_boundary [OF f1]]] by auto
  qed
qed

lemma fits_none: "boundary buf s \<Longrightarrow> fits buf s s (Execcmd [])"
  by (auto simp: fits_def words_from_def)

lemma parseline_fits:
  assumes P: "\<And>c s1. parsepipe k buf s = Parsed (c, s1) \<Longrightarrow> fits buf s s1 c"
    and L: "\<And>s c s'. parseline k buf s = Parsed (c, s') \<Longrightarrow> boundary buf s \<Longrightarrow> fits buf s s' c"
    and e: "parseline (Suc k) buf s = Parsed (c, s')"
  shows "fits buf s s' c"
proof -
  obtain c1 s1 where p1: "parsepipe k buf s = Parsed (c1, s1)" using e by (cases "parsepipe k buf s") auto
  obtain c2 s2 where p2: "parse_backs c1 buf s1 = (c2, s2)" by fastforce
  obtain r s3 where p3: "peek buf s2 '';'' = (r, s3)" by fastforce
  obtain tok q eq s4 where g: "gettoken buf s3 = (tok, q, eq, s4)" by (metis prod_cases4)
  have f: "fits buf s s2 c2" using parse_backs_fits [OF P [OF p1] p2] .
  show ?thesis
  proof (cases r)
    case True
    obtain d where d: "parseline k buf s4 = Parsed (d, s')" "c = Listcmd c2 d"
      using e p1 p2 p3 g True by (cases "parseline k buf s4") auto
    have "blank buf s2 s4"
      by (rule symbol_blank [OF p3 [unfolded eqTrueI [OF True]] g _ fits_boundary [OF f]]) (simp add: symbols_def)
    note f4 = fits_blank [OF f this]
    show ?thesis using fits_pair [OF f4 L [OF d(1) fits_boundary [OF f4]]] d(2) by simp
  next
    case False
    then show ?thesis using e p1 p2 p3 fits_blank [OF f peek_blank [OF p3 fits_boundary [OF f]]] by simp
  qed
qed

lemma parsepipe_fits:
  assumes P: "\<And>c s1. parseexec k buf s = Parsed (c, s1) \<Longrightarrow> fits buf s s1 c"
    and L: "\<And>s c s'. parsepipe k buf s = Parsed (c, s') \<Longrightarrow> boundary buf s \<Longrightarrow> fits buf s s' c"
    and e: "parsepipe (Suc k) buf s = Parsed (c, s')"
  shows "fits buf s s' c"
proof -
  obtain c1 s1 where p1: "parseexec k buf s = Parsed (c1, s1)" using e by (cases "parseexec k buf s") auto
  obtain r s3 where p3: "peek buf s1 ''|'' = (r, s3)" by fastforce
  obtain tok q eq s4 where g: "gettoken buf s3 = (tok, q, eq, s4)" by (metis prod_cases4)
  note f = P [OF p1]
  show ?thesis
  proof (cases r)
    case True
    obtain d where d: "parsepipe k buf s4 = Parsed (d, s')" "c = Pipecmd c1 d"
      using e p1 p3 g True by (cases "parsepipe k buf s4") auto
    have "blank buf s1 s4"
      by (rule symbol_blank [OF p3 [unfolded eqTrueI [OF True]] g _ fits_boundary [OF f]]) (simp add: symbols_def)
    note f4 = fits_blank [OF f this]
    show ?thesis using fits_pair [OF f4 L [OF d(1) fits_boundary [OF f4]]] d(2) by simp
  next
    case False
    then show ?thesis using e p1 p3 fits_blank [OF f peek_blank [OF p3 fits_boundary [OF f]]] by simp
  qed
qed

lemma parseexec_fits:
  assumes B: "\<And>s c s'. parseblock k buf s = Parsed (c, s') \<Longrightarrow> boundary buf s \<Longrightarrow> fits buf s s' c"
    and e: "parseexec (Suc k) buf s = Parsed (c, s')" and bs: "boundary buf s"
  shows "fits buf s s' c"
proof -
  obtain r s1 where p: "peek buf s ''('' = (r, s1)" by fastforce
  have b: "blank buf s s1" using peek_blank [OF p bs] .
  then have bs1: "boundary buf s1" by (simp add: blank_def)
  show ?thesis
  proof (cases r)
    case True
    then show ?thesis using e p blank_fits [OF b B [OF _ bs1]] by simp
  next
    case False
    obtain c1 s2 where c1: "parseredirs (Execcmd []) buf s1 = Parsed (c1, s2)" "parse_args 0 c1 buf s2 = Parsed (c, s')"
      using e p False by (cases "parseredirs (Execcmd []) buf s1") auto
    show ?thesis using parseredirs_fits [OF blank_fits [OF b fits_none [OF bs1]] c1(1)] parse_args_fits [OF _ _ c1(2)] by simp
  qed
qed

lemma parseblock_fits:
  assumes L: "\<And>s c s'. parseline k buf s = Parsed (c, s') \<Longrightarrow> boundary buf s \<Longrightarrow> fits buf s s' c"
    and e: "parseblock (Suc k) buf s = Parsed (c, s')" and bs: "boundary buf s"
  shows "fits buf s s' c"
proof -
  obtain r s1 where p1: "peek buf s ''('' = (r, s1)" by fastforce
  obtain tok q eq s2 where g1: "gettoken buf s1 = (tok, q, eq, s2)" by (metis prod_cases4)
  have r: r using e p1 by (cases r) auto
  obtain c1 s3 where c1: "parseline k buf s2 = Parsed (c1, s3)" using e p1 g1 r by (cases "parseline k buf s2") auto
  obtain r' s4 where p2: "peek buf s3 '')'' = (r', s4)" by fastforce
  obtain tok' q' eq' s5 where g2: "gettoken buf s4 = (tok', q', eq', s5)" by (metis prod_cases4)
  have r': r' using e p1 g1 r c1 p2 by (cases r') auto
  have c: "parseredirs c1 buf s5 = Parsed (c, s')" using e p1 g1 r c1 p2 g2 r' by simp
  have sy: "set ''('' \<subseteq> set symbols" "set '')'' \<subseteq> set symbols" by (simp_all add: symbols_def)
  have b: "blank buf s s2" using symbol_blank [OF p1 [unfolded eqTrueI [OF r]] g1 sy(1) bs] .
  then have "boundary buf s2" by (simp add: blank_def)
  note f = blank_fits [OF b L [OF c1 this]]
  note f5 = fits_blank [OF f symbol_blank [OF p2 [unfolded eqTrueI [OF r']] g2 sy(2) fits_boundary [OF f]]]
  show ?thesis using parseredirs_fits [OF f5 c] by simp
qed

lemma parse_fits:
  "parseline k buf s = Parsed (c, s') \<Longrightarrow> boundary buf s \<Longrightarrow> fits buf s s' c"
  "parsepipe k buf s = Parsed (c, s') \<Longrightarrow> boundary buf s \<Longrightarrow> fits buf s s' c"
  "parseexec k buf s = Parsed (c, s') \<Longrightarrow> boundary buf s \<Longrightarrow> fits buf s s' c"
  "parseblock k buf s = Parsed (c, s') \<Longrightarrow> boundary buf s \<Longrightarrow> fits buf s s' c"
proof (induction k arbitrary: s c s')
  case (Suc k)
  { case 1 show ?case by (rule parseline_fits [OF Suc.IH(2) [OF _ 1(2)] Suc.IH(1) 1(1)])
  next case 2 show ?case by (rule parsepipe_fits [OF Suc.IH(3) [OF _ 2(2)] Suc.IH(2) 2(1)])
  next case 3 show ?case by (rule parseexec_fits [OF Suc.IH(4) 3])
  next case 4 show ?case by (rule parseblock_fits [OF Suc.IH(1) 4]) }
qed simp_all

section \<open>The strings that exec and open see\<close>

text \<open>The string at an address in the memory of the line, up to its NUL; and the text between two addresses of the line.\<close>

definition str_at :: "string \<Rightarrow> nat \<times> nat \<Rightarrow> string" where
  "str_at mem = (\<lambda>(q, eq). takeWhile (\<lambda>c. c \<noteq> NUL) (drop q mem))"

definition sub :: "string \<Rightarrow> nat \<times> nat \<Rightarrow> string" where
  "sub buf = (\<lambda>(q, eq). take (eq - q) (drop q buf))"

lemma fold_nul: "length (fold (\<lambda>(q, eq) mem. mem[eq := NUL]) as mem) = length mem"
  "i < length mem \<Longrightarrow> fold (\<lambda>(q, eq) mem. mem[eq := NUL]) as mem ! i = (if i \<in> snd ` set as then NUL else mem ! i)"
  by (induction as arbitrary: mem) (auto simp: nth_upd, force)

lemma nulterminate_nth: "length (nulterminate c mem) = length mem"
  "i < length mem \<Longrightarrow> nulterminate c mem ! i = (if i \<in> snd ` set (tokens c) then NUL else mem ! i)"
  by (induction c arbitrary: mem) (auto simp: fold_nul nth_upd)

lemma nulterminate_str_at:
  assumes ok: "cmd_ok buf c" and n: "NUL \<notin> set buf" and a: "a \<in> set (tokens c)"
  shows "str_at (nulterminate c (buf @ [NUL])) a = sub buf a"
proof -
  obtain q eq where qe: "a = (q, eq)" by fastforce
  define mem where "mem = nulterminate c (buf @ [NUL])"
  have l: "length mem = length buf + 1" by (simp add: mem_def nulterminate_nth)
  have t: "q < eq" "eq \<le> length buf" "\<And>i. q \<le> i \<Longrightarrow> i < eq \<Longrightarrow> word_char (buf ! i)"
    using ok a qe by (auto simp: cmd_ok_def token_ok_def)
  have w: "\<not> word_char (buf ! i)" if "i \<in> snd ` set (tokens c)" "i < length buf" for i
    using ok that by (auto simp: cmd_ok_def token_ok_def)
  have m: "mem ! i = buf ! i" if "q \<le> i" "i < eq" for i
    using nulterminate_nth(2) [of i "buf @ [NUL]" c] w [of i] t that by (auto simp: mem_def nth_append)
  have "eq \<in> snd ` set (tokens c)" using a qe by force
  then have z: "mem ! eq = NUL" using nulterminate_nth(2) [of eq "buf @ [NUL]" c] t by (simp add: mem_def)
  have nz: "buf ! i \<noteq> NUL" if "i < length buf" for i using n that by (metis nth_mem)
  have "takeWhile (\<lambda>c. c \<noteq> NUL) (drop q mem) = take (eq - q) (drop q mem)"
    by (rule takeWhile_eq_take_P_nth) (use t m z nz l in auto)
  also have "take (eq - q) (drop q mem) = take (eq - q) (drop q buf)"
    by (rule nth_equalityI) (use t m l in auto)
  finally show ?thesis by (simp add: str_at_def sub_def qe mem_def)
qed

section \<open>Commands as they are written\<close>

text \<open>
  The commands of the shell with their strings; \<open>In\<close> is a redirection \<open><\<close>, \<open>Out\<close> is \<open>>\<close>. What a parsed command means, by the way its
  strings are read.
\<close>

datatype dir = In | Out

datatype sh_tree =
    TExec "string list"
  | TRedir sh_tree dir string
  | TPipe sh_tree sh_tree
  | TList sh_tree sh_tree
  | TBack sh_tree

definition dir_of :: "int \<Rightarrow> int \<Rightarrow> dir" where
  "dir_of mode fd = (if mode = O_RDONLY \<and> fd = 0 then In else Out)"

fun tree_of :: "(nat \<times> nat \<Rightarrow> string) \<Rightarrow> cmd \<Rightarrow> sh_tree" where
  "tree_of f (Execcmd as) = TExec (map f as)"
| "tree_of f (Redircmd c q eq mode fd) = TRedir (tree_of f c) (dir_of mode fd) (f (q, eq))"
| "tree_of f (Pipecmd c d) = TPipe (tree_of f c) (tree_of f d)"
| "tree_of f (Listcmd c d) = TList (tree_of f c) (tree_of f d)"
| "tree_of f (Backcmd c) = TBack (tree_of f c)"

lemma tree_of_cong: "(\<And>a. a \<in> set (tokens c) \<Longrightarrow> f a = g a) \<Longrightarrow> tree_of f c = tree_of g c"
  by (induction c) auto

text \<open>
  Printing, with a space after every token. The levels of the grammar are 0 for \<open>parseexec\<close>, 1 for \<open>parsepipe\<close>, 2 for what stands before
  \<open>&\<close> and \<open>;\<close>, and 3 for \<open>parseline\<close>; a command of a higher level is put in parentheses.
\<close>

definition dir_char :: "dir \<Rightarrow> char" where
  "dir_char d = (case d of In \<Rightarrow> CHR ''<'' | Out \<Rightarrow> CHR ''>'')"

definition paren :: "bool \<Rightarrow> string \<Rightarrow> string" where
  "paren b xs = (if b then ''( '' @ xs @ '') '' else xs)"

definition words :: "string list \<Rightarrow> string" where
  "words ws = concat (map (\<lambda>w. w @ '' '') ws)"

fun print_sh :: "nat \<Rightarrow> sh_tree \<Rightarrow> string" where
  "print_sh l (TExec ws) = words ws"
| "print_sh l (TRedir t d w) = print_sh 0 t @ dir_char d # '' '' @ w @ '' ''"
| "print_sh l (TPipe t u) = paren (l < 1) (print_sh 0 t @ ''| '' @ print_sh 1 u)"
| "print_sh l (TBack t) = paren (l < 2) (print_sh 2 t @ ''& '')"
| "print_sh l (TList t u) = paren (l < 3) (print_sh 2 t @ ''; '' @ print_sh 3 u)"

definition is_word :: "string \<Rightarrow> bool" where
  "is_word w \<longleftrightarrow> w \<noteq> [] \<and> (\<forall>c \<in> set w. word_char c \<and> c \<noteq> NUL)"

fun wf_tree :: "sh_tree \<Rightarrow> bool" where
  "wf_tree (TExec ws) \<longleftrightarrow> length ws < MAXARGS \<and> (\<forall>w \<in> set ws. is_word w)"
| "wf_tree (TRedir t d w) \<longleftrightarrow> wf_tree t \<and> is_word w"
| "wf_tree (TPipe t u) \<longleftrightarrow> wf_tree t \<and> wf_tree u"
| "wf_tree (TList t u) \<longleftrightarrow> wf_tree t \<and> wf_tree u"
| "wf_tree (TBack t) \<longleftrightarrow> wf_tree t"

section \<open>Reading what is at a position\<close>

definition at :: "string \<Rightarrow> nat \<Rightarrow> string \<Rightarrow> bool" where
  "at buf s xs \<longleftrightarrow> NUL \<notin> set buf \<and> s \<le> length buf \<and> drop s buf = xs"

definition starts :: "string \<Rightarrow> bool" where
  "starts xs \<longleftrightarrow> xs = [] \<or> hd xs \<notin> set whitespace"

lemma at_append: "at buf s (xs @ ys) \<Longrightarrow> at buf (s + length xs) ys"
proof -
  assume a: "at buf s (xs @ ys)"
  then have "length (drop s buf) = length xs + length ys" by (simp add: at_def)
  moreover have "drop (length xs) (drop s buf) = ys" using a by (simp add: at_def)
  ultimately show ?thesis using a by (auto simp: at_def add.commute)
qed

lemma at_Cons: "at buf s (x # ys) \<Longrightarrow> at buf (s + 1) ys"
  using at_append [of buf s "[x]" ys] by simp

lemma at_nth: "at buf s xs \<Longrightarrow> byte_at buf s = (if xs = [] then NUL else hd xs) \<and> length buf = s + length xs \<and> NUL \<notin> set xs"
  by (auto simp: at_def byte_at_def hd_drop_conv_nth dest: in_set_dropD)

lemma at_skip: "at buf s (xs @ ys) \<Longrightarrow> \<forall>c \<in> set xs. P c \<Longrightarrow> ys = [] \<or> \<not> P (hd ys) \<Longrightarrow> skip_while P buf s = s + length xs"
proof -
  assume a: "at buf s (xs @ ys)" "\<forall>c \<in> set xs. P c" "ys = [] \<or> \<not> P (hd ys)"
  then have "takeWhile P (xs @ ys) = xs" by (cases ys) (simp_all add: takeWhile_append)
  then show ?thesis using a(1) by (simp add: at_def skip_while_eq)
qed

lemma at_skip0: "at buf s ys \<Longrightarrow> ys = [] \<or> \<not> P (hd ys) \<Longrightarrow> skip_while P buf s = s"
  using at_skip [of buf s "[]" ys P] by simp

lemma at_peek: "at buf s xs \<Longrightarrow> starts xs \<Longrightarrow> peek buf s toks = (xs \<noteq> [] \<and> hd xs \<in> set toks, s)"
  using at_nth [of buf s xs] at_skip0 [of buf s xs] by (cases xs) (auto simp: peek_def starts_def)

lemma space_white: "CHR '' '' \<in> set whitespace"
  by (simp add: whitespace_def)

lemma at_space: "at buf s ('' '' @ rest) \<Longrightarrow> starts rest \<Longrightarrow> skip_space buf s = s + 1"
  using at_skip [of buf s "'' ''" rest "\<lambda>c. c \<in> set whitespace"] space_white by (auto simp: starts_def)

lemma symbols_black: "c \<in> set symbols \<Longrightarrow> c \<notin> set whitespace"
  by (auto simp: symbols_def whitespace_def)

lemma at_symbol:
  assumes a: "at buf s (c # '' '' @ rest)" and c: "c \<in> set symbols" and r: "starts rest"
  shows "gettoken buf s = (c, s, s + 1, s + 2)" "at buf (s + 2) rest"
proof -
  have a1: "at buf (s + 1) ('' '' @ rest)" using at_Cons a by simp
  have s: "skip_space buf s = s" using at_skip0 [OF a] symbols_black [OF c] by simp
  have t: "token_at buf s = (c, s + 1)"
    using at_nth [OF a] at_nth [OF a1] c by (auto simp: token_at_def Let_def symbols_def)
  show "gettoken buf s = (c, s, s + 1, s + 2)" using s t at_space [OF a1 r] by (simp add: gettoken_def)
  show "at buf (s + 2) rest" using at_append [OF a1] by simp
qed

lemma at_word:
  assumes a: "at buf s (w @ '' '' @ rest)" and w: "is_word w" and r: "starts rest"
  shows "gettoken buf s = (CHR ''a'', s, s + length w, s + length w + 1)" "at buf (s + length w + 1) rest"
    "sub buf (s, s + length w) = w" "starts (w @ ys)" "hd (w @ ys) \<notin> set symbols"
proof -
  have w': "w \<noteq> []" "\<forall>c \<in> set w. word_char c" "hd w \<noteq> NUL" "word_char (hd w)" using w by (auto simp: is_word_def)
  then show "starts (w @ ys)" "hd (w @ ys) \<notin> set symbols" by (auto simp: starts_def word_char_def)
  have a1: "at buf (s + length w) ('' '' @ rest)" using at_append a by blast
  have s: "skip_space buf s = s" using at_skip0 [OF a] w' by (auto simp: word_char_def)
  have e: "skip_while word_char buf s = s + length w"
    by (rule at_skip [OF a]) (use w' space_white in \<open>auto simp: word_char_def\<close>)
  have "byte_at buf s = hd w" using at_nth [OF a] w' by simp
  then have t: "token_at buf s = (CHR ''a'', s + length w)"
    using w' e by (auto simp: token_at_def Let_def word_char_def symbols_def)
  show "gettoken buf s = (CHR ''a'', s, s + length w, s + length w + 1)" using s t at_space [OF a1 r] by (simp add: gettoken_def)
  show "at buf (s + length w + 1) rest" using at_append [OF a1] by simp
  show "sub buf (s, s + length w) = w" using a by (simp add: sub_def at_def)
qed


section \<open>The parser reads what is printed\<close>

fun wrap :: "sh_tree \<Rightarrow> (dir \<times> string) list \<Rightarrow> sh_tree" where
  "wrap t [] = t"
| "wrap t ((d, w) # rs) = wrap (TRedir t d w) rs"

definition redirs :: "(dir \<times> string) list \<Rightarrow> string" where
  "redirs rs = concat (map (\<lambda>(d, w). dir_char d # '' '' @ w @ '' '') rs)"

definition follow :: "string \<Rightarrow> string \<Rightarrow> bool" where
  "follow F rest \<longleftrightarrow> rest = [] \<or> hd rest \<in> set F"

lemma follow_starts: "follow F rest \<Longrightarrow> set F \<subseteq> set symbols \<Longrightarrow> starts rest"
  using symbols_black by (auto simp: follow_def starts_def)

lemma words_simps [simp]: "words [] = []" "words (w # ws) = w @ '' '' @ words ws"
  by (simp_all add: words_def)

lemma redirs_simps [simp]: "redirs [] = []" "redirs ((d, w) # rs) = dir_char d # '' '' @ w @ '' '' @ redirs rs"
  by (simp_all add: redirs_def)

lemma wrap_append: "wrap t (rs @ [(d, w)]) = TRedir (wrap t rs) d w"
  by (induction t rs rule: wrap.induct) auto

lemma unwrap_base: "\<forall>u d w. t \<noteq> TRedir u d w \<Longrightarrow> \<exists>b rs. t = wrap b rs \<and> (\<forall>u d w. b \<noteq> TRedir u d w)"
  by (intro exI [of _ t] exI [of _ "[]"]) simp

lemma unwrap: "\<exists>b rs. t = wrap b rs \<and> (\<forall>u d w. b \<noteq> TRedir u d w)"
proof (induction t)
  case (TRedir t d w)
  then obtain b rs where "t = wrap b rs" "\<forall>u d w. b \<noteq> TRedir u d w" by blast
  then show ?case by (intro exI [of _ b] exI [of _ "rs @ [(d, w)]"]) (simp add: wrap_append)
qed (rule unwrap_base, simp)+

lemma print_wrap: "print_sh 0 (wrap t rs) = print_sh 0 t @ redirs rs"
  by (induction t rs rule: wrap.induct) auto

lemma wf_wrap: "wf_tree (wrap t rs) \<longleftrightarrow> wf_tree t \<and> (\<forall>(d, w) \<in> set rs. is_word w)"
  by (induction t rs rule: wrap.induct) auto

lemma size_wrap: "size t \<le> size (wrap t rs)" "rs \<noteq> [] \<Longrightarrow> size t < size (wrap t rs)"
  by (induction t rs rule: wrap.induct) force+

lemma dir_char_symbol: "dir_char d \<in> set symbols" "dir_char d \<in> {CHR ''<'', CHR ''>''}"
  by (cases d; simp add: dir_char_def symbols_def)+

lemma starts_redirs: "starts rest \<Longrightarrow> starts (redirs rs @ rest)"
  using dir_char_symbol symbols_black by (cases rs) (auto simp: starts_def)

lemma starts_word: "is_word w \<Longrightarrow> starts (w @ ys)" "is_word w \<Longrightarrow> hd (w @ ys) \<notin> set symbols"
  by (auto simp: is_word_def starts_def word_char_def)

lemma parseredirs_stop:
  "at buf s xs \<Longrightarrow> starts xs \<Longrightarrow> xs = [] \<or> hd xs \<notin> {CHR ''<'', CHR ''>''} \<Longrightarrow> parseredirs c buf s = Parsed (c, s)"
  by (subst parseredirs.simps) (auto simp: at_peek)

lemma parseredirs_print:
  assumes "at buf s (redirs rs @ rest)" "starts rest" "rest = [] \<or> hd rest \<notin> {CHR ''<'', CHR ''>''}" "\<forall>(d, w) \<in> set rs. is_word w"
  shows "\<exists>c' s'. parseredirs c buf s = Parsed (c', s') \<and> at buf s' rest \<and> tree_of (sub buf) c' = wrap (tree_of (sub buf) c) rs"
  using assms
proof (induction rs arbitrary: c s)
  case Nil then show ?case using parseredirs_stop [of buf s rest c] by auto
next
  case (Cons a rs)
  obtain d w where a: "a = (d, w)" by fastforce
  then have at: "at buf s (dir_char d # '' '' @ (w @ '' '' @ redirs rs @ rest))" and w: "is_word w" using Cons.prems by auto
  have st: "starts (redirs rs @ rest)" using starts_redirs Cons.prems by blast
  note g1 = at_symbol [OF at dir_char_symbol(1) starts_word(1) [OF w]]
  note g2 = at_word [OF g1(2) w st]
  have p: "peek buf s ''<>'' = (True, s)"
    using at_peek [OF at] dir_char_symbol [of d] symbols_black [of "dir_char d"] by (auto simp: starts_def)
  define c1 where "c1 = redir_of (dir_char d) c (s + 2) (s + 2 + length w)"
  have "parseredirs c buf s = parseredirs c1 buf (s + 2 + length w + 1)"
    unfolding c1_def by (subst parseredirs.simps) (simp add: p g1(1) g2(1) del: add_2_eq_Suc')
  moreover have "tree_of (sub buf) c1 = TRedir (tree_of (sub buf) c) d w"
    using g2(3) by (cases d) (simp_all add: c1_def redir_of_def dir_char_def dir_of_def O_RDONLY_def O_WRONLY_def O_CREATE_def)
  ultimately show ?case using Cons.IH [OF g2(2), of c1] Cons.prems a by auto
qed

lemma parse_args_stop:
  assumes "at buf s rest" "follow ''|)&;'' rest"
  shows "parse_args n c buf s = Parsed (c, s)"
proof -
  have st: "starts rest" using follow_starts [OF assms(2)] by (simp add: symbols_def)
  show ?thesis
  proof (cases rest)
    case Nil
    then have "byte_at buf s = NUL" "skip_space buf s = s" using at_nth [OF assms(1)] at_skip0 [OF assms(1)] by auto
    then have "gettoken buf s = (NUL, s, s, s)" by (simp add: gettoken_def token_at_def)
    then show ?thesis using at_peek [OF assms(1) st] Nil by (simp add: parse_args.simps [of n c buf s])
  next
    case (Cons x xs)
    then show ?thesis using at_peek [OF assms(1) st, of "''|)&;''"] assms(2) by (simp add: parse_args.simps [of n c buf s] follow_def)
  qed
qed

lemma parse_args_print:
  assumes "at buf s (words ws @ redirs rs @ rest)" "follow ''|)&;'' rest" "\<forall>w \<in> set ws. is_word w" "\<forall>(d, w) \<in> set rs. is_word w"
    "n + length ws < MAXARGS" "ws \<noteq> []"
  shows "\<exists>c s'. parse_args n (Execcmd as) buf s = Parsed (c, s') \<and> at buf s' rest \<and>
    tree_of (sub buf) c = wrap (TExec (map (sub buf) as @ ws)) rs"
  using assms
proof (induction ws arbitrary: n as s)
  case (Cons w ws)
  have at: "at buf s (w @ '' '' @ (words ws @ redirs rs @ rest))" and w: "is_word w" using Cons.prems by auto
  have rest: "starts rest" "rest = [] \<or> hd rest \<notin> {CHR ''<'', CHR ''>''}"
    using follow_starts [OF Cons.prems(2)] Cons.prems(2) by (auto simp: symbols_def follow_def)
  have st: "starts (words ws @ redirs rs @ rest)"
    using starts_redirs [OF rest(1)] starts_word(1) Cons.prems(3) by (cases ws) auto
  note g = at_word [OF at w st]
  have "w \<noteq> []" using w by (simp add: is_word_def)
  then have p: "peek buf s ''|)&;'' = (False, s)"
    using at_peek [OF at starts_word(1) [OF w], of "''|)&;''"] starts_word(2) [OF w, of "'' '' @ words ws @ redirs rs @ rest"] by (auto simp: symbols_def)
  let ?a = "(s, s + length w)" and ?s = "s + length w + 1"
  have step: "parse_args n (Execcmd as) buf s =
      pthen (parseredirs (Execcmd (as @ [?a])) buf ?s) (\<lambda>(ret, s3). parse_args (n + 1) ret buf s3)"
    using Cons.prems(5) by (subst parse_args.simps) (simp add: p g(1))
  show ?case
  proof (cases ws)
    case Nil
    obtain c s' where c: "parseredirs (Execcmd (as @ [?a])) buf ?s = Parsed (c, s')" "at buf s' rest"
      "tree_of (sub buf) c = wrap (tree_of (sub buf) (Execcmd (as @ [?a]))) rs"
      using parseredirs_print [OF _ rest Cons.prems(4)] g(2) Nil by force
    then show ?thesis using step parse_args_stop [OF c(2) Cons.prems(2)] g(3) Nil by simp
  next
    case (Cons v vs)
    then have v: "is_word v" using Cons.prems(3) by simp
    have "hd (words ws @ redirs rs @ rest) \<notin> set symbols" using starts_word(2) [OF v] Cons by simp
    then have "parseredirs (Execcmd (as @ [?a])) buf ?s = Parsed (Execcmd (as @ [?a]), ?s)"
      by (intro parseredirs_stop [OF g(2) st]) (auto simp: symbols_def)
    then show ?thesis using step Cons.IH [OF g(2) Cons.prems(2), of "n + 1" "as @ [?a]"] Cons.prems g(3) Cons by simp
  qed
qed simp

text \<open>A command is read back at each of the four levels.\<close>

definition reads0 :: "sh_tree \<Rightarrow> bool" where
  "reads0 t \<longleftrightarrow> (\<forall>buf s k rest. at buf s (print_sh 0 t @ rest) \<longrightarrow> follow ''|)&;'' rest \<longrightarrow> 4 * (length buf - s) + 2 \<le> k \<longrightarrow>
     (\<exists>c s'. parseexec k buf s = Parsed (c, s') \<and> at buf s' rest \<and> tree_of (sub buf) c = t))"

definition reads1 :: "sh_tree \<Rightarrow> bool" where
  "reads1 t \<longleftrightarrow> (\<forall>buf s k rest. at buf s (print_sh 1 t @ rest) \<longrightarrow> follow '')&;'' rest \<longrightarrow> 4 * (length buf - s) + 3 \<le> k \<longrightarrow>
     (\<exists>c s'. parsepipe k buf s = Parsed (c, s') \<and> at buf s' rest \<and> tree_of (sub buf) c = t))"

definition reads2 :: "sh_tree \<Rightarrow> bool" where
  "reads2 t \<longleftrightarrow> (\<forall>buf s k rest. at buf s (print_sh 2 t @ rest) \<longrightarrow> follow '')&;'' rest \<longrightarrow> 4 * (length buf - s) + 3 \<le> k \<longrightarrow>
     (\<exists>c1 s1 c s'. parsepipe k buf s = Parsed (c1, s1) \<and> parse_backs c1 buf s1 = parse_backs c buf s' \<and> at buf s' rest \<and>
        tree_of (sub buf) c = t))"

definition reads3 :: "sh_tree \<Rightarrow> bool" where
  "reads3 t \<longleftrightarrow> (\<forall>buf s k rest. at buf s (print_sh 3 t @ rest) \<longrightarrow> follow '')'' rest \<longrightarrow> 4 * (length buf - s) + 4 \<le> k \<longrightarrow>
     (\<exists>c s'. parseline k buf s = Parsed (c, s') \<and> at buf s' rest \<and> tree_of (sub buf) c = t))"

lemma starts_symbol: "c \<in> set symbols \<Longrightarrow> starts (c # ys)"
  using symbols_black by (simp add: starts_def)

lemma starts_print: "wf_tree t \<Longrightarrow> starts rest \<Longrightarrow> starts (print_sh l t @ rest)"
proof (induction t arbitrary: l rest)
  case (TExec ws) then show ?case using starts_word(1) by (cases ws) auto
next
  case (TRedir t d w) then show ?case using starts_symbol [OF dir_char_symbol(1)] by simp
qed (simp_all add: paren_def starts_symbol symbols_def)

lemma follow_mono: "follow F rest \<Longrightarrow> set F \<subseteq> set G \<Longrightarrow> follow G rest"
  by (auto simp: follow_def)

lemma follow_peek:
  "at buf s rest \<Longrightarrow> follow F rest \<Longrightarrow> set F \<subseteq> set symbols \<Longrightarrow> set F \<inter> set toks = {} \<Longrightarrow> peek buf s toks = (False, s)"
  using at_peek [of buf s rest toks] follow_starts [of F rest] by (auto simp: follow_def)

lemma symbol_peek:
  "at buf s (c # ys) \<Longrightarrow> c \<in> set symbols \<Longrightarrow> c \<in> set toks \<Longrightarrow> peek buf s toks = (True, s)"
  using at_peek [of buf s "c # ys" toks] symbols_black [of c] by (simp add: starts_def)

lemma exec_reads:
  assumes "wf_tree (wrap (TExec ws) rs)"
  shows "reads0 (wrap (TExec ws) rs)"
  unfolding reads0_def
proof (intro allI impI)
  fix buf s k rest
  assume a: "at buf s (print_sh 0 (wrap (TExec ws) rs) @ rest)" and f: "follow ''|)&;'' rest" and k: "4 * (length buf - s) + 2 \<le> k"
  then obtain j where j: "k = Suc j" by (cases k) auto
  have at: "at buf s (words ws @ redirs rs @ rest)" using a by (simp add: print_wrap)
  have wf: "length ws < MAXARGS" "\<forall>w \<in> set ws. is_word w" "\<forall>(d, w) \<in> set rs. is_word w" using assms by (simp_all add: wf_wrap)
  have r: "starts rest" "rest = [] \<or> hd rest \<notin> {CHR ''<'', CHR ''>''}" "rest = [] \<or> hd rest \<noteq> CHR ''(''"
    using follow_starts [OF f] f by (auto simp: symbols_def follow_def)
  have st: "starts (words ws @ redirs rs @ rest)" using starts_print [OF assms r(1), of 0] by (simp add: print_wrap)
  have h: "words ws @ redirs rs @ rest = [] \<or> hd (words ws @ redirs rs @ rest) \<noteq> CHR ''(''"
  proof (cases ws)
    case Nil then show ?thesis using r(3) by (cases rs) (auto simp: dir_char_def split: dir.splits)
  next
    case (Cons v vs) then show ?thesis using starts_word(2) [of v] wf(2) by (auto simp: symbols_def)
  qed
  then have p: "peek buf s ''('' = (False, s)" using at_peek [OF at st, of "''(''"] by auto
  show "\<exists>c s'. parseexec k buf s = Parsed (c, s') \<and> at buf s' rest \<and> tree_of (sub buf) c = wrap (TExec ws) rs"
  proof (cases ws)
    case Nil
    then obtain c s' where c: "parseredirs (Execcmd []) buf s = Parsed (c, s')" "at buf s' rest"
      "tree_of (sub buf) c = wrap (TExec []) rs"
      using parseredirs_print [of buf s rs rest "Execcmd []"] at r wf by auto
    then show ?thesis using p j parse_args_stop [OF c(2) f] Nil by simp
  next
    case (Cons v vs)
    then have "parseredirs (Execcmd []) buf s = Parsed (Execcmd [], s)"
      using starts_word(2) [of v] wf(2) by (intro parseredirs_stop [OF at st]) (auto simp: symbols_def)
    then show ?thesis using p j parse_args_print [OF at f wf(2,3), of 0 "[]"] wf(1) Cons by simp
  qed
qed

lemma block_reads:
  assumes b: "reads3 b" "print_sh 0 b = ''( '' @ print_sh 3 b @ '') ''" and wf: "wf_tree (wrap b rs)"
  shows "reads0 (wrap b rs)"
  unfolding reads0_def
proof (intro allI impI)
  fix buf s k rest
  assume a: "at buf s (print_sh 0 (wrap b rs) @ rest)" and f: "follow ''|)&;'' rest" and k: "4 * (length buf - s) + 2 \<le> k"
  have r: "starts rest" "rest = [] \<or> hd rest \<notin> {CHR ''<'', CHR ''>''}"
    using follow_starts [OF f] f by (auto simp: symbols_def follow_def)
  have wf': "wf_tree b" "\<forall>(d, w) \<in> set rs. is_word w" using wf by (simp_all add: wf_wrap)
  let ?rest = "CHR '')'' # '' '' @ redirs rs @ rest"
  have at: "at buf s (CHR ''('' # '' '' @ print_sh 3 b @ ?rest)" using a by (simp add: print_wrap b(2))
  have par: "CHR ''('' \<in> set symbols" "CHR '')'' \<in> set symbols" by (simp_all add: symbols_def)
  have st: "starts (print_sh 3 b @ ?rest)" using starts_print [OF wf'(1) starts_symbol [OF par(2)]] .
  note g = at_symbol [OF at par(1) st]
  have len: "length buf = s + (2 + length (print_sh 3 b @ ?rest))" using at_nth [OF at] by simp
  obtain j where j: "k = Suc (Suc j)" "4 * (length buf - (s + 2)) + 4 \<le> j"
    using k len by (cases k; cases "k - 1") auto
  obtain c s3 where c: "parseline j buf (s + 2) = Parsed (c, s3)" "at buf s3 ?rest" "tree_of (sub buf) c = b"
    using b(1) g(2) j(2) unfolding reads3_def by (metis follow_def list.sel(1) list.set_intros(1))
  note g' = at_symbol [OF c(2) par(2) starts_redirs [OF r(1)]]
  have "parseexec k buf s = parseredirs c buf (s3 + 2)"
    using symbol_peek [OF at par(1), of "''(''"] symbol_peek [OF c(2) par(2), of "'')''"] g(1) g'(1) c(1) j(1) by simp
  then show "\<exists>c s'. parseexec k buf s = Parsed (c, s') \<and> at buf s' rest \<and> tree_of (sub buf) c = wrap b rs"
    using parseredirs_print [OF g'(2) r wf'(2), of c] c(3) by simp
qed

lemma reads01:
  assumes "reads0 t" "print_sh 1 t = print_sh 0 t"
  shows "reads1 t"
  unfolding reads1_def
proof (intro allI impI)
  fix buf s k rest
  assume a: "at buf s (print_sh 1 t @ rest)" and f: "follow '')&;'' rest" and k: "4 * (length buf - s) + 3 \<le> k"
  obtain j where j: "k = Suc j" "4 * (length buf - s) + 2 \<le> j" using k by (cases k) auto
  obtain c s' where c: "parseexec j buf s = Parsed (c, s')" "at buf s' rest" "tree_of (sub buf) c = t"
    using assms a j(2) follow_mono [OF f, of "''|)&;''"] unfolding reads0_def by fastforce
  have "peek buf s' ''|'' = (False, s')" by (rule follow_peek [OF c(2) f]) (simp_all add: symbols_def)
  then show "\<exists>c s'. parsepipe k buf s = Parsed (c, s') \<and> at buf s' rest \<and> tree_of (sub buf) c = t" using c j(1) by simp
qed

lemma reads12: "reads1 t \<Longrightarrow> print_sh 2 t = print_sh 1 t \<Longrightarrow> reads2 t"
  unfolding reads1_def reads2_def by metis

lemma parse_backs_stop:
  "at buf s rest \<Longrightarrow> follow '');'' rest \<Longrightarrow> parse_backs c buf s = (c, s)"
  using follow_peek [of buf s rest "'');''" "''&''"] by (simp add: symbols_def parse_backs.simps [of c buf s])

lemma reads23:
  assumes "reads2 t" "print_sh 3 t = print_sh 2 t"
  shows "reads3 t"
  unfolding reads3_def
proof (intro allI impI)
  fix buf s k rest
  assume a: "at buf s (print_sh 3 t @ rest)" and f: "follow '')'' rest" and k: "4 * (length buf - s) + 4 \<le> k"
  obtain j where j: "k = Suc j" "4 * (length buf - s) + 3 \<le> j" using k by (cases k) auto
  obtain c1 s1 c s' where c: "parsepipe j buf s = Parsed (c1, s1)" "parse_backs c1 buf s1 = parse_backs c buf s'" "at buf s' rest"
    "tree_of (sub buf) c = t"
    using assms a j(2) follow_mono [OF f, of "'')&;''"] unfolding reads2_def by fastforce
  have "parse_backs c buf s' = (c, s')" using parse_backs_stop [OF c(3)] follow_mono [OF f] by simp
  moreover have "peek buf s' '';'' = (False, s')" by (rule follow_peek [OF c(3) f]) (simp_all add: symbols_def)
  ultimately show "\<exists>c s'. parseline k buf s = Parsed (c, s') \<and> at buf s' rest \<and> tree_of (sub buf) c = t" using c j(1) by simp
qed

lemma pipe_reads:
  assumes "reads0 t" "reads1 u" "wf_tree u"
  shows "reads1 (TPipe t u)"
  unfolding reads1_def
proof (intro allI impI)
  fix buf s k rest
  assume a: "at buf s (print_sh 1 (TPipe t u) @ rest)" and f: "follow '')&;'' rest" and k: "4 * (length buf - s) + 3 \<le> k"
  let ?rest = "CHR ''|'' # '' '' @ print_sh 1 u @ rest"
  have bar: "CHR ''|'' \<in> set symbols" by (simp add: symbols_def)
  have at: "at buf s (print_sh 0 t @ ?rest)" using a by (simp add: paren_def)
  obtain j where j: "k = Suc j" "4 * (length buf - s) + 2 \<le> j" using k by (cases k) auto
  obtain c s1 where c: "parseexec j buf s = Parsed (c, s1)" "at buf s1 ?rest" "tree_of (sub buf) c = t"
    using assms(1) at j(2) unfolding reads0_def by (metis follow_def list.sel(1) list.set_intros(1))
  have "starts rest" using follow_starts [OF f] by (simp add: symbols_def)
  note g = at_symbol [OF c(2) bar starts_print [OF assms(3) this]]
  have "length buf = s + length (print_sh 0 t @ ?rest)" "length buf = s1 + length ?rest" using at_nth at c(2) by blast+
  then have "4 * (length buf - (s1 + 2)) + 3 \<le> j" using j(2) by simp
  then obtain d s' where d: "parsepipe j buf (s1 + 2) = Parsed (d, s')" "at buf s' rest" "tree_of (sub buf) d = u"
    using assms(2) g(2) f unfolding reads1_def by blast
  show "\<exists>c s'. parsepipe k buf s = Parsed (c, s') \<and> at buf s' rest \<and> tree_of (sub buf) c = TPipe t u"
    using c d g(1) j(1) symbol_peek [OF c(2) bar, of "''|''"] by simp
qed

lemma back_reads:
  assumes "reads2 t"
  shows "reads2 (TBack t)"
  unfolding reads2_def
proof (intro allI impI)
  fix buf s k rest
  assume a: "at buf s (print_sh 2 (TBack t) @ rest)" and f: "follow '')&;'' rest" and k: "4 * (length buf - s) + 3 \<le> k"
  have amp: "CHR ''&'' \<in> set symbols" by (simp add: symbols_def)
  have at: "at buf s (print_sh 2 t @ CHR ''&'' # '' '' @ rest)" using a by (simp add: paren_def)
  have ff: "follow '')&;'' (CHR ''&'' # '' '' @ rest)" by (simp add: follow_def)
  obtain c1 s1 c s' where c: "parsepipe k buf s = Parsed (c1, s1)" "parse_backs c1 buf s1 = parse_backs c buf s'"
    "at buf s' (CHR ''&'' # '' '' @ rest)" "tree_of (sub buf) c = t"
    using assms at k ff unfolding reads2_def by blast
  have "starts rest" using follow_starts [OF f] by (simp add: symbols_def)
  note g = at_symbol [OF c(3) amp this]
  have "parse_backs c buf s' = parse_backs (Backcmd c) buf (s' + 2)"
    using symbol_peek [OF c(3) amp, of "''&''"] g(1) by (subst parse_backs.simps) simp
  then show "\<exists>c1 s1 c s'. parsepipe k buf s = Parsed (c1, s1) \<and> parse_backs c1 buf s1 = parse_backs c buf s' \<and> at buf s' rest \<and>
      tree_of (sub buf) c = TBack t"
    using c g(2) by (intro exI [of _ c1] exI [of _ s1] exI [of _ "Backcmd c"] exI [of _ "s' + 2"]) simp
qed

lemma list_reads:
  assumes "reads2 t" "reads3 u" "wf_tree u"
  shows "reads3 (TList t u)"
  unfolding reads3_def
proof (intro allI impI)
  fix buf s k rest
  assume a: "at buf s (print_sh 3 (TList t u) @ rest)" and f: "follow '')'' rest" and k: "4 * (length buf - s) + 4 \<le> k"
  let ?rest = "CHR '';'' # '' '' @ print_sh 3 u @ rest"
  have semi: "CHR '';'' \<in> set symbols" by (simp add: symbols_def)
  have at: "at buf s (print_sh 2 t @ ?rest)" using a by (simp add: paren_def)
  have ff: "follow '')&;'' ?rest" "follow '');'' ?rest" by (simp_all add: follow_def)
  obtain j where j: "k = Suc j" "4 * (length buf - s) + 3 \<le> j" using k by (cases k) auto
  obtain c1 s1 c s2 where c: "parsepipe j buf s = Parsed (c1, s1)" "parse_backs c1 buf s1 = parse_backs c buf s2" "at buf s2 ?rest"
    "tree_of (sub buf) c = t"
    using assms(1) at j(2) ff(1) unfolding reads2_def by blast
  have "starts rest" using follow_starts [OF f] by (simp add: symbols_def)
  note g = at_symbol [OF c(3) semi starts_print [OF assms(3) this]]
  have "length buf = s + length (print_sh 2 t @ ?rest)" "length buf = s2 + length ?rest" using at_nth at c(3) by blast+
  then have "4 * (length buf - (s2 + 2)) + 4 \<le> j" using j(2) by simp
  then obtain d s' where d: "parseline j buf (s2 + 2) = Parsed (d, s')" "at buf s' rest" "tree_of (sub buf) d = u"
    using assms(2) g(2) f unfolding reads3_def by blast
  show "\<exists>c s'. parseline k buf s = Parsed (c, s') \<and> at buf s' rest \<and> tree_of (sub buf) c = TList t u"
    using c d g(1) j(1) symbol_peek [OF c(3) semi, of "'';''"] parse_backs_stop [OF c(3) ff(2)] by simp
qed

lemma reads_all: "wf_tree t \<Longrightarrow> reads0 t \<and> reads1 t \<and> reads2 t \<and> reads3 t"
proof (induction t rule: measure_induct_rule [of size])
  case (less t)
  have block: "reads3 t \<Longrightarrow> print_sh 0 t = ''( '' @ print_sh 3 t @ '') '' \<Longrightarrow> reads0 t"
    using block_reads [of t "[]"] less.prems by simp
  show ?case
  proof (cases t)
    case (TExec ws)
    have "reads0 t" using exec_reads [of ws "[]"] less.prems TExec by simp
    then show ?thesis using reads01 reads12 reads23 TExec by simp
  next
    case (TRedir u d w)
    obtain b rs where b: "t = wrap b rs" "\<forall>u d w. b \<noteq> TRedir u d w" using unwrap by blast
    then have "rs \<noteq> []" using TRedir by (cases rs) auto
    then have "reads3 b" using less.IH [of b] size_wrap(2) [of rs b] less.prems b(1) by (simp add: wf_wrap)
    then have "reads0 t" using b less.prems exec_reads block_reads [of b rs] by (cases b) (auto simp: paren_def)
    then show ?thesis using reads01 reads12 reads23 TRedir by simp
  next
    case (TPipe u v)
    then have "reads1 t" using pipe_reads less by simp
    then show ?thesis using reads12 reads23 block TPipe by (simp add: paren_def)
  next
    case (TList u v)
    then have "reads3 t" using list_reads less by simp
    then show ?thesis using reads01 reads12 block TList by (simp add: paren_def)
  next
    case (TBack u)
    then have "reads2 t" using back_reads less by simp
    then show ?thesis using reads01 reads23 block TBack by (simp add: paren_def)
  qed
qed

lemma print_no_nul: "wf_tree t \<Longrightarrow> NUL \<notin> set (print_sh l t)"
proof (induction t arbitrary: l)
  case (TExec ws) then show ?case by (auto simp: words_def is_word_def)
next
  case (TRedir t d w) then show ?case by (cases d) (auto simp: is_word_def dir_char_def)
qed (auto simp: paren_def)

lemma parsecmd_cases:
  assumes "parsecmd line = Parsed (c, mem)"
  obtains s r where "parseline (4 * length line + 4) line 0 = Parsed (c, s)" "peek line s '''' = (r, length line)" "mem = nulterminate c (line @ [NUL])"
  using assms by (cases "parseline (4 * length line + 4) line 0") (auto simp: parsecmd_def split: prod.splits if_splits)

lemma words_from_all: "words_from buf 0 (length buf) = word_spans buf"
  by (auto simp: words_from_def word_spans_def token_ok_def)

text \<open>
  C24. The parser ends on every line, and a command that it returns has each word of the line exactly once: the strings of its arguments and redirections are
  the maximal runs of characters that are neither white space nor symbols. What \<open>exec\<close> and \<open>open\<close> find at the pointers of the command, after
  \<open>nulterminate\<close> has written its NULs, are these words as they were typed; and a redirection is to descriptor 0 for reading or to descriptor 1 for writing.
\<close>

theorem parsecmd_words:
  assumes "NUL \<notin> set line"
  shows "parsecmd line \<noteq> Fuel \<and>
    (\<forall>c mem. parsecmd line = Parsed (c, mem) \<longrightarrow> distinct (tokens c) \<and> set (tokens c) = word_spans line \<and> modes_ok c \<and>
       tree_of (str_at mem) c = tree_of (sub line) c)"
proof (intro conjI allI impI)
  have g: "good line 0 (parseline (4 * length line + 4) line 0)" by (rule parse_good) simp_all
  then show "parsecmd line \<noteq> Fuel"
    by (cases "parseline (4 * length line + 4) line 0") (auto simp: parsecmd_def split: prod.splits)
  fix c mem assume "parsecmd line = Parsed (c, mem)"
  then obtain s r where p: "parseline (4 * length line + 4) line 0 = Parsed (c, s)" "peek line s '''' = (r, length line)"
      "mem = nulterminate c (line @ [NUL])" by (rule parsecmd_cases)
  have f: "fits line 0 s c" by (rule parse_fits(1) [OF p(1)]) (simp add: boundary_def)
  have "fits line 0 (length line) c" using fits_blank [OF f peek_blank [OF p(2) fits_boundary [OF f]]] .
  then show "distinct (tokens c)" "set (tokens c) = word_spans line" "modes_ok c"
    by (simp_all add: fits_def words_from_all)
  have "cmd_ok line c" using g p(1) by simp
  from nulterminate_str_at [OF this assms] show "tree_of (str_at mem) c = tree_of (sub line) c"
    using p(3) by (intro tree_of_cong) simp
qed

lemma parsecmd_demo:
  "parsecmd ''ls>x|wc'' = Parsed (Pipecmd (Redircmd (Execcmd [(0, 2)]) 3 4 513 1) (Execcmd [(5, 7)]),
     [CHR ''l'', CHR ''s'', NUL, CHR ''x'', NUL, CHR ''w'', CHR ''c'', NUL])"
  by code_simp

theorem parsecmd_words_witness:
  "\<exists>c mem. parsecmd ''ls>x|wc'' = Parsed (c, mem) \<and> word_spans ''ls>x|wc'' = {(0, 2), (3, 4), (5, 7)} \<and>
     tree_of (str_at mem) c = TPipe (TRedir (TExec [''ls'']) Out ''x'') (TExec [''wc''])"
  using conjunct2 [OF parsecmd_words [of "''ls>x|wc''"]] by (simp add: parsecmd_demo sub_def dir_of_def O_RDONLY_def)

text \<open>
  C10. The parser reads back every command that is printed in the grammar of the shell: the strings of the parsed command give the tree that was printed. The
  conditions are that words are made of word characters and that a command has fewer than \<open>MAXARGS\<close> words. A redirection is to descriptor 0 for reading or
  to descriptor 1 for writing.
\<close>

theorem parsecmd_print:
  assumes "wf_tree t"
  shows "\<exists>c mem. parsecmd (print_sh 3 t) = Parsed (c, mem) \<and> modes_ok c \<and> tree_of (str_at mem) c = t"
proof -
  let ?line = "print_sh 3 t"
  have n: "NUL \<notin> set ?line" using print_no_nul [OF assms] .
  then have "at ?line 0 (print_sh 3 t @ [])" by (simp add: at_def)
  then obtain c s where c: "parseline (4 * length ?line + 4) ?line 0 = Parsed (c, s)" "at ?line s []" "tree_of (sub ?line) c = t"
    using reads_all [OF assms] unfolding reads3_def by (metis follow_def diff_zero order_refl)
  have s: "s = length ?line" using c(2) by (simp add: at_def)
  have "peek ?line s '''' = (False, s)" using at_peek [OF c(2)] by (simp add: starts_def)
  then have p: "parsecmd ?line = Parsed (c, nulterminate c (?line @ [NUL]))" using c(1) s by (simp add: parsecmd_def)
  have "good ?line 0 (parseline (4 * length ?line + 4) ?line 0)" by (rule parse_good) simp_all
  then have "cmd_ok ?line c" using c(1) by simp
  then have "tree_of (str_at (nulterminate c (?line @ [NUL]))) c = tree_of (sub ?line) c"
    using nulterminate_str_at n by (intro tree_of_cong) simp
  moreover have "fits ?line 0 s c" by (rule parse_fits(1) [OF c(1)]) (simp add: boundary_def)
  ultimately show ?thesis using p c(3) by (simp add: fits_def)
qed

theorem parsecmd_print_witness:
  "\<exists>c mem. parsecmd ''( ls -l ; cat < in & ) | wc > out '' = Parsed (c, mem) \<and> modes_ok c \<and>
     tree_of (str_at mem) c = TPipe (TList (TExec [''ls'', ''-l'']) (TBack (TRedir (TExec [''cat'']) In ''in''))) (TRedir (TExec [''wc'']) Out ''out'')"
  using parsecmd_print [of "TPipe (TList (TExec [''ls'', ''-l'']) (TBack (TRedir (TExec [''cat'']) In ''in''))) (TRedir (TExec [''wc'']) Out ''out'')"]
  by (simp add: paren_def dir_char_def is_word_def word_char_def whitespace_def symbols_def MAXARGS_def)

end
